(* ===== verification/Prelude.thy ===== *)
theory Prelude
  imports Main "HOL-Library.Word" "HOL-Library.Monad_Syntax"
begin

text \<open>
  Shared vocabulary of the Miyabi development: the C integer types as words, the counted
  \<open>for\<close> loops of the kernel as one combinator with its induction rule, the 4 KiB page
  arithmetic every memory component uses, and the collections of rewrite rules the
  component theories add to.

  An operation that may not come back (the kernel's \<open>for (;;) hlt\<close>, a walk over a cyclic
  list, a processor fault such as a division by zero, an access the C standard leaves
  undefined) returns an \<open>option\<close>: \<open>Some\<close> is "returns normally with this result",
  \<open>None\<close> is "control does not come back from here". Error codes the code itself
  returns (0, -1, NULL) are ordinary values.
\<close>

unbundle bit_operations_syntax

type_synonym u8 = "8 word"
type_synonym u16 = "16 word"
type_synonym u32 = "32 word"
type_synonym u64 = "64 word"

text \<open>
  A C string without its terminating NUL, one \<open>u8\<close> per \<open>char\<close>; \<open>str\<close> turns a literal
  of the source into its bytes.
\<close>

type_synonym cstring = "u8 list"

definition str :: "string \<Rightarrow> cstring" where
  "str = List.map of_char"

abbreviation SPACE :: u8 where "SPACE \<equiv> 0x20"
abbreviation SLASH :: u8 where "SLASH \<equiv> 0x2F"
abbreviation DOT :: u8 where "DOT \<equiv> 0x2E"

named_theorems page_simps \<open>rewrite rules for page arithmetic on 64-bit addresses\<close>
named_theorems frame_simps \<open>what an operation leaves unchanged\<close>


subsection \<open>Counted loops\<close>

text \<open>\<open>for (uint64_t i = lo; i < hi; i++) s = f(i, s);\<close>\<close>

function for_up :: "u64 \<Rightarrow> u64 \<Rightarrow> (u64 \<Rightarrow> 's \<Rightarrow> 's) \<Rightarrow> 's \<Rightarrow> 's" where
  "for_up i n f s = (if i < n then for_up (i + 1) n f (f i s) else s)"
  by pat_completeness auto
termination
proof (relation "measure (\<lambda>(i, n, f, s). unat n - unat i)")
  fix i n :: u64 and f :: "u64 \<Rightarrow> 's \<Rightarrow> 's" and s
  assume "i < n"
  then show "((i + 1, n, f, f i s), i, n, f, s) \<in> measure (\<lambda>(i, n, f, s). unat n - unat i)"
    by simp unat_arith
qed simp

declare for_up.simps [simp del]

lemma for_up_stop [simp]: "n \<le> i \<Longrightarrow> for_up i n f s = s"
  by (subst for_up.simps) (auto dest: leD)

lemma for_up_step: "i < n \<Longrightarrow> for_up i n f s = for_up (i + 1) n f (f i s)"
  by (subst for_up.simps) simp

lemma unat_u64: "unat (x :: u64) < 2 ^ 64"
  by (rule unsigned_less [THEN order_less_le_trans]) simp

lemma less_inc_le: "i < n \<Longrightarrow> i + 1 \<le> n \<and> unat (i + 1) = unat i + 1" for i n :: u64
  by unat_arith

lemma le_inc_le: "lo \<le> i \<Longrightarrow> i < n \<Longrightarrow> lo \<le> i + 1" for lo i n :: u64
  by unat_arith

lemma le_split_inc: "i < n \<Longrightarrow> i \<le> j \<longleftrightarrow> i = j \<or> i + 1 \<le> j" for i j n :: u64
  by unat_arith

lemma less_inc_iff: "i < n \<Longrightarrow> j < i + 1 \<longleftrightarrow> j < i \<or> j = i" for i j n :: u64
  by unat_arith

lemma one_le_iff: "1 \<le> i \<longleftrightarrow> 0 < i" for i :: u64
  by unat_arith

text \<open>The loop rule: an invariant indexed by the loop counter.\<close>

lemma for_up_rule:
  assumes P: "P lo s" "lo \<le> hi"
    and step: "\<And>i s. lo \<le> i \<Longrightarrow> i < hi \<Longrightarrow> P i s \<Longrightarrow> P (i + 1) (f i s)"
  shows "P hi (for_up lo hi f s)"
proof -
  have "lo \<le> i \<Longrightarrow> i \<le> n \<Longrightarrow> P i s \<Longrightarrow> n = hi \<Longrightarrow> f' = f \<Longrightarrow> P n (for_up i n f' s)" for i n f' s
  proof (induction i n f' s rule: for_up.induct)
    case (1 i n f' s)
    show ?case
    proof (cases "i < n")
      case True
      with 1(2-6) step [of i s] have "P (i + 1) (f i s)" by simp
      with True 1 show ?thesis
        by (simp add: for_up_step less_inc_le le_inc_le)
    next
      case False
      with 1(3) have "i = n" by simp
      with 1(4) show ?thesis by simp
    qed
  qed
  with P show ?thesis by blast
qed

text \<open>A loop over an interval, seen as a fold over the numbers it visits.\<close>

lemma for_up_fold: "for_up lo hi f s = fold (\<lambda>k. f (of_nat k)) [unat lo..<unat hi] s"
proof (induction lo hi f s rule: for_up.induct)
  case (1 i n f s)
  show ?case
  proof (cases "i < n")
    case True
    then have "[unat i..<unat n] = unat i # [Suc (unat i)..<unat n]"
      by (simp add: upt_conv_Cons word_less_nat_alt)
    with True 1 show ?thesis
      by (simp add: for_up_step less_inc_le)
  next
    case False
    then show ?thesis by (simp add: not_less word_le_nat_alt)
  qed
qed

text \<open>The same loop when its body may not come back.\<close>

function for_opt :: "u64 \<Rightarrow> u64 \<Rightarrow> (u64 \<Rightarrow> 's \<Rightarrow> 's option) \<Rightarrow> 's \<Rightarrow> 's option" where
  "for_opt i n f s = (if i < n then do { s' \<leftarrow> f i s; for_opt (i + 1) n f s' } else Some s)"
  by pat_completeness auto
termination
proof (relation "measure (\<lambda>(i, n, f, s). unat n - unat i)")
  fix i n :: u64 and f :: "u64 \<Rightarrow> 's \<Rightarrow> 's option" and s s' :: 's
  assume "i < n"
  then show "((i + 1, n, f, s'), i, n, f, s) \<in> measure (\<lambda>(i, n, f, s). unat n - unat i)"
    by simp unat_arith
qed simp

declare for_opt.simps [simp del]

lemma for_opt_stop [simp]: "n \<le> i \<Longrightarrow> for_opt i n f s = Some s"
  by (subst for_opt.simps) (auto dest: leD)

lemma for_opt_step: "i < n \<Longrightarrow> for_opt i n f s = do { s' \<leftarrow> f i s; for_opt (i + 1) n f s' }"
  by (subst for_opt.simps) simp

text \<open>Partial correctness: what holds of the state when the loop returns.\<close>

lemma for_opt_rule:
  assumes P: "P lo s" "lo \<le> hi" "for_opt lo hi f s = Some r"
    and step: "\<And>i s s'. lo \<le> i \<Longrightarrow> i < hi \<Longrightarrow> P i s \<Longrightarrow> f i s = Some s' \<Longrightarrow> P (i + 1) s'"
  shows "P hi r"
proof -
  have "lo \<le> i \<Longrightarrow> i \<le> n \<Longrightarrow> P i s \<Longrightarrow> n = hi \<Longrightarrow> f' = f \<Longrightarrow> for_opt i n f' s = Some r \<Longrightarrow> P n r"
    for i n f' s
  proof (induction i n f' s rule: for_opt.induct)
    case (1 i n f' s)
    show ?case
    proof (cases "i < n")
      case True
      with 1(7) obtain s' where s': "f' i s = Some s'" "for_opt (i + 1) n f' s' = Some r"
        by (auto simp: for_opt_step bind_eq_Some_conv)
      with True 1(2-6) step [of i s s'] have "P (i + 1) s'" by simp
      with True 1 s' show ?thesis by (simp add: less_inc_le le_inc_le)
    next
      case False
      with 1(3) have "i = n" by simp
      with 1(4,7) show ?thesis by simp
    qed
  qed
  with P show ?thesis by blast
qed

text \<open>Total correctness: the loop returns, and the invariant holds of what it returns.\<close>

lemma for_opt_total:
  assumes P: "P lo s" "lo \<le> hi"
    and step: "\<And>i s. lo \<le> i \<Longrightarrow> i < hi \<Longrightarrow> P i s \<Longrightarrow> \<exists>s'. f i s = Some s' \<and> P (i + 1) s'"
  shows "\<exists>r. for_opt lo hi f s = Some r \<and> P hi r"
proof -
  have "lo \<le> i \<Longrightarrow> i \<le> n \<Longrightarrow> P i s \<Longrightarrow> n = hi \<Longrightarrow> f' = f \<Longrightarrow> \<exists>r. for_opt i n f' s = Some r \<and> P n r"
    for i n f' s
  proof (induction i n f' s rule: for_opt.induct)
    case (1 i n f' s)
    show ?case
    proof (cases "i < n")
      case True
      with 1(2-6) step [of i s] obtain s' where s': "f' i s = Some s'" "P (i + 1) s'" by auto
      with True 1(2-6) 1(1) [OF True] show ?thesis
        by (simp add: for_opt_step less_inc_le le_inc_le)
    next
      case False
      with 1(3) have "i = n" by simp
      with 1(4) show ?thesis by simp
    qed
  qed
  with P show ?thesis by blast
qed


subsection \<open>Pages\<close>

text \<open>\<open>x & ~0xFFF\<close>, the mask the memory code applies to addresses and table entries.\<close>

definition page_base :: "u64 \<Rightarrow> u64" where
  "page_base x = x AND NOT 0xFFF"

lemma and_not_mask: "x AND NOT (mask k) = push_bit k (drop_bit k x)" for x :: u64
  by (rule bit_word_eqI) (auto simp: bit_simps)

lemma unat_clear_low: "unat (push_bit k (drop_bit k x) :: u64) = unat x div 2 ^ k * 2 ^ k"
proof -
  have "unat x div 2 ^ k * 2 ^ k < 2 ^ 64"
    using unat_u64 [of x] by (rule order_le_less_trans [OF div_times_less_eq_dividend])
  then have "take_bit 64 (push_bit k (drop_bit k (take_bit 64 (unat x)))) = unat x div 2 ^ k * 2 ^ k"
    using unat_u64 [of x] by (simp add: push_bit_eq_mult drop_bit_eq_div take_bit_nat_eq_self)
  then show ?thesis
    by (simp only: unsigned_push_bit_eq unsigned_drop_bit_eq) simp
qed

lemma page_base_eq: "page_base x = push_bit 12 (drop_bit 12 x)"
proof -
  have m: "(0xFFF :: u64) = mask 12" by (simp add: mask_eq_exp_minus_1)
  show ?thesis unfolding page_base_def m by (rule and_not_mask)
qed

lemma unat_page_base: "unat (page_base x) = unat x div 4096 * 4096"
  using unat_clear_low [of 12 x] by (simp add: page_base_eq)

text \<open>The form evaluated on concrete addresses.\<close>

lemma page_base_code [code]: "page_base x = x div 4096 * 4096"
  by (simp add: page_base_eq push_bit_eq_mult drop_bit_eq_div)

text \<open>An address is page aligned when its low twelve bits are zero.\<close>

definition page_aligned :: "u64 \<Rightarrow> bool" where
  "page_aligned x \<longleftrightarrow> unat x mod 4096 = 0"

lemma page_aligned_base [page_simps]: "page_aligned (page_base x)"
  by (simp add: page_aligned_def unat_page_base)

lemma page_base_aligned [page_simps]: "page_aligned x \<Longrightarrow> page_base x = x"
  by (rule word_unat_eq_iff [THEN iffD2]) (auto simp: page_aligned_def unat_page_base)

lemma page_base_le: "page_base x \<le> x"
  by (simp add: word_le_nat_alt unat_page_base)

text \<open>\<open>(x + 0xFFF) & ~0xFFF\<close> rounds up, unless the sum wraps.\<close>

lemma unat_page_round_up:
  assumes "unat x + 4095 < 2 ^ 64"
  shows "unat (page_base (x + 0xFFF)) = (unat x + 4095) div 4096 * 4096"
proof -
  have "unat (x + 0xFFF) = unat x + 4095"
    using assms by (simp add: unat_word_ariths)
  then show ?thesis by (simp add: unat_page_base)
qed

text \<open>Frame numbers: the address of frame \<open>i\<close> is \<open>i * 4096\<close>, exact below \<open>2 ^ 52\<close>.\<close>

lemma unat_frame_addr [page_simps]: "unat i < 2 ^ 52 \<Longrightarrow> unat (i * 4096 :: u64) = unat i * 4096"
  by (simp add: unat_word_ariths)

lemma page_aligned_frame_addr [page_simps]: "unat i < 2 ^ 52 \<Longrightarrow> page_aligned (i * 4096)"
  by (simp add: page_aligned_def unat_frame_addr)

lemma frame_addr_inj:
  "unat i < 2 ^ 52 \<Longrightarrow> unat j < 2 ^ 52 \<Longrightarrow> i * 4096 = (j * 4096 :: u64) \<longleftrightarrow> i = j"
  by (metis unat_frame_addr mult_cancel2 word_unat_eq_iff zero_neq_numeral)

lemma page_interval_step:
  fixes p a f :: nat
  assumes "a mod 4096 = 0" "a + 4096 \<le> f"
  shows "p * 4096 \<noteq> a \<and> \<not> (a + 4096 \<le> p * 4096 \<and> p * 4096 < f) \<longleftrightarrow>
    \<not> (a \<le> p * 4096 \<and> p * 4096 < f)"
proof -
  from assms(1) obtain k where k: "a = k * 4096" by (auto simp: mod_eq_0_iff_dvd dvd_def)
  have "a + 4096 \<le> p * 4096 \<longleftrightarrow> k < p" "a \<le> p * 4096 \<longleftrightarrow> k \<le> p" "p * 4096 = a \<longleftrightarrow> p = k"
    unfolding k by auto
  with assms(2) k show ?thesis by auto
qed

text \<open>The low twelve bits of an aligned address are free for flags.\<close>

lemma page_aligned_bit: "page_aligned x \<Longrightarrow> n < 12 \<Longrightarrow> \<not> bit x n"
proof -
  assume "page_aligned x" and n: "n < 12"
  then have "x = push_bit 12 (drop_bit 12 x)"
    using page_base_aligned [of x] by (simp add: page_base_eq)
  with n show ?thesis by (metis bit_push_bit_iff not_le)
qed

lemma bit_page_base: "bit (page_base x) n \<longleftrightarrow> 12 \<le> n \<and> bit x n"
  by (auto simp: page_base_eq bit_simps dest: bit_imp_le_length)

lemma page_base_or: "page_base (x OR y) = page_base x OR page_base y"
  by (rule bit_word_eqI) (auto simp: bit_page_base bit_simps)

lemma page_base_small: "x < 4096 \<Longrightarrow> page_base x = 0"
  by (simp add: word_unat_eq_iff unat_page_base word_less_nat_alt)

lemma page_gap: "a mod 4096 = 0 \<Longrightarrow> f mod 4096 = 0 \<Longrightarrow> a < f \<Longrightarrow> a + 4096 \<le> (f :: nat)"
  by (auto simp: mod_eq_0_iff_dvd dvd_def)

lemma page_aligned_room: "page_aligned t \<Longrightarrow> unat t + 4096 \<le> 2 ^ 64"
  using page_gap [of "unat t" "2 ^ 64"] unat_u64 [of t] by (simp add: page_aligned_def)

lemma page_split_unique:
  fixes a b i j :: nat
  assumes "a mod 4096 = 0" "b mod 4096 = 0" "i < 4096" "j < 4096" "a + i = b + j"
  shows "a = b \<and> i = j"
proof -
  obtain k l where kl: "a = 4096 * k" "b = 4096 * l"
    using assms(1,2) by (auto simp: mod_eq_0_iff_dvd dvd_def)
  have "(a + i) div 4096 = k" "(b + j) div 4096 = l"
    using kl assms(3,4) by simp_all
  with kl assms(5) show ?thesis by simp
qed

lemma page_aligned_add: "page_aligned x \<Longrightarrow> page_aligned y \<Longrightarrow> page_aligned (x + y)"
proof -
  assume "page_aligned x" "page_aligned y"
  then have "(unat x + unat y) mod 4096 = 0" by (simp add: page_aligned_def mod_add_eq [symmetric])
  then have "(unat x + unat y) mod 2 ^ 64 mod 4096 = 0"
    by (subst mod_mod_cancel) simp_all
  then show ?thesis by (simp add: page_aligned_def unat_word_ariths)
qed

lemma page_aligned_and_small: "page_aligned x \<Longrightarrow> f < 4096 \<Longrightarrow> x AND f = 0"
proof (rule bit_word_eqI)
  fix n
  assume "page_aligned x" "f < 4096"
  then show "bit (x AND f) n \<longleftrightarrow> bit (0 :: u64) n"
    using page_aligned_bit [of x n] bit_page_base [of f n] page_base_small [of f]
    by (auto simp: bit_simps not_less)
qed


subsection \<open>Searching a list\<close>

lemma find_split:
  "List.find P xs = Some e \<longleftrightarrow> (\<exists>ys zs. xs = ys @ e # zs \<and> P e \<and> (\<forall>y \<in> set ys. \<not> P y))"
  (is "?l xs \<longleftrightarrow> ?r xs")
proof (induction xs)
  case (Cons a xs)
  show ?case
  proof (cases "P a")
    case True
    then show ?thesis by (auto simp: Cons_eq_append_conv)
  next
    case False
    have "?r (a # xs) \<longleftrightarrow> ?r xs"
    proof
      assume "?r xs"
      then obtain ys zs where "xs = ys @ e # zs" "P e" "\<forall>y \<in> set ys. \<not> P y" by blast
      with False show "?r (a # xs)" by (intro exI [of _ "a # ys"] exI [of _ zs]) simp
    qed (use False in \<open>auto simp: Cons_eq_append_conv\<close>)
    with False Cons show ?thesis by simp
  qed
qed simp

lemma find_append:
  "List.find P (xs @ ys) = (case List.find P xs of None \<Rightarrow> List.find P ys | Some x \<Rightarrow> Some x)"
  by (induction xs) auto


lemma unat_ucast_32_64 [simp]: "unat (ucast x :: u64) = unat x" for x :: u32
proof -
  have "unat x < 2 ^ 64" by (rule less_trans [OF unsigned_less]) simp
  then show ?thesis by (simp add: unsigned_ucast_eq take_bit_nat_eq_self)
qed

lemma unat_ucast_8_64 [simp]: "unat (ucast x :: u64) = unat x" for x :: u8
proof -
  have "unat x < 2 ^ 64" by (rule less_trans [OF unsigned_less]) simp
  then show ?thesis by (simp add: unsigned_ucast_eq take_bit_nat_eq_self)
qed

lemma unat_ucast_16_64 [simp]: "unat (ucast x :: u64) = unat x" for x :: u16
proof -
  have "unat x < 2 ^ 64" by (rule less_trans [OF unsigned_less]) simp
  then show ?thesis by (simp add: unsigned_ucast_eq take_bit_nat_eq_self)
qed

end
