(* ===== verification/Interfaces.thy ===== *)
theory Interfaces
  imports Prelude
begin

text \<open>
  The contracts between the kernel's components, as locales: what a client may rely on,
  with the client's lemmas proved from the contract alone. Each locale is interpreted on
  the model of the code that provides it, in that component's theory.
\<close>


subsection \<open>Physical frame allocator\<close>

text \<open>
  \<open>pmm_alloc\<close> as its clients (the page-table code, the heap, the ELF loader) see it: it
  returns 0 or the address of a frame that was free and no longer is.
\<close>

fun alloc_n :: "('s \<Rightarrow> u64 \<times> 's) \<Rightarrow> nat \<Rightarrow> 's \<Rightarrow> u64 list \<times> 's" where
  "alloc_n alloc 0 s = ([], s)"
| "alloc_n alloc (Suc n) s =
     (let (p, s') = alloc s; (ps, s'') = alloc_n alloc n s' in (p # ps, s''))"

locale frame_allocator =
  fixes alloc :: "'s \<Rightarrow> u64 \<times> 's"
    and free :: "'s \<Rightarrow> u64 set"
    and inv :: "'s \<Rightarrow> bool"
  assumes finite_free: "inv s \<Longrightarrow> finite (free s)"
    and free_frame: "inv s \<Longrightarrow> p \<in> free s \<Longrightarrow> p \<noteq> 0 \<and> page_aligned p"
    and alloc_empty: "inv s \<Longrightarrow> free s = {} \<Longrightarrow> alloc s = (0, s)"
    and alloc_take: "inv s \<Longrightarrow> free s \<noteq> {} \<Longrightarrow> alloc s = (p, s') \<Longrightarrow>
      p \<in> free s \<and> free s' = free s - {p} \<and> inv s'"
begin

lemma alloc_inv: "inv s \<Longrightarrow> alloc s = (p, s') \<Longrightarrow> inv s'"
  by (cases "free s = {}") (auto simp: alloc_empty dest: alloc_take)

lemma alloc_null_iff: "inv s \<Longrightarrow> alloc s = (p, s') \<Longrightarrow> p = 0 \<longleftrightarrow> free s = {}"
  by (cases "free s = {}") (auto simp: alloc_empty dest: alloc_take free_frame)

lemma alloc_some:
  assumes "inv s" "alloc s = (p, s')" "p \<noteq> 0"
  shows "p \<in> free s" "free s' = free s - {p}" "page_aligned p" "inv s'"
  using assms alloc_null_iff [of s p s'] alloc_take [of s p s'] free_frame [of s p] by auto

lemma alloc_free_subset: "inv s \<Longrightarrow> alloc s = (p, s') \<Longrightarrow> free s' \<subseteq> free s"
  by (cases "free s = {}") (auto simp: alloc_empty dest: alloc_take)

lemma alloc_card:
  assumes "inv s" "alloc s = (p, s')"
  shows "card (free s') = card (free s) - 1"
  using assms finite_free [of s] by (cases "free s = {}") (auto simp: alloc_empty dest: alloc_take)

text \<open>While enough frames are free, repeated allocation yields distinct, usable frames.\<close>

lemma alloc_n_spec:
  assumes "inv s" "n \<le> card (free s)" "alloc_n alloc n s = (ps, s')"
  shows "distinct ps \<and> length ps = n \<and> set ps \<subseteq> free s \<and> 0 \<notin> set ps \<and>
    free s' = free s - set ps \<and> inv s'"
  using assms
proof (induction n arbitrary: s ps s')
  case 0
  then show ?case by simp
next
  case (Suc n)
  from Suc.prems(2) have ne: "free s \<noteq> {}" by auto
  obtain p t where a: "alloc s = (p, t)" by force
  obtain qs where q: "alloc_n alloc n t = (qs, s')" and ps: "ps = p # qs"
    using Suc.prems(3) a by (auto simp: Let_def split: prod.splits)
  from alloc_take [OF Suc.prems(1) ne a] have p: "p \<in> free s" "free t = free s - {p}" "inv t"
    by auto
  from alloc_card [OF Suc.prems(1) a] Suc.prems(2) have "n \<le> card (free t)" by simp
  from Suc.IH [OF p(3) this q] p ps free_frame [OF Suc.prems(1) p(1)] show ?case by auto
qed

end


subsection \<open>Kernel heap\<close>

text \<open>
  \<open>kmalloc\<close> and \<open>kfree\<close> as their callers see them: a set of live regions (pointer,
  length), pairwise disjoint, that an allocation extends and a release shrinks. \<open>room s n\<close>
  bounds the request so that the heap's addresses do not wrap.
\<close>

definition regions_apart :: "u64 \<times> nat \<Rightarrow> u64 \<times> nat \<Rightarrow> bool" where
  "regions_apart r q \<longleftrightarrow> unat (fst r) + snd r \<le> unat (fst q) \<or> unat (fst q) + snd q \<le> unat (fst r)"

locale kernel_heap =
  fixes alloc :: "u64 \<Rightarrow> 's \<Rightarrow> (u64 \<times> 's) option"
    and release :: "u64 \<Rightarrow> 's \<Rightarrow> 's option"
    and live :: "'s \<Rightarrow> (u64 \<times> nat) set"
    and inv :: "'s \<Rightarrow> bool"
    and room :: "'s \<Rightarrow> u64 \<Rightarrow> bool"
  assumes alloc_live: "inv s \<Longrightarrow> n \<noteq> 0 \<Longrightarrow> room s n \<Longrightarrow> alloc n s = Some (p, s') \<Longrightarrow>
      inv s' \<and> p \<noteq> 0 \<and> (\<exists>m. unat n \<le> m \<and> (p, m) \<notin> live s \<and> live s' = insert (p, m) (live s))"
    and live_apart: "inv s \<Longrightarrow> r \<in> live s \<Longrightarrow> q \<in> live s \<Longrightarrow> r \<noteq> q \<Longrightarrow> regions_apart r q"
    and release_live: "inv s \<Longrightarrow> (p, m) \<in> live s \<Longrightarrow>
      \<exists>s'. release p s = Some s' \<and> inv s' \<and> live s' = live s - {(p, m)}"
begin

text \<open>A fresh region is apart from every region that was live.\<close>

lemma alloc_apart:
  assumes "inv s" "n \<noteq> 0" "room s n" "alloc n s = Some (p, s')"
  shows "\<exists>m. unat n \<le> m \<and> (p, m) \<in> live s' \<and> (\<forall>r \<in> live s. regions_apart (p, m) r \<and> r \<in> live s')"
proof -
  from alloc_live [OF assms] obtain m where m: "inv s'" "unat n \<le> m" "(p, m) \<notin> live s"
    "live s' = insert (p, m) (live s)" by blast
  with live_apart [OF m(1), of "(p, m)"] show ?thesis by blast
qed

text \<open>Two allocations in a row give disjoint regions, both of which are then live.\<close>

lemma alloc_twice:
  assumes "inv s" "n \<noteq> 0" "room s n" "alloc n s = Some (p, s')"
    and "k \<noteq> 0" "room s' k" "alloc k s' = Some (q, s'')"
  shows "\<exists>m l. unat n \<le> m \<and> unat k \<le> l \<and> (p, m) \<in> live s'' \<and> (q, l) \<in> live s'' \<and>
    regions_apart (p, m) (q, l) \<and> (\<forall>r \<in> live s. r \<in> live s'' \<and> regions_apart (p, m) r \<and> regions_apart (q, l) r)"
proof -
  obtain m where m: "unat n \<le> m" "(p, m) \<in> live s'"
    "\<forall>r \<in> live s. regions_apart (p, m) r \<and> r \<in> live s'"
    using alloc_apart [OF assms(1-4)] by blast
  have "inv s'" using alloc_live [OF assms(1-4)] by blast
  then obtain l where "unat k \<le> l" "(q, l) \<in> live s''"
    "\<forall>r \<in> live s'. regions_apart (q, l) r \<and> r \<in> live s''"
    using alloc_apart [OF _ assms(5-7)] by blast
  with m show ?thesis by (fastforce simp: regions_apart_def)
qed

text \<open>Giving back what was just allocated restores the set of live regions.\<close>

lemma alloc_release:
  assumes "inv s" "n \<noteq> 0" "room s n" "alloc n s = Some (p, s')"
  shows "\<exists>s''. release p s' = Some s'' \<and> inv s'' \<and> live s'' = live s"
proof -
  from alloc_live [OF assms] obtain m where m: "inv s'" "(p, m) \<notin> live s"
    "live s' = insert (p, m) (live s)" by blast
  with release_live [OF m(1), of p m] show ?thesis by auto
qed

end

end
