(* ===== verification/CString.thy ===== *)
theory CString
  imports Interfaces
begin

text \<open>
  The C string and memory routines, \<open>src/lib/string.c\<close>, over byte-addressed memory, and
  their list view, which the components that keep names use. \<open>spells m p s\<close> relates the
  two: the bytes from address \<open>p\<close> are those of \<open>s\<close> followed by a NUL.
\<close>


subsection \<open>The routines\<close>

type_synonym memory = "u64 \<Rightarrow> u8"

definition memcpy :: "u64 \<Rightarrow> u64 \<Rightarrow> u64 \<Rightarrow> memory \<Rightarrow> memory" where
  "memcpy dest src n m = for_up 0 n (\<lambda>i m. m(dest + i := m (src + i))) m"

definition memset :: "u64 \<Rightarrow> u32 \<Rightarrow> u64 \<Rightarrow> memory \<Rightarrow> memory" where
  "memset s c n m = for_up 0 n (\<lambda>i m. m(s + i := ucast c)) m"

partial_function (option) strlen_loop :: "memory \<Rightarrow> u64 \<Rightarrow> u64 \<Rightarrow> u64 option" where
  "strlen_loop m s len = (if m (s + len) \<noteq> 0 then strlen_loop m s (len + 1) else Some len)"

definition strlen :: "memory \<Rightarrow> u64 \<Rightarrow> u64 option" where
  "strlen m s = strlen_loop m s 0"

partial_function (option) strcmp :: "memory \<Rightarrow> u64 \<Rightarrow> u64 \<Rightarrow> int option" where
  "strcmp m s1 s2 =
     (if m s1 \<noteq> 0 \<and> m s1 = m s2 then strcmp m (s1 + 1) (s2 + 1)
      else Some (uint (m s1) - uint (m s2)))"

partial_function (option) strcpy_loop :: "u64 \<Rightarrow> u64 \<Rightarrow> memory \<Rightarrow> memory option" where
  "strcpy_loop dest src m =
     (let c = m src; m' = m(dest := c)
      in if c \<noteq> 0 then strcpy_loop (dest + 1) (src + 1) m' else Some m')"

definition strcpy :: "u64 \<Rightarrow> u64 \<Rightarrow> memory \<Rightarrow> (u64 \<times> memory) option" where
  "strcpy dest src m = map_option (\<lambda>m'. (dest, m')) (strcpy_loop dest src m)"

declare strlen_loop.simps [code] strcmp.simps [code] strcpy_loop.simps [code]


subsection \<open>Strings as lists\<close>

definition no_nul :: "cstring \<Rightarrow> bool" where "no_nul s \<longleftrightarrow> 0 \<notin> set s"

definition cget :: "cstring \<Rightarrow> nat \<Rightarrow> u8" where
  \<comment> \<open>\<open>s[i]\<close>, the terminating NUL included\<close>
  "cget s i = (if i < length s then s ! i else 0)"

fun spells :: "memory \<Rightarrow> u64 \<Rightarrow> cstring \<Rightarrow> bool" where
  "spells m p [] \<longleftrightarrow> m p = 0"
| "spells m p (c # s) \<longleftrightarrow> c \<noteq> 0 \<and> m p = c \<and> spells m (p + 1) s"

text \<open>The comparison the three copies of \<open>strcmp\<close> make, on lists.\<close>

fun str_cmp :: "cstring \<Rightarrow> cstring \<Rightarrow> int" where
  "str_cmp (c # s) (d # t) = (if c \<noteq> 0 \<and> c = d then str_cmp s t else uint c - uint d)"
| "str_cmp s t = uint (cget s 0) - uint (cget t 0)"

lemma no_nul_simps [simp]: "no_nul []" "no_nul (c # s) \<longleftrightarrow> c \<noteq> 0 \<and> no_nul s"
  "no_nul (s @ t) \<longleftrightarrow> no_nul s \<and> no_nul t"
  by (auto simp: no_nul_def)

lemma cget_simps [simp]: "cget [] i = 0" "cget (c # s) 0 = c" "cget (c # s) (Suc i) = cget s i"
  by (auto simp: cget_def)

lemma spells_no_nul: "spells m p s \<Longrightarrow> no_nul s"
  by (induction s arbitrary: p) auto

lemma spells_nth: "spells m p s \<longleftrightarrow> no_nul s \<and> (\<forall>i \<le> length s. m (p + of_nat i) = cget s i)"
proof (induction s arbitrary: p)
  case (Cons c s)
  have "(\<forall>i \<le> length (c # s). m (p + of_nat i) = cget (c # s) i) \<longleftrightarrow>
      m p = c \<and> (\<forall>i \<le> length s. m (p + 1 + of_nat i) = cget s i)"
    by (simp add: less_Suc_eq_le [symmetric] All_less_Suc2 ac_simps)
  with Cons show ?case by auto
qed simp

lemma str_cmp_eq: "no_nul s \<Longrightarrow> no_nul t \<Longrightarrow> str_cmp s t = 0 \<longleftrightarrow> s = t"
proof (induction s t rule: str_cmp.induct [case_names both left right])
  case (left t)
  then show ?case by (cases t) (auto simp: no_nul_def uint_0_iff)
next
  case (right s)
  then show ?case by (cases s) (auto simp: no_nul_def uint_0_iff)
qed (auto simp flip: word_uint_eq_iff)

lemma str_cmp_antisym: "str_cmp s t = - str_cmp t s"
  by (induction s t rule: str_cmp.induct) (auto simp: cget_def)

lemma strcmp_spells: "spells m p s \<Longrightarrow> spells m q t \<Longrightarrow> strcmp m p q = Some (str_cmp s t)"
proof (induction s t arbitrary: p q rule: str_cmp.induct [case_names both left right])
  case (both c s d t)
  then show ?case by (subst strcmp.simps) auto
next
  case (left t)
  then show ?case by (subst strcmp.simps) (cases t; auto)
next
  case (right s)
  then show ?case by (subst strcmp.simps) (cases s; auto)
qed

text \<open>\<open>strlen\<close> and \<open>strcpy\<close> of a terminated string return.\<close>

lemma strlen_spells:
  assumes "spells m p s"
  shows "strlen m p = Some (of_nat (length s))"
proof -
  have "strlen_loop m p (of_nat i) = Some (of_nat (length s))" if "i \<le> length s" for i
    using that
  proof (induction "length s - i" arbitrary: i)
    case 0
    with assms show ?case by (subst strlen_loop.simps) (simp add: spells_nth cget_def)
  next
    case (Suc n)
    then have "m (p + of_nat i) = s ! i" "s ! i \<noteq> 0" "i < length s"
      using assms by (auto simp: spells_nth cget_def no_nul_def in_set_conv_nth)
    with Suc(1) [of "Suc i"] Suc(2) show ?case
      by (subst strlen_loop.simps) (simp add: add.commute)
  qed
  from this [of 0] show ?thesis by (simp add: strlen_def)
qed

definition span :: "u64 \<Rightarrow> nat \<Rightarrow> u64 set" where
  "span p n = (\<lambda>i. p + of_nat i) ` {..<n}"

lemma span_Suc: "span p (Suc n) = insert p (span (p + 1) n)"
  by (auto simp: span_def lessThan_Suc_eq_insert_0 image_image ac_simps)

lemma spells_cong: "\<forall>a \<in> span p (Suc (length s)). m' a = m a \<Longrightarrow> spells m' p s = spells m p s"
  by (induction s arbitrary: p) (auto simp: span_Suc)

lemma strcpy_loop_spells:
  "spells m src s \<Longrightarrow> span dest (Suc (length s)) \<inter> span src (Suc (length s)) = {} \<Longrightarrow>
     length s < 2 ^ 64 \<Longrightarrow>
     \<exists>m'. strcpy_loop dest src m = Some m' \<and> spells m' dest s \<and>
       (\<forall>a. a \<notin> span dest (Suc (length s)) \<longrightarrow> m' a = m a)"
proof (induction s arbitrary: dest src m)
  case Nil
  then show ?case
    by (subst strcpy_loop.simps) (auto simp: Let_def span_Suc)
next
  case (Cons c s)
  define m1 where "m1 = m(dest := c)"
  have sub: "span (dest + 1) (Suc (length s)) \<inter> span (src + 1) (Suc (length s)) = {}"
    "dest \<notin> span (src + 1) (Suc (length s))"
    using Cons.prems(2) by (auto simp: span_Suc)
  have "spells m1 (src + 1) s"
    using Cons.prems(1) sub(2) by (subst spells_cong [where m = m]) (auto simp: m1_def)
  with Cons.IH [of m1 "src + 1" "dest + 1"] sub(1) Cons.prems(3) obtain m' where
    m': "strcpy_loop (dest + 1) (src + 1) m1 = Some m'" "spells m' (dest + 1) s"
    "\<And>a. a \<notin> span (dest + 1) (Suc (length s)) \<Longrightarrow> m' a = m1 a" by auto
  have "dest \<notin> span (dest + 1) (Suc (length s))"
  proof
    assume "dest \<in> span (dest + 1) (Suc (length s))"
    then obtain i where i: "i < Suc (length s)" "dest = dest + 1 + of_nat i" by (auto simp: span_def)
    from i(2) have "of_nat (Suc i) = (0 :: u64)" by simp
    moreover have "Suc i < 2 ^ 64" using i(1) Cons.prems(3) by simp
    ultimately show False by (simp only: word_of_nat_eq_0_iff) (auto dest: dvd_imp_le)
  qed
  with m' Cons.prems(1) show ?case
    by (subst strcpy_loop.simps) (auto simp: Let_def m1_def span_Suc)
qed

lemma memcpy_spec:
  assumes "\<And>i j. i < n \<Longrightarrow> j < n \<Longrightarrow> dest + i \<noteq> src + j"
  shows "memcpy dest src n m a = (if a - dest < n then m (src + (a - dest)) else m a)"
proof -
  have "\<forall>a. for_up 0 n (\<lambda>i m. m(dest + i := m (src + i))) m a =
      (if a - dest < n then m (src + (a - dest)) else m a)"
  proof (rule for_up_rule [where P = "\<lambda>k m'. k \<le> n \<and> (\<forall>a. m' a =
      (if a - dest < k then m (src + (a - dest)) else m a))", THEN conjunct2])
    fix i m'
    assume i: "i < n" and P: "i \<le> n \<and> (\<forall>a. m' a = (if a - dest < i then m (src + (a - dest)) else m a))"
    have "\<not> (src + i) - dest < i"
      using assms [of "src + i - dest" i] i by (auto simp: algebra_simps dest: less_trans)
    then have "m' (src + i) = m (src + i)" using P by simp
    moreover have "a - dest < i + 1 \<longleftrightarrow> a - dest < i \<or> a = dest + i" for a
      using less_inc_iff [OF i, of "a - dest"] by (auto simp: algebra_simps)
    ultimately show "i + 1 \<le> n \<and> (\<forall>a. (m'(dest + i := m' (src + i))) a =
        (if a - dest < i + 1 then m (src + (a - dest)) else m a))"
      using P less_inc_le [OF i] by auto
  qed auto
  then show ?thesis by (simp add: memcpy_def)
qed

lemma memset_spec: "memset s c n m a = (if a - s < n then ucast c else m a)"
proof -
  have "\<forall>a. for_up 0 n (\<lambda>i m. m(s + i := ucast c)) m a = (if a - s < n then ucast c else m a)"
  proof (rule for_up_rule [where P = "\<lambda>k m'. \<forall>a. m' a = (if a - s < k then ucast c else m a)"])
    fix i m'
    assume i: "i < n" and P: "\<forall>a. m' a = (if a - s < i then ucast c else m a)"
    have "a - s < i + 1 \<longleftrightarrow> a - s < i \<or> a = s + i" for a
      using less_inc_iff [OF i, of "a - s"] by (auto simp: algebra_simps)
    with P show "\<forall>a. (m'(s + i := ucast c)) a = (if a - s < i + 1 then ucast c else m a)" by auto
  qed auto
  then show ?thesis by (simp add: memset_def)
qed


subsection \<open>Names\<close>

text \<open>
  What the tables of named things (kernel symbols, devices) rely on: the comparison is zero
  exactly for equal strings.
\<close>

locale name_compare =
  fixes cmp :: "cstring \<Rightarrow> cstring \<Rightarrow> int"
  assumes cmp_zero: "no_nul s \<Longrightarrow> no_nul t \<Longrightarrow> cmp s t = 0 \<longleftrightarrow> s = t"
begin

lemma find_by_name:
  "\<forall>e \<in> set xs. no_nul (nm e) \<Longrightarrow> no_nul k \<Longrightarrow>
     List.find (\<lambda>e. cmp (nm e) k = 0) xs = List.find (\<lambda>e. nm e = k) xs"
  by (induction xs) (auto simp: cmp_zero)

lemma find_first:
  assumes "\<forall>e \<in> set xs. no_nul (nm e)" "no_nul k"
  shows "List.find (\<lambda>e. cmp (nm e) k = 0) xs = Some e \<longleftrightarrow>
    (\<exists>ys zs. xs = ys @ e # zs \<and> nm e = k \<and> k \<notin> nm ` set ys)"
proof -
  have "k \<notin> nm ` set ys \<longleftrightarrow> (\<forall>y \<in> set ys. nm y \<noteq> k)" for ys by auto
  then show ?thesis unfolding find_by_name [OF assms] find_split by simp
qed

lemma find_none:
  assumes "\<forall>e \<in> set xs. no_nul (nm e)" "no_nul k"
  shows "List.find (\<lambda>e. cmp (nm e) k = 0) xs = None \<longleftrightarrow> k \<notin> nm ` set xs"
  unfolding find_by_name [OF assms] by (auto simp: find_None_iff)

end

interpretation str: name_compare str_cmp
  by unfold_locales (rule str_cmp_eq)


subsection \<open>Properties\<close>

text \<open>
  C14. After \<open>strcpy\<close> of a terminated string to a place apart from it, the destination
  spells the same string: \<open>strlen\<close> and \<open>strcmp\<close> return, with its length and with 0, and no
  other byte has changed. Against any third string \<open>strcmp\<close> is zero exactly when it spells
  the same characters.
\<close>

theorem strcpy_strcmp:
  assumes "spells m src s" and "length s < 2 ^ 64"
    and "span dest (Suc (length s)) \<inter> span src (Suc (length s)) = {}"
  shows "\<exists>m'. strcpy dest src m = Some (dest, m') \<and> spells m' dest s \<and>
    strlen m' dest = Some (of_nat (length s)) \<and> strcmp m' dest src = Some 0 \<and>
    (\<forall>a. a \<notin> span dest (Suc (length s)) \<longrightarrow> m' a = m a) \<and>
    (\<forall>q t. spells m' q t \<longrightarrow> (strcmp m' dest q = Some 0 \<longleftrightarrow> s = t))"
proof -
  obtain m' where m': "strcpy_loop dest src m = Some m'" "spells m' dest s"
    "\<And>a. a \<notin> span dest (Suc (length s)) \<Longrightarrow> m' a = m a"
    using strcpy_loop_spells [OF assms(1,3,2)] by blast
  have "spells m' src s"
    using assms(1,3) m'(3) by (subst spells_cong [where m = m]) auto
  then have "strcmp m' dest src = Some 0"
    using strcmp_spells [OF m'(2)] str.cmp_zero [of s s] spells_no_nul by fastforce
  moreover have "strcmp m' dest q = Some 0 \<longleftrightarrow> s = t" if "spells m' q t" for q t
    using strcmp_spells [OF m'(2) that] str.cmp_zero [of s t] spells_no_nul [OF m'(2)]
      spells_no_nul [OF that] by simp
  ultimately show ?thesis using m' strlen_spells [OF m'(2)] by (auto simp: strcpy_def)
qed

theorem strcpy_strcmp_witness:
  "\<exists>m'. strcpy 0x200 0x100 (\<lambda>a. if a = 0x100 then 0x68 else if a = 0x101 then 0x69 else 0) =
     Some (0x200, m') \<and> spells m' 0x200 (str ''hi'') \<and> strlen m' 0x200 = Some 2"
proof -
  define m :: memory where "m = (\<lambda>a. if a = 0x100 then 0x68 else if a = 0x101 then 0x69 else 0)"
  have "spells m 0x100 (str ''hi'')" "span 0x200 3 \<inter> span 0x100 3 = {}" "str ''hi'' = [0x68, 0x69]"
    by (auto simp: m_def str_def span_def numeral_3_eq_3 lessThan_Suc)
  with strcpy_strcmp [of m "0x100" "str ''hi''" "0x200"] show ?thesis
    unfolding m_def [symmetric] by (auto simp: numeral_3_eq_3)
qed

end
