(* ===== verification/Cmdline.thy ===== *)
theory Cmdline
  imports CString
begin

text \<open>
  The boot command line, \<open>src/cmdline.c\<close>: the \<open>--debug\<close> flag and the list of modules
  to load. A C string is the list of its bytes; \<open>cget\<close> reads the terminating NUL.
\<close>


subsection \<open>State and operations\<close>

record cmdline =
  debug :: bool
  boot_modules :: "cstring list"
  boot_modules_count :: u64

definition MAX_BOOT_MODULES :: u64 where "MAX_BOOT_MODULES = 16"
definition MAX_BOOT_MODULE_PATH :: nat where "MAX_BOOT_MODULE_PATH = 128"

text \<open>The loop of \<open>check_flag\<close> that compares at \<open>p\<close>; \<open>match\<close> survives when it runs to the end.\<close>

function flag_here :: "cstring \<Rightarrow> cstring \<Rightarrow> nat \<Rightarrow> nat \<Rightarrow> bool" where
  "flag_here p flag flag_len i =
     (if i < flag_len then
        (if cget p i \<noteq> cget flag i then False else flag_here p flag flag_len (i + 1))
      else True)"
  by pat_completeness auto
termination by (relation "measure (\<lambda>(p, flag, n, i). n - i)") auto

declare flag_here.simps [simp del]

fun scan_flag :: "cstring \<Rightarrow> cstring \<Rightarrow> nat \<Rightarrow> bool" where
  "scan_flag [] flag flag_len = False"
| "scan_flag (c # p) flag flag_len =
     (if c = cget flag 0 \<and> flag_here (c # p) flag flag_len 0 \<and>
         (cget (c # p) flag_len = 0 \<or> cget (c # p) flag_len = SPACE)
      then True else scan_flag p flag flag_len)"

definition check_flag :: "cstring option \<Rightarrow> cstring option \<Rightarrow> bool" where
  "check_flag cmdline flag =
     (case (cmdline, flag) of
        (Some p, Some f) \<Rightarrow> scan_flag p f (length f)
      | _ \<Rightarrow> False)"

definition mod_prefix :: cstring where "mod_prefix = str ''--MOD=''"

definition is_module_argument :: "cstring \<Rightarrow> nat \<Rightarrow> bool" where
  "is_module_argument arg len =
     (if len \<le> length mod_prefix then False
      else flag_here arg mod_prefix (length mod_prefix) 0)"

text \<open>One argument of \<open>collect_boot_modules\<close>: \<open>arg\<close> points at it, it is \<open>len\<close> bytes long.\<close>

definition note_module :: "cstring \<Rightarrow> nat \<Rightarrow> 'a cmdline_scheme \<Rightarrow> 'a cmdline_scheme" where
  "note_module arg len s =
     (if is_module_argument arg len \<and> boot_modules_count s < MAX_BOOT_MODULES then
        let path = drop 6 arg; path_length = len - 6 in
        if path_length < MAX_BOOT_MODULE_PATH then
          s\<lparr>boot_modules := (boot_modules s)[unat (boot_modules_count s) := take path_length path],
            boot_modules_count := boot_modules_count s + 1\<rparr>
        else s
      else s)"

function collect_boot_modules :: "cstring \<Rightarrow> 'a cmdline_scheme \<Rightarrow> 'a cmdline_scheme" where
  "collect_boot_modules arg s =
     (let arg' = dropWhile (\<lambda>c. c = SPACE) arg in
      if arg' = [] then s
      else
        let len = length (takeWhile (\<lambda>c. c \<noteq> SPACE) arg')
        in collect_boot_modules (drop len arg') (note_module arg' len s))"
  by pat_completeness auto
termination
proof (relation "measure (\<lambda>(arg, s). length arg)")
  fix arg arg' :: cstring and len :: nat and s :: "'a cmdline_scheme"
  assume a: "arg' = dropWhile (\<lambda>c. c = SPACE) arg" "arg' \<noteq> []"
    and len: "len = length (takeWhile (\<lambda>c. c \<noteq> SPACE) arg')"
  from a(2) obtain c t where c: "arg' = c # t" by (cases arg') auto
  have c0: "c \<noteq> SPACE"
    using hd_dropWhile [of "\<lambda>c. c = SPACE" arg] c a unfolding a(1) [symmetric] by simp
  have "length arg' \<le> length arg" using a(1) by (simp add: length_dropWhile_le)
  moreover have "0 < len" using len c c0 by simp
  ultimately show "((drop len arg', note_module arg' len s), arg, s) \<in> measure (\<lambda>(arg, s). length arg)"
    using c by simp
qed simp

declare collect_boot_modules.simps [simp del]

text \<open>\<open>None\<close>: Limine gave no response, or no command line.\<close>

definition read_boot_cmdline :: "cstring option option \<Rightarrow> 'a cmdline_scheme \<Rightarrow> 'a cmdline_scheme" where
  "read_boot_cmdline response s =
     (case response of
        None \<Rightarrow> s
      | Some None \<Rightarrow> s
      | Some (Some c) \<Rightarrow>
          let s1 = (if check_flag (Some c) (Some (str ''--debug'')) then s\<lparr>debug := True\<rparr> else s)
          in collect_boot_modules c s1)"

definition boot_module_path :: "u64 \<Rightarrow> 'a cmdline_scheme \<Rightarrow> cstring option" where
  "boot_module_path index s =
     (if index \<ge> boot_modules_count s then None else Some (boot_modules s ! unat index))"


subsection \<open>The flag\<close>

lemma flag_here_iff: "i \<le> n \<Longrightarrow> flag_here p f n i \<longleftrightarrow> (\<forall>j. i \<le> j \<and> j < n \<longrightarrow> cget p j = cget f j)"
proof (induction "n - i" arbitrary: i)
  case 0
  then show ?case by (subst flag_here.simps) auto
next
  case (Suc k)
  then have "flag_here p f n (i + 1) \<longleftrightarrow> (\<forall>j. i + 1 \<le> j \<and> j < n \<longrightarrow> cget p j = cget f j)"
    by (intro Suc.hyps(1)) auto
  moreover have "i < n" using Suc.hyps(2) by simp
  moreover have "i \<le> j \<longleftrightarrow> j = i \<or> i + 1 \<le> j" for j by auto
  ultimately show ?case
    by (subst flag_here.simps) auto
qed

lemma flag_here_prefix:
  assumes "no_nul f"
  shows "flag_here p f (length f) 0 \<longleftrightarrow> (\<exists>r. p = f @ r)"
proof
  assume h: "flag_here p f (length f) 0"
  have eq: "cget p j = f ! j" if "j < length f" for j
    using h that by (simp add: flag_here_iff cget_def)
  have "length f \<le> length p"
  proof (rule ccontr)
    assume "\<not> length f \<le> length p"
    then have "cget p (length p) = f ! length p" "f ! length p \<in> set f" using eq by auto
    with assms show False by (auto simp: cget_def no_nul_def)
  qed
  then have "take (length f) p = f"
    using eq by (intro nth_equalityI) (auto simp: cget_def)
  then show "\<exists>r. p = f @ r" by (metis append_take_drop_id)
qed (auto simp: flag_here_iff cget_def nth_append)

lemma scan_flag_iff:
  assumes "no_nul f" "f \<noteq> []" "no_nul p"
  shows "scan_flag p f (length f) \<longleftrightarrow>
    (\<exists>pre post. p = pre @ f @ post \<and> (post = [] \<or> hd post = SPACE))"
  using assms(3)
proof (induction p)
  case Nil
  then show ?case using assms(2) by simp
next
  case (Cons c p)
  have here: "c = cget f 0 \<and> flag_here (c # p) f (length f) 0 \<and>
      (cget (c # p) (length f) = 0 \<or> cget (c # p) (length f) = SPACE) \<longleftrightarrow>
    (\<exists>post. c # p = f @ post \<and> (post = [] \<or> hd post = SPACE))"
  proof -
    have "cget (f @ r) (length f) = 0 \<longleftrightarrow> r = []" if "no_nul r" for r
      using that by (cases r) (auto simp: cget_def)
    moreover have "cget (f @ r) (length f) = SPACE \<longleftrightarrow> r \<noteq> [] \<and> hd r = SPACE" for r
      by (cases r) (auto simp: cget_def)
    moreover have "c # p = f @ r \<Longrightarrow> c = cget f 0 \<and> no_nul r" for r
      using assms(2) Cons.prems by (cases f) auto
    ultimately show ?thesis unfolding flag_here_prefix [OF assms(1)] by metis
  qed
  have "scan_flag (c # p) f (length f) \<longleftrightarrow>
      (\<exists>post. c # p = f @ post \<and> (post = [] \<or> hd post = SPACE)) \<or> scan_flag p f (length f)"
    unfolding scan_flag.simps here by auto
  moreover have "(\<exists>pre post. c # p = pre @ f @ post \<and> P post) \<longleftrightarrow>
      (\<exists>post. c # p = f @ post \<and> P post) \<or> (\<exists>pre post. p = pre @ f @ post \<and> P post)" for P
    by (auto simp: Cons_eq_append_conv)
  ultimately show ?case using Cons by simp
qed


subsection \<open>The modules\<close>

text \<open>The words of a line, by a definition that does not follow the scanner's loops.\<close>

fun split_on :: "u8 \<Rightarrow> cstring \<Rightarrow> cstring list" where
  "split_on d [] = [[]]"
| "split_on d (c # s) =
     (if c = d then [] # split_on d s
      else case split_on d s of [] \<Rightarrow> [[c]] | w # ws \<Rightarrow> (c # w) # ws)"

definition words :: "cstring \<Rightarrow> cstring list" where
  "words s = [w \<leftarrow> split_on SPACE s. w \<noteq> []]"

lemma split_on_nonempty: "split_on d s \<noteq> []"
  by (induction s) (auto split: list.split)

lemma split_on_prefix: "d \<notin> set w \<Longrightarrow> split_on d (w @ d # s) = w # split_on d s"
  by (induction w) auto

lemma split_on_word: "d \<notin> set w \<Longrightarrow> split_on d w = [w]"
  by (induction w) auto

lemma words_skip: "words (dropWhile (\<lambda>c. c = SPACE) s) = words s"
  by (induction s) (auto simp: words_def)

lemma words_step:
  assumes "s \<noteq> []" "hd s \<noteq> SPACE"
  defines "w \<equiv> takeWhile (\<lambda>c. c \<noteq> SPACE) s"
  shows "words s = w # words (drop (length w) s)"
proof -
  have w: "w \<noteq> []" "SPACE \<notin> set w"
    using assms by (cases s; auto dest: set_takeWhileD)+
  have d: "drop (length w) s = dropWhile (\<lambda>c. c \<noteq> SPACE) s"
    by (simp add: w_def dropWhile_eq_drop)
  have s: "s = w @ dropWhile (\<lambda>c. c \<noteq> SPACE) s" by (simp add: w_def)
  show ?thesis
  proof (cases "dropWhile (\<lambda>c. c \<noteq> SPACE) s")
    case Nil
    then have "s = w" "drop (length w) s = []" using s d by (simp_all only: append_Nil2)
    moreover have "words w = [w]" "words [] = []" using w by (simp_all add: words_def split_on_word)
    ultimately show ?thesis by (simp only:)
  next
    case (Cons c t)
    then have "c = SPACE" using hd_dropWhile [of "\<lambda>c. c \<noteq> SPACE" s] by simp
    with s Cons have "words s = words (w @ SPACE # t)" by simp
    with d Cons w \<open>c = SPACE\<close> show ?thesis by (simp add: words_def split_on_prefix)
  qed
qed

definition module_paths :: "cstring list \<Rightarrow> cstring list" where
  "module_paths ws = [drop 6 w. w \<leftarrow> ws, take 6 w = mod_prefix \<and> 6 < length w \<and> length w < 134]"

definition cmdline_inv :: "'a cmdline_scheme \<Rightarrow> bool" where
  "cmdline_inv s \<longleftrightarrow> length (boot_modules s) = 16 \<and> unat (boot_modules_count s) \<le> 16"

definition noted :: "'a cmdline_scheme \<Rightarrow> cstring list" where
  "noted s = take (unat (boot_modules_count s)) (boot_modules s)"

lemma mod_prefix_props: "length mod_prefix = 6" "no_nul mod_prefix"
  by (simp_all add: mod_prefix_def str_def)

lemma is_module_argument_iff:
  assumes "w = takeWhile (\<lambda>c. c \<noteq> SPACE) arg"
  shows "is_module_argument arg (length w) \<longleftrightarrow> 6 < length w \<and> take 6 w = mod_prefix"
proof -
  have "arg = w @ drop (length w) arg"
    by (simp add: assms flip: dropWhile_eq_drop)
  then have "take 6 arg = take 6 w" if "6 < length w"
    using that by (metis less_imp_le take_append diff_is_0_eq take_0 append_Nil2)
  moreover have "(\<exists>r. arg = mod_prefix @ r) \<longleftrightarrow> take 6 arg = mod_prefix"
    using mod_prefix_props(1) by (metis append_eq_conv_conj append_take_drop_id)
  ultimately show ?thesis
    using flag_here_prefix [OF mod_prefix_props(2), of arg]
    by (auto simp: is_module_argument_def mod_prefix_props(1))
qed

lemma note_module_noted:
  assumes "cmdline_inv s" "w = takeWhile (\<lambda>c. c \<noteq> SPACE) arg"
  shows "cmdline_inv (note_module arg (length w) s) \<and>
    noted (note_module arg (length w) s) = take 16 (noted s @ module_paths [w]) \<and>
    debug (note_module arg (length w) s) = debug s"
proof -
  have w: "w = take (length w) arg" unfolding assms(2) by (rule takeWhile_eq_take)
  have tk: "take (length w - 6) (drop 6 arg) = drop 6 w"
    using drop_take [of 6 "length w" arg] unfolding w [symmetric] by simp
  have len: "length (noted s) = unat (boot_modules_count s)"
    using assms(1) by (simp add: noted_def cmdline_inv_def)
  have lt: "boot_modules_count s < MAX_BOOT_MODULES \<longleftrightarrow> length (noted s) < 16"
    by (simp add: len MAX_BOOT_MODULES_def word_less_nat_alt)
  have inc: "unat (boot_modules_count s + 1) = Suc (unat (boot_modules_count s))"
    if "length (noted s) < 16"
    using that less_inc_le [of "boot_modules_count s" 16] by (simp add: len word_less_nat_alt)
  have le: "length (noted s) \<le> 16" using assms(1) by (simp add: noted_def cmdline_inv_def)
  show ?thesis
  proof (cases "is_module_argument arg (length w) \<and> length (noted s) < 16 \<and> length w < 134")
    case True
    then have "length w - 6 < 128"
      using is_module_argument_iff [OF assms(2)] by (simp add: less_diff_conv2)
    with True have "note_module arg (length w) s = s\<lparr>boot_modules :=
        (boot_modules s)[unat (boot_modules_count s) := drop 6 w],
        boot_modules_count := boot_modules_count s + 1\<rparr>"
      using lt by (simp add: note_module_def Let_def tk MAX_BOOT_MODULE_PATH_def
          is_module_argument_iff [OF assms(2)])
    moreover have "module_paths [w] = [drop 6 w]"
      using True by (simp add: module_paths_def is_module_argument_iff [OF assms(2)])
    ultimately show ?thesis
      using True assms(1) inc len
      by (simp add: cmdline_inv_def noted_def take_Suc_conv_app_nth take_Cons')
  next
    case False
    then have "note_module arg (length w) s = s"
      using lt by (auto simp: note_module_def Let_def MAX_BOOT_MODULE_PATH_def
          is_module_argument_iff [OF assms(2)])
    moreover have "take 16 (noted s @ module_paths [w]) = noted s"
      using False le by (auto simp: module_paths_def is_module_argument_iff [OF assms(2)])
    ultimately show ?thesis using assms(1) by simp
  qed
qed

lemma take_take_append: "take n (take n xs @ ys) = take n (xs @ ys)"
  by (cases "n \<le> length xs") auto

lemma collect_boot_modules_noted:
  "cmdline_inv s \<Longrightarrow> cmdline_inv (collect_boot_modules arg s) \<and>
     noted (collect_boot_modules arg s) = take 16 (noted s @ module_paths (words arg)) \<and>
     debug (collect_boot_modules arg s) = debug s"
proof (induction arg s rule: collect_boot_modules.induct)
  case (1 arg s)
  define a where "a = dropWhile (\<lambda>c. c = SPACE) arg"
  have len: "length (noted s) \<le> 16" using 1(2) by (simp add: noted_def cmdline_inv_def)
  show ?case
  proof (cases "a = []")
    case True
    then have "words arg = words []" using words_skip [of arg] by (simp only: a_def)
    then have "words arg = []" by (simp add: words_def)
    with True 1(2) len show ?thesis
      by (subst (1 2 3) collect_boot_modules.simps) (simp add: Let_def a_def module_paths_def)
  next
    case False
    define w where "w = takeWhile (\<lambda>c. c \<noteq> SPACE) a"
    have "hd a \<noteq> SPACE" using False hd_dropWhile [of "\<lambda>c. c = SPACE" arg] by (simp add: a_def)
    then have ws: "words arg = w # words (drop (length w) a)"
      using words_step [OF False] words_skip [of arg] by (simp add: w_def a_def)
    have step: "collect_boot_modules arg s = collect_boot_modules (drop (length w) a) (note_module a (length w) s)"
      by (subst collect_boot_modules.simps)
        (simp only: Let_def a_def [symmetric] w_def [symmetric] False if_False)
    have n: "cmdline_inv (note_module a (length w) s)"
      "noted (note_module a (length w) s) = take 16 (noted s @ module_paths [w])"
      "debug (note_module a (length w) s) = debug s"
      using note_module_noted [OF 1(2) w_def] by auto
    have "module_paths (w # words (drop (length w) a)) =
        module_paths [w] @ module_paths (words (drop (length w) a))"
      by (simp add: module_paths_def)
    note m = this
    have "length w = length (takeWhile (\<lambda>c. c \<noteq> SPACE) a)" by (simp only: w_def)
    note IH = 1(1) [OF a_def False this n(1)]
    show ?thesis unfolding step ws m using IH
      by (simp only: n(2,3) take_take_append append_assoc simp_thms)
  qed
qed


subsection \<open>Properties\<close>

text \<open>
  C15. After the boot command line is read, debugging is on exactly when \<open>--debug\<close> occurs in
  it followed by a space or the end, and \<open>boot_module_path\<close> answers, in order, the paths of
  its \<open>--MOD=\<close> words: at most 16, each shorter than 128 bytes, empty ones left out.
\<close>

theorem read_boot_cmdline_result:
  assumes "cmdline_inv s" and "boot_modules_count s = 0" and "no_nul c"
  defines "s' \<equiv> read_boot_cmdline (Some (Some c)) s" and "ms \<equiv> take 16 (module_paths (words c))"
  shows "(debug s' \<longleftrightarrow> debug s \<or>
      (\<exists>pre post. c = pre @ str ''--debug'' @ post \<and> (post = [] \<or> hd post = SPACE))) \<and>
    (\<forall>i. boot_module_path i s' = (if unat i < length ms then Some (ms ! unat i) else None))"
proof -
  define f where "f = str ''--debug''"
  have f: "no_nul f" "f \<noteq> []" by (simp_all add: f_def str_def)
  define s1 where "s1 = (if check_flag (Some c) (Some f) then s\<lparr>debug := True\<rparr> else s)"
  have s': "s' = collect_boot_modules c s1"
    by (simp add: s'_def read_boot_cmdline_def s1_def f_def Let_def)
  have "cmdline_inv s1" "noted s1 = []"
    using assms(1,2) by (simp_all add: s1_def cmdline_inv_def noted_def)
  note r = collect_boot_modules_noted [OF this(1), of c, folded s', unfolded this(2), simplified]
  have ms: "noted s' = ms" using r by (simp add: ms_def)
  moreover have "cmdline_inv s'" using r by blast
  then have "length (noted s') = unat (boot_modules_count s')" by (simp add: noted_def cmdline_inv_def)
  ultimately have "boot_module_path i s' = (if unat i < length ms then Some (ms ! unat i) else None)" for i
    by (auto simp: boot_module_path_def word_le_nat_alt noted_def)
  moreover have "debug s' \<longleftrightarrow> debug s \<or> scan_flag c f (length f)"
    using r by (simp add: s1_def check_flag_def)
  ultimately show ?thesis
    using scan_flag_iff [OF f assms(3)] unfolding f_def by auto
qed

definition cmdline_zero :: cmdline where
  "cmdline_zero = \<lparr>debug = False, boot_modules = replicate 16 [], boot_modules_count = 0\<rparr>"

theorem read_boot_cmdline_result_witness:
  "\<exists>s :: cmdline. read_boot_cmdline (Some (Some (str ''root --MOD=/m --debug --MOD=''))) cmdline_zero = s \<and>
     debug s \<and> boot_module_path 0 s = Some (str ''/m'') \<and> boot_module_path 1 s = None"
proof -
  have "cmdline_inv cmdline_zero" "boot_modules_count cmdline_zero = 0"
    by (simp_all add: cmdline_inv_def cmdline_zero_def)
  moreover have "no_nul (str ''root --MOD=/m --debug --MOD='')" by (simp add: str_def)
  moreover have "module_paths (words (str ''root --MOD=/m --debug --MOD='')) = [str ''/m'']"
    by code_simp
  moreover have "str ''root --MOD=/m --debug --MOD='' = str ''root --MOD=/m '' @ str ''--debug'' @ str '' --MOD=''"
    "hd (str '' --MOD='') = SPACE" by (simp_all add: str_def)
  ultimately show ?thesis
    using read_boot_cmdline_result [of cmdline_zero "str ''root --MOD=/m --debug --MOD=''"] by auto
qed

text \<open>The flag is also found at the end of a longer word.\<close>

lemma check_flag_suffix: "check_flag (Some (str ''no--debug'')) (Some (str ''--debug''))"
  by code_simp

end
