(* ===== verification/Pmm.thy ===== *)
theory Pmm
  imports Interfaces
begin

text \<open>
  The physical memory manager, \<open>src/mm/pmm.c\<close>: a bitmap with one bit per 4 KiB page (set =
  in use), built by \<open>init_pmm\<close> from the boot loader's memory map and searched first-fit by
  \<open>pmm_alloc\<close>. The file's static variables are the fields of the record \<open>pmm\<close>;
  \<open>bitmap\<close> is the memory behind the \<open>uint8_t *bitmap\<close> pointer, as a function of the
  index, so an index past the bitmap reads whatever byte lies there, as in C.

  The record is extended by the later memory components in the order the kernel starts
  them; every operation here is polymorphic in the extension.
\<close>


subsection \<open>State and bit operations\<close>

record pmm =
  hhdm_offset :: u64
  bitmap :: "u64 \<Rightarrow> u8"
  bitmap_phys :: u64
  page_count :: u64
  bitmap_bytes :: u64
  bitmap_pages :: u64
  kernel_start :: u64
  kernel_end :: u64

definition align_down_4k :: "u64 \<Rightarrow> u64" where
  "align_down_4k x = page_base x"

definition align_up_4k :: "u64 \<Rightarrow> u64" where
  "align_up_4k x = page_base (x + 0xFFF)"

definition bitmap_set :: "(u64 \<Rightarrow> u8) \<Rightarrow> u64 \<Rightarrow> (u64 \<Rightarrow> u8)" where
  "bitmap_set bm page =
     bm(drop_bit 3 page := bm (drop_bit 3 page) OR push_bit (unat (page AND 7)) 1)"

definition bitmap_clear :: "(u64 \<Rightarrow> u8) \<Rightarrow> u64 \<Rightarrow> (u64 \<Rightarrow> u8)" where
  "bitmap_clear bm page =
     bm(drop_bit 3 page := bm (drop_bit 3 page) AND NOT (push_bit (unat (page AND 7)) 1))"

definition bitmap_test :: "(u64 \<Rightarrow> u8) \<Rightarrow> u64 \<Rightarrow> bool" where
  "bitmap_test bm page \<longleftrightarrow> bm (drop_bit 3 page) AND push_bit (unat (page AND 7)) 1 \<noteq> 0"


subsection \<open>Allocation\<close>

text \<open>The \<open>for\<close> loop of \<open>pmm_alloc\<close> from index \<open>i\<close> on: the first clear bit below \<open>n\<close>.\<close>

function pmm_scan :: "(u64 \<Rightarrow> u8) \<Rightarrow> u64 \<Rightarrow> u64 \<Rightarrow> u64 option" where
  "pmm_scan bm i n =
     (if i < n then if \<not> bitmap_test bm i then Some i else pmm_scan bm (i + 1) n else None)"
  by pat_completeness auto
termination
proof (relation "measure (\<lambda>(bm, i, n). unat n - unat i)")
  fix bm :: "u64 \<Rightarrow> u8" and i n :: u64
  assume "i < n"
  then show "((bm, i + 1, n), bm, i, n) \<in> measure (\<lambda>(bm, i, n). unat n - unat i)"
    by simp unat_arith
qed simp

declare pmm_scan.simps [simp del]

definition pmm_alloc :: "'a pmm_scheme \<Rightarrow> u64 \<times> 'a pmm_scheme" where
  "pmm_alloc s =
     (case pmm_scan (bitmap s) 1 (page_count s) of
        None \<Rightarrow> (0, s)
      | Some i \<Rightarrow> (i * 4096, s\<lparr>bitmap := bitmap_set (bitmap s) i\<rparr>))"


subsection \<open>Initialisation from the memory map\<close>

text \<open>
  The entries of the boot loader's map. The \<open>LIMINE_MEMMAP\<close> constants are declared in the
  boot protocol's header, which is not part of the tree: \<open>init_pmm\<close> only compares the
  type of an entry with three of them, which are the three named constructors.
\<close>

datatype memmap_type = USABLE | ACPI_RECLAIMABLE | BOOTLOADER_RECLAIMABLE | OTHER_TYPE u64

record memmap_entry =
  base :: u64
  len :: u64
  mtype :: memmap_type

definition region_overlaps_kernel :: "'a pmm_scheme \<Rightarrow> u64 \<Rightarrow> u64 \<Rightarrow> bool" where
  "region_overlaps_kernel s start fin \<longleftrightarrow> \<not> (fin \<le> kernel_start s \<or> start \<ge> kernel_end s)"

definition entry_start :: "memmap_entry \<Rightarrow> u64" where
  "entry_start e = align_up_4k (base e)"

definition entry_end :: "memmap_entry \<Rightarrow> u64" where
  "entry_end e = align_down_4k (base e + len e)"

fun highest_end :: "memmap_entry list \<Rightarrow> u64 \<Rightarrow> u64" where
  "highest_end [] highest = highest"
| "highest_end (e # es) highest =
     (let fin = base e + len e in highest_end es (if fin > highest then fin else highest))"

text \<open>The search for a region that can hold the bitmap.\<close>

fun choose_region :: "'a pmm_scheme \<Rightarrow> memmap_entry list \<Rightarrow> u64 option" where
  "choose_region s [] = None"
| "choose_region s (e # es) =
     (if mtype e \<noteq> USABLE then choose_region s es
      else let start = entry_start e; fin = entry_end e in
        if fin \<le> start then choose_region s es
        else if region_overlaps_kernel s start fin then choose_region s es
        else if fin - start \<ge> bitmap_pages s * 4096 then Some start
        else choose_region s es)"

text \<open>\<open>for (addr = start; addr < end; addr += 4096) bitmap_clear(addr / 4096);\<close>\<close>

partial_function (option) clear_range ::
  "u64 \<Rightarrow> u64 \<Rightarrow> (u64 \<Rightarrow> u8) \<Rightarrow> (u64 \<Rightarrow> u8) option" where
  "clear_range addr fin bm =
     (if addr < fin then clear_range (addr + 4096) fin (bitmap_clear bm (addr div 4096))
      else Some bm)"

declare clear_range.simps [code]

text \<open>
  One pass over the map that clears the pages of every region whose type is accepted: the
  first such loop accepts usable memory, the last one also the two reclaimable kinds.
\<close>

fun clear_regions ::
  "(memmap_type \<Rightarrow> bool) \<Rightarrow> 'a pmm_scheme \<Rightarrow> memmap_entry list \<Rightarrow> (u64 \<Rightarrow> u8) \<Rightarrow>
   (u64 \<Rightarrow> u8) option" where
  "clear_regions accept s [] bm = Some bm"
| "clear_regions accept s (e # es) bm =
     (if \<not> accept (mtype e) then clear_regions accept s es bm
      else let start = entry_start e; fin = entry_end e in
        if fin \<le> start then clear_regions accept s es bm
        else if region_overlaps_kernel s start fin then clear_regions accept s es bm
        else do {
          bm' \<leftarrow> clear_range start fin bm;
          clear_regions accept s es bm' })"

definition reclaimable :: "memmap_type \<Rightarrow> bool" where
  "reclaimable t \<longleftrightarrow> t = USABLE \<or> t = ACPI_RECLAIMABLE \<or> t = BOOTLOADER_RECLAIMABLE"

text \<open>
  \<open>init_pmm\<close>: the two boot responses (\<open>None\<close> for a NULL response, where the kernel
  halts), the linker's \<open>_kernel_start\<close> and \<open>_kernel_end\<close> addresses, and the state.
\<close>

definition init_pmm ::
  "memmap_entry list option \<Rightarrow> u64 option \<Rightarrow> u64 \<Rightarrow> u64 \<Rightarrow> 'a pmm_scheme \<Rightarrow>
   'a pmm_scheme option" where
  "init_pmm memmap hhdm kstart kend s0 = do {
     map \<leftarrow> memmap;
     offset \<leftarrow> hhdm;
     let s1 = s0\<lparr>hhdm_offset := offset, kernel_start := kstart, kernel_end := kend\<rparr>;
     let pages = align_up_4k (highest_end map 0) div 4096;
     let bytes = (pages + 7) div 8;
     let s2 = s1\<lparr>page_count := pages, bitmap_bytes := bytes,
                 bitmap_pages := align_up_4k bytes div 4096\<rparr>;
     chosen \<leftarrow> choose_region s2 map;
     let s3 = s2\<lparr>bitmap_phys := chosen\<rparr>;
     let bm1 = for_up 0 bytes (\<lambda>i bm. bm(i := 0xFF)) (bitmap s3);
     bm2 \<leftarrow> clear_regions (\<lambda>t. t = USABLE) s3 map bm1;
     let bm3 = for_up 0 (bitmap_pages s3) (\<lambda>i bm. bitmap_set bm (chosen div 4096 + i)) bm2;
     let bm4 = bitmap_set bm3 0;
     bm5 \<leftarrow> clear_regions reclaimable s3 map bm4;
     Some (s3\<lparr>bitmap := bm5\<rparr>) }"


subsection \<open>The bitmap as a set of pages\<close>

lemma unat_and_7: "unat (p AND 7 :: u64) = unat p mod 8"
proof -
  have "p AND 7 = take_bit 3 p"
    by (simp add: take_bit_eq_mask mask_eq_exp_minus_1)
  then show ?thesis by (simp add: take_bit_eq_mod unat_mod)
qed

lemma bitmap_test_bit: "bitmap_test bm p \<longleftrightarrow> bit (bm (drop_bit 3 p)) (unat p mod 8)"
  by (simp add: bitmap_test_def unat_and_7 bit_iff_and_push_bit_not_eq_0)

lemma page_index_inj:
  assumes "drop_bit 3 p = drop_bit 3 q" "unat p mod 8 = unat q mod 8"
  shows "p = (q :: u64)"
proof -
  have "unat p div 8 = unat q div 8"
    using arg_cong [OF assms(1), of unat] by (simp add: drop_bit_eq_div unat_div)
  with assms(2) have "unat p = unat q"
    by (metis div_mult_mod_eq)
  then show ?thesis by (simp add: word_unat_eq_iff)
qed

lemma bitmap_test_set [simp]: "bitmap_test (bitmap_set bm p) q \<longleftrightarrow> q = p \<or> bitmap_test bm q"
  by (auto simp: bitmap_test_bit bitmap_set_def unat_and_7 bit_simps dest: page_index_inj)

lemma bitmap_test_clear [simp]:
  "bitmap_test (bitmap_clear bm p) q \<longleftrightarrow> q \<noteq> p \<and> bitmap_test bm q"
  by (auto simp: bitmap_test_bit bitmap_clear_def unat_and_7 bit_simps dest: page_index_inj)

text \<open>The frames \<open>pmm_alloc\<close> may hand out; page 0 never is one.\<close>

definition page_free :: "'a pmm_scheme \<Rightarrow> u64 \<Rightarrow> bool" where
  "page_free s i \<longleftrightarrow> 0 < i \<and> i < page_count s \<and> \<not> bitmap_test (bitmap s) i"

definition free_frames :: "'a pmm_scheme \<Rightarrow> u64 set" where
  "free_frames s = (\<lambda>i. i * 4096) ` {i. page_free s i}"

text \<open>A frame number times 4096 must be an address.\<close>

definition pmm_wf :: "'a pmm_scheme \<Rightarrow> bool" where
  "pmm_wf s \<longleftrightarrow> unat (page_count s) \<le> 2 ^ 52"

lemma page_free_bound: "pmm_wf s \<Longrightarrow> page_free s i \<Longrightarrow> unat i < 2 ^ 52"
  by (auto simp: pmm_wf_def page_free_def word_less_nat_alt)

lemma pmm_scan_None:
  "pmm_scan bm i n = None \<longleftrightarrow> (\<forall>j. i \<le> j \<longrightarrow> j < n \<longrightarrow> bitmap_test bm j)"
proof (induction bm i n rule: pmm_scan.induct)
  case (1 bm i n)
  show ?case
  proof (cases "i < n")
    case True
    with 1 show ?thesis
      by (subst pmm_scan.simps) (auto simp: le_split_inc [of i n])
  next
    case False
    then show ?thesis
      by (subst pmm_scan.simps) (auto dest: order.strict_trans1)
  qed
qed

lemma pmm_scan_Some:
  "pmm_scan bm i n = Some k \<Longrightarrow>
    i \<le> k \<and> k < n \<and> \<not> bitmap_test bm k \<and> (\<forall>j. i \<le> j \<longrightarrow> j < k \<longrightarrow> bitmap_test bm j)"
proof (induction bm i n rule: pmm_scan.induct)
  case (1 bm i n)
  from 1(2) have lt: "i < n" by (subst (asm) pmm_scan.simps) (auto split: if_splits)
  show ?case
  proof (cases "bitmap_test bm i")
    case True
    with 1(2) lt have "pmm_scan bm (i + 1) n = Some k" by (subst (asm) pmm_scan.simps) simp
    with 1(1) lt True show ?thesis by (auto simp: le_split_inc [of i n])
  next
    case False
    with 1(2) lt show ?thesis by (subst (asm) pmm_scan.simps) auto
  qed
qed

text \<open>The two outcomes of an allocation.\<close>

lemma pmm_alloc_cases:
  obtains (page) i where "page_free s i" "\<And>j. page_free s j \<Longrightarrow> i \<le> j"
      "pmm_alloc s = (i * 4096, s\<lparr>bitmap := bitmap_set (bitmap s) i\<rparr>)"
    | (full) "\<And>i. \<not> page_free s i" "pmm_alloc s = (0, s)"
proof (cases "pmm_scan (bitmap s) 1 (page_count s)")
  case None
  then show ?thesis
    by (intro full) (auto simp: pmm_alloc_def, auto simp: pmm_scan_None page_free_def one_le_iff)
next
  case (Some i)
  note k = pmm_scan_Some [OF this]
  show ?thesis
  proof (rule page [of i])
    show "page_free s i" using k by (auto simp: page_free_def one_le_iff)
    show "i \<le> j" if "page_free s j" for j
      using k that by (auto simp: page_free_def one_le_iff simp flip: not_less)
    show "pmm_alloc s = (i * 4096, s\<lparr>bitmap := bitmap_set (bitmap s) i\<rparr>)"
      using Some by (simp add: pmm_alloc_def)
  qed
qed

lemma page_free_alloc:
  "page_free (s\<lparr>bitmap := bitmap_set (bitmap s) i\<rparr>) j \<longleftrightarrow> page_free s j \<and> j \<noteq> i"
  by (auto simp: page_free_def)

lemma page_addr_inj:
  "pmm_wf s \<Longrightarrow> page_free s i \<Longrightarrow> page_free s j \<Longrightarrow> i * 4096 = j * 4096 \<Longrightarrow> i = j"
  by (metis page_free_bound frame_addr_inj)

lemma free_frames_alloc:
  assumes "pmm_wf s" "page_free s i"
  shows "free_frames (s\<lparr>bitmap := bitmap_set (bitmap s) i\<rparr>) = free_frames s - {i * 4096}"
  using assms by (auto simp: free_frames_def page_free_alloc dest: page_addr_inj)

lemma free_frame_addr:
  assumes "pmm_wf s" "p \<in> free_frames s"
  shows "p \<noteq> 0 \<and> page_aligned p"
proof -
  from assms(2) obtain i where i: "page_free s i" "p = i * 4096" by (auto simp: free_frames_def)
  with page_free_bound [OF assms(1) i(1)] have "unat p = unat i * 4096" "0 < unat i"
    by (auto simp: unat_frame_addr page_free_def word_less_nat_alt)
  with i page_aligned_frame_addr [OF page_free_bound [OF assms(1) i(1)]] show ?thesis
    by auto
qed

interpretation pmm: frame_allocator pmm_alloc free_frames pmm_wf
proof unfold_locales
  fix s :: "'a pmm_scheme" and p s'
  show "finite (free_frames s)" by (simp add: free_frames_def)
  show "pmm_wf s \<Longrightarrow> p \<in> free_frames s \<Longrightarrow> p \<noteq> 0 \<and> page_aligned p" for p
    by (rule free_frame_addr)
  show "free_frames s = {} \<Longrightarrow> pmm_alloc s = (0, s)"
    by (cases s rule: pmm_alloc_cases) (auto simp: free_frames_def)
  assume wf: "pmm_wf s" and ne: "free_frames s \<noteq> {}" and a: "pmm_alloc s = (p, s')"
  show "p \<in> free_frames s \<and> free_frames s' = free_frames s - {p} \<and> pmm_wf s'"
  proof (cases s rule: pmm_alloc_cases)
    case (page i)
    with wf a free_frames_alloc [OF wf page(1)] show ?thesis
      by (auto simp: free_frames_def pmm_wf_def)
  next
    case full
    with ne show ?thesis by (auto simp: free_frames_def)
  qed
qed

text \<open>
  C1. \<open>pmm_alloc\<close> is first-fit: when some page is free it returns the address of the
  lowest one, marks exactly that page as used and changes nothing else; when none is free
  it returns NULL and changes nothing.
\<close>

theorem pmm_alloc_first_fit:
  assumes "pmm_alloc s = (p, s')"
  shows "((\<forall>i. \<not> page_free s i) \<and> p = 0 \<and> s' = s) \<or>
    (\<exists>i. page_free s i \<and> (\<forall>j. page_free s j \<longrightarrow> i \<le> j) \<and> p = i * 4096 \<and>
       (\<forall>j. page_free s' j \<longleftrightarrow> page_free s j \<and> j \<noteq> i) \<and>
       (\<forall>j. bitmap_test (bitmap s') j \<longleftrightarrow> j = i \<or> bitmap_test (bitmap s) j) \<and>
       s' = s\<lparr>bitmap := bitmap s'\<rparr>)"
  using assms by (cases s rule: pmm_alloc_cases) (auto simp: page_free_alloc)


subsection \<open>What initialisation leaves free\<close>

lemma page_aligned_entry: "page_aligned (entry_start e)" "page_aligned (entry_end e)"
  by (simp_all add: entry_start_def entry_end_def align_up_4k_def align_down_4k_def
      page_aligned_base)

lemma page_number_eq:
  assumes "page_aligned a"
  shows "p = a div 4096 \<longleftrightarrow> unat p * 4096 = unat (a :: u64)"
  using assms by (auto simp: page_aligned_def word_unat_eq_iff unat_div)

text \<open>The clearing loop returns for aligned bounds and clears exactly the pages between them.\<close>

lemma clear_range_spec:
  assumes "page_aligned addr" "page_aligned fin"
  shows "\<exists>bm'. clear_range addr fin bm = Some bm' \<and>
    (\<forall>p. bitmap_test bm' p \<longleftrightarrow>
      bitmap_test bm p \<and> \<not> (unat addr \<le> unat p * 4096 \<and> unat p * 4096 < unat fin))"
  using assms
proof (induction "unat fin - unat addr" arbitrary: addr bm rule: less_induct)
  case less
  show ?case
  proof (cases "addr < fin")
    case False
    then show ?thesis
      by (subst clear_range.simps) (auto simp: word_less_nat_alt)
  next
    case True
    have gap: "unat addr + 4096 \<le> unat fin"
      using page_gap [of "unat addr" "unat fin"] True less.prems by (simp add: page_aligned_def word_less_nat_alt)
    then have nxt: "unat (addr + 4096) = unat addr + 4096"
      using unat_u64 [of fin] by (simp add: unat_word_ariths)
    then have al: "page_aligned (addr + 4096)"
      using less.prems(1) by (simp add: page_aligned_def)
    have "unat fin - unat (addr + 4096) < unat fin - unat addr" using nxt gap by simp
    from less.hyps [OF this al less.prems(2), of "bitmap_clear bm (addr div 4096)"]
    obtain bm' where r: "clear_range (addr + 4096) fin (bitmap_clear bm (addr div 4096)) = Some bm'"
      and t: "\<And>p. bitmap_test bm' p \<longleftrightarrow> unat p * 4096 \<noteq> unat addr \<and> bitmap_test bm p \<and>
        \<not> (unat addr + 4096 \<le> unat p * 4096 \<and> unat p * 4096 < unat fin)"
      using page_number_eq [OF less.prems(1)] nxt by auto
    have "clear_range addr fin bm = Some bm'"
      using True r by (subst clear_range.simps) simp
    moreover have eq: "unat p * 4096 \<noteq> unat addr \<and>
        \<not> (unat addr + 4096 \<le> unat p * 4096 \<and> unat p * 4096 < unat fin) \<longleftrightarrow>
        \<not> (unat addr \<le> unat p * 4096 \<and> unat p * 4096 < unat fin)" for p :: u64
      using less.prems(1) gap unfolding page_aligned_def by (rule page_interval_step)
    moreover have "bitmap_test bm' p \<longleftrightarrow> bitmap_test bm p \<and>
        \<not> (unat addr \<le> unat p * 4096 \<and> unat p * 4096 < unat fin)" for p
      using t [of p] eq [of p] by argo
    ultimately show ?thesis by blast
  qed
qed

text \<open>The pages a pass over the map accepts.\<close>

definition covered ::
  "(memmap_type \<Rightarrow> bool) \<Rightarrow> 'a pmm_scheme \<Rightarrow> memmap_entry list \<Rightarrow> u64 \<Rightarrow> bool" where
  "covered accept s mm p \<longleftrightarrow>
     (\<exists>e \<in> set mm. accept (mtype e) \<and> \<not> region_overlaps_kernel s (entry_start e) (entry_end e) \<and>
        unat (entry_start e) \<le> unat p * 4096 \<and> unat p * 4096 < unat (entry_end e))"

lemma clear_regions_spec:
  "\<exists>bm'. clear_regions accept s mm bm = Some bm' \<and>
    (\<forall>p. bitmap_test bm' p \<longleftrightarrow> bitmap_test bm p \<and> \<not> covered accept s mm p)"
proof (induction mm arbitrary: bm)
  case Nil
  then show ?case by (simp add: covered_def)
next
  case (Cons e es)
  show ?case
  proof (cases "accept (mtype e) \<and> entry_start e < entry_end e \<and>
      \<not> region_overlaps_kernel s (entry_start e) (entry_end e)")
    case False
    then have "clear_regions accept s (e # es) bm = clear_regions accept s es bm"
      by (auto simp: Let_def)
    moreover have "covered accept s (e # es) p = covered accept s es p" for p
      using False by (auto simp: covered_def word_less_nat_alt)
    ultimately show ?thesis using Cons.IH by simp
  next
    case True
    obtain bm1 where bm1: "clear_range (entry_start e) (entry_end e) bm = Some bm1"
      and t1: "\<And>p. bitmap_test bm1 p \<longleftrightarrow> bitmap_test bm p \<and>
        \<not> (unat (entry_start e) \<le> unat p * 4096 \<and> unat p * 4096 < unat (entry_end e))"
      using clear_range_spec [OF page_aligned_entry] by metis
    obtain bm2 where bm2: "clear_regions accept s es bm1 = Some bm2"
      and t2: "\<And>p. bitmap_test bm2 p \<longleftrightarrow> bitmap_test bm1 p \<and> \<not> covered accept s es p"
      using Cons.IH [of bm1] by metis
    have "clear_regions accept s (e # es) bm = Some bm2"
      using True bm1 bm2 by (auto simp: Let_def)
    with True t1 t2 show ?thesis by (auto simp: covered_def)
  qed
qed

lemma fill_ones:
  "for_up 0 n (\<lambda>i bm. bm(i := 0xFF)) bm j = (if j < n then 0xFF else bm j)"
proof -
  have "\<forall>j. for_up 0 n (\<lambda>i bm. bm(i := 0xFF)) bm j = (if j < n then 0xFF else bm j)"
    by (rule for_up_rule [where P = "\<lambda>i b. \<forall>j. b j = (if j < i then 0xFF else bm j)"])
      (auto simp: less_inc_iff)
  then show ?thesis by blast
qed

lemma mark_pages_mono:
  assumes "bitmap_test bm p"
  shows "bitmap_test (for_up 0 n (\<lambda>i bm. bitmap_set bm (c + i)) bm) p"
  by (rule for_up_rule [where P = "\<lambda>i b. bitmap_test b p"]) (simp_all add: assms)

lemma highest_end_ge:
  "h \<le> highest_end mm h \<and> (\<forall>e \<in> set mm. base e + len e \<le> highest_end mm h)"
proof (induction mm arbitrary: h)
  case Nil
  then show ?case by simp
next
  case (Cons e es)
  show ?case
    using Cons.IH [of "if base e + len e > h then base e + len e else h"]
    by (auto simp: Let_def split: if_splits)
qed

lemma choose_region_usable:
  "choose_region s mm = Some c \<Longrightarrow> \<exists>e \<in> set mm. mtype e = USABLE \<and> c = entry_start e \<and>
    entry_start e < entry_end e \<and> \<not> region_overlaps_kernel s (entry_start e) (entry_end e) \<and>
    bitmap_pages s * 4096 \<le> entry_end e - entry_start e"
  by (induction mm) (auto simp: Let_def not_le split: if_splits)

lemma covered_frame [frame_simps]:
  "covered accept (s\<lparr>bitmap := b\<rparr>) mm p = covered accept s mm p"
  "covered accept (s\<lparr>bitmap_phys := c\<rparr>) mm p = covered accept s mm p"
  by (simp_all add: covered_def region_overlaps_kernel_def)

lemma choose_region_frame [frame_simps]:
  "choose_region (s\<lparr>bitmap := b\<rparr>) mm = choose_region s mm"
  "choose_region (s\<lparr>bitmap_phys := c\<rparr>) mm = choose_region s mm"
  by (induction mm) (simp_all add: region_overlaps_kernel_def Let_def)

text \<open>A page number below the page count lies inside the filled part of the bitmap.\<close>

lemma page_byte_in_bitmap:
  assumes "p < n" "unat n < 2 ^ 60"
  shows "drop_bit 3 p < (n + 7) div (8 :: u64)"
proof -
  have "unat ((n + 7) div 8) = (unat n + 7) div 8"
    using assms(2) by (simp add: unat_div unat_word_ariths)
  with assms(1) show ?thesis
    by (simp add: word_less_nat_alt drop_bit_eq_div unat_div)
qed

lemma ones_set: "bit (0xFF :: u8) (n mod 8)"
proof -
  have m: "(0xFF :: u8) = mask 8" by (simp add: mask_eq_exp_minus_1)
  show ?thesis unfolding m by (simp only: bit_mask_iff) simp
qed

text \<open>\<open>init_pmm\<close> taken apart: what each field holds when it returns.\<close>

lemma init_pmm_result:
  assumes "init_pmm (Some mm) (Some off) ks ke s0 = Some s"
  shows "hhdm_offset s = off" "kernel_start s = ks" "kernel_end s = ke"
    "page_count s = align_up_4k (highest_end mm 0) div 4096"
    "bitmap_bytes s = (page_count s + 7) div 8"
    "bitmap_pages s = align_up_4k (bitmap_bytes s) div 4096"
    "choose_region s mm = Some (bitmap_phys s)"
    "p < page_count s \<Longrightarrow> bitmap_test (bitmap s) p \<longleftrightarrow> \<not> covered reclaimable s mm p"
    "covered reclaimable s mm p \<Longrightarrow> \<not> bitmap_test (bitmap s) p"
proof -
  define n where "n = align_up_4k (highest_end mm 0) div 4096"
  define s2 where "s2 = s0\<lparr>hhdm_offset := off, kernel_start := ks, kernel_end := ke,
    page_count := n, bitmap_bytes := (n + 7) div 8,
    bitmap_pages := align_up_4k ((n + 7) div 8) div 4096\<rparr>"
  define bm1 where "bm1 = for_up 0 ((n + 7) div 8) (\<lambda>i bm. bm(i := 0xFF)) (bitmap s0)"
  from assms obtain c bm2 bm5 where c: "choose_region s2 mm = Some c"
    and bm2: "clear_regions (\<lambda>t. t = USABLE) (s2\<lparr>bitmap_phys := c\<rparr>) mm bm1 = Some bm2"
    and bm5: "clear_regions reclaimable (s2\<lparr>bitmap_phys := c\<rparr>) mm
      (bitmap_set (for_up 0 (bitmap_pages s2) (\<lambda>i bm. bitmap_set bm (c div 4096 + i)) bm2) 0)
      = Some bm5"
    and s: "s = s2\<lparr>bitmap_phys := c, bitmap := bm5\<rparr>"
    by (auto simp: init_pmm_def Let_def n_def s2_def bm1_def split: Option.bind_splits)
  show "hhdm_offset s = off" "kernel_start s = ks" "kernel_end s = ke"
    "page_count s = align_up_4k (highest_end mm 0) div 4096"
    "bitmap_bytes s = (page_count s + 7) div 8"
    "bitmap_pages s = align_up_4k (bitmap_bytes s) div 4096"
    by (simp_all add: s s2_def n_def)
  show "choose_region s mm = Some (bitmap_phys s)"
    using c by (simp add: s frame_simps)
  have cov: "covered accept (s2\<lparr>bitmap_phys := c\<rparr>) mm q = covered accept s mm q" for accept q
    by (simp add: s frame_simps)
  have t2: "bitmap_test bm2 q \<longleftrightarrow> bitmap_test bm1 q \<and> \<not> covered (\<lambda>t. t = USABLE) s mm q" for q
    using clear_regions_spec [of "\<lambda>t. t = USABLE" "s2\<lparr>bitmap_phys := c\<rparr>" mm bm1] bm2
    by (auto simp: cov)
  have bms: "bitmap s = bm5" by (simp add: s)
  have t5: "bitmap_test (bitmap s) q \<longleftrightarrow>
      (q = 0 \<or> bitmap_test (for_up 0 (bitmap_pages s2) (\<lambda>i bm. bitmap_set bm (c div 4096 + i)) bm2) q)
      \<and> \<not> covered reclaimable s mm q" for q
    using clear_regions_spec [of reclaimable "s2\<lparr>bitmap_phys := c\<rparr>" mm
      "bitmap_set (for_up 0 (bitmap_pages s2) (\<lambda>i bm. bitmap_set bm (c div 4096 + i)) bm2) 0"] bm5
    by (simp add: cov bms)
  show "covered reclaimable s mm p \<Longrightarrow> \<not> bitmap_test (bitmap s) p"
    by (simp add: t5)
  assume p: "p < page_count s"
  have "unat n < 2 ^ 60"
    using unat_u64 [of "align_up_4k (highest_end mm 0)"] by (simp add: n_def unat_div)
  with p have "bm1 (drop_bit 3 p) = 0xFF"
    unfolding bm1_def by (subst fill_ones) (simp add: page_byte_in_bitmap s s2_def)
  then have "bitmap_test bm1 p" by (simp only: bitmap_test_bit ones_set)
  moreover have "covered (\<lambda>t. t = USABLE) s mm p \<Longrightarrow> covered reclaimable s mm p"
    by (auto simp: covered_def reclaimable_def)
  ultimately show "bitmap_test (bitmap s) p \<longleftrightarrow> \<not> covered reclaimable s mm p"
    using t5 [of p] t2 [of p] mark_pages_mono by blast
qed

text \<open>
  The pages of the accepted regions are numbered below the page count, when rounding the
  top of memory up does not wrap.
\<close>

lemma covered_below_page_count:
  assumes "init_pmm (Some mm) (Some off) ks ke s0 = Some s"
    and "unat (highest_end mm 0) + 4095 < 2 ^ 64" and "covered accept s mm p"
  shows "p < page_count s"
proof -
  obtain e where e: "e \<in> set mm" "unat p * 4096 < unat (entry_end e)"
    using assms(3) by (auto simp: covered_def)
  have "unat (entry_end e) \<le> unat (highest_end mm 0)"
    using highest_end_ge [of 0 mm] e(1) page_base_le [of "base e + len e"]
    by (auto simp: entry_end_def align_down_4k_def word_le_nat_alt intro: order_trans)
  with e(2) have "unat p * 4096 < (unat (highest_end mm 0) + 4095) div 4096 * 4096"
    by linarith
  then show ?thesis
    using assms(2)
    by (simp add: init_pmm_result(4) [OF assms(1)] word_less_nat_alt unat_div align_up_4k_def
        unat_page_round_up)
qed

lemma region_overlaps_cong:
  fixes s :: "'a pmm_scheme" and u :: "'b pmm_scheme"
  assumes "kernel_start u = kernel_start s" "kernel_end u = kernel_end s"
  shows "region_overlaps_kernel u a b = region_overlaps_kernel s a b"
  by (simp only: region_overlaps_kernel_def assms)

lemma choose_region_cong:
  assumes "kernel_start u = kernel_start s" "kernel_end u = kernel_end s" "bitmap_pages u = bitmap_pages s"
  shows "choose_region u mm = choose_region s mm"
  by (induction mm) (simp_all add: region_overlaps_cong [OF assms(1,2)] assms(3) Let_def)

lemma clear_regions_cong:
  "kernel_start u = kernel_start s \<Longrightarrow> kernel_end u = kernel_end s \<Longrightarrow> clear_regions accept u mm = clear_regions accept s mm"
proof
  fix bm
  assume "kernel_start u = kernel_start s" "kernel_end u = kernel_end s"
  note o = region_overlaps_cong [OF this]
  show "clear_regions accept u mm bm = clear_regions accept s mm bm"
    by (induction mm arbitrary: bm) (simp_all add: o Let_def cong: bind_option_cong)
qed

text \<open>The result depends on the old bitmap only, and nothing outside the manager changes.\<close>

lemma init_pmm_local:
  fixes s t :: "'a pmm_scheme" and u :: "'b pmm_scheme"
  assumes i: "init_pmm mm off ks ke s = Some t" and b: "bitmap u = bitmap s"
  shows "\<exists>v. init_pmm mm off ks ke u = Some v \<and> pmm.truncate v = pmm.truncate t \<and> pmm.more v = pmm.more u"
proof -
  from i obtain m h where m: "mm = Some m" "off = Some h" by (auto simp: init_pmm_def split: bind_splits)
  define n where "n = align_up_4k (highest_end m 0) div 4096"
  define s2 where "s2 = s\<lparr>hhdm_offset := h, kernel_start := ks, kernel_end := ke,
    page_count := n, bitmap_bytes := (n + 7) div 8, bitmap_pages := align_up_4k ((n + 7) div 8) div 4096\<rparr>"
  define u2 where "u2 = u\<lparr>hhdm_offset := h, kernel_start := ks, kernel_end := ke,
    page_count := n, bitmap_bytes := (n + 7) div 8, bitmap_pages := align_up_4k ((n + 7) div 8) div 4096\<rparr>"
  have f: "kernel_start u2 = kernel_start s2" "kernel_end u2 = kernel_end s2" "bitmap_pages u2 = bitmap_pages s2"
    by (simp_all add: s2_def u2_def)
  have bp: "bitmap_pages s2 = align_up_4k ((n + 7) div 8) div 4096" by (simp add: s2_def)
  have r: "clear_regions accept (u2\<lparr>bitmap_phys := c\<rparr>) m = clear_regions accept (s2\<lparr>bitmap_phys := c\<rparr>) m" for accept c
    by (rule clear_regions_cong) (simp_all add: f)
  define bm1 where "bm1 = for_up 0 ((n + 7) div 8) (\<lambda>i bm. bm(i := 0xFF)) (bitmap s)"
  from i m obtain c bm2 bm5 where c: "choose_region s2 m = Some c"
    and bm2: "clear_regions (\<lambda>t. t = USABLE) (s2\<lparr>bitmap_phys := c\<rparr>) m bm1 = Some bm2"
    and bm5: "clear_regions reclaimable (s2\<lparr>bitmap_phys := c\<rparr>) m
      (bitmap_set (for_up 0 (bitmap_pages s2) (\<lambda>i bm. bitmap_set bm (c div 4096 + i)) bm2) 0) = Some bm5"
    and t: "t = s2\<lparr>bitmap_phys := c, bitmap := bm5\<rparr>"
    by (auto simp: init_pmm_def Let_def n_def s2_def bm1_def split: Option.bind_splits)
  have cu: "choose_region u2 m = Some c" using choose_region_cong [OF f] c by simp
  have "init_pmm mm off ks ke u = Some (u2\<lparr>bitmap_phys := c, bitmap := bm5\<rparr>)"
    using cu bm2 [folded r] bm5 [folded r, unfolded bp] unfolding bm1_def m
    by (simp add: init_pmm_def n_def [symmetric] u2_def [symmetric] b f(3) bp Let_def)
  then show ?thesis
    by (intro exI [of _ "u2\<lparr>bitmap_phys := c, bitmap := bm5\<rparr>"]) (simp add: t u2_def s2_def pmm.truncate_def)
qed

text \<open>How many frames there are when exactly the pages from 1 to \<open>n - 1\<close> are free.\<close>

lemma card_free_frames:
  assumes free: "\<And>i. page_free s i \<longleftrightarrow> 0 < i \<and> i < n" and n: "unat n \<le> 2 ^ 52"
  shows "card (free_frames s) = unat n - 1"
proof -
  have f: "free_frames s = (\<lambda>i. i * 4096) ` {0<..<n}" by (auto simp: free_frames_def free)
  have "inj_on (\<lambda>i :: u64. i * 4096) {0<..<n}"
  proof (rule inj_onI)
    fix x y :: u64
    assume "x \<in> {0<..<n}" "y \<in> {0<..<n}" "x * 4096 = y * 4096"
    moreover from this n have "unat x < 2 ^ 52" "unat y < 2 ^ 52" by (simp_all add: word_less_nat_alt)
    ultimately show "x = y" using frame_addr_inj by blast
  qed
  moreover have "{0<..<n} = of_nat ` {1..<unat n}"
  proof (intro equalityI subsetI)
    fix x assume "x \<in> {0<..<n}"
    then show "x \<in> of_nat ` {1..<unat n}"
      by (intro image_eqI [of _ _ "unat x"]) (auto simp: word_less_nat_alt)
  qed (use n in \<open>auto simp: word_less_nat_alt unat_of_nat take_bit_nat_eq_self\<close>)
  moreover have "inj_on (of_nat :: nat \<Rightarrow> u64) {1..<unat n}"
    by (rule inj_onI) (use n in \<open>auto simp: word_unat_eq_iff unat_of_nat take_bit_nat_eq_self\<close>)
  ultimately show ?thesis by (simp add: f card_image)
qed

lemma init_pmm_total:
  assumes "n = align_up_4k (highest_end mm 0) div 4096"
    and "choose_region (s\<lparr>hhdm_offset := off, kernel_start := ks, kernel_end := ke, page_count := n,
      bitmap_bytes := (n + 7) div 8, bitmap_pages := align_up_4k ((n + 7) div 8) div 4096\<rparr>) mm = Some c"
  shows "\<exists>t. init_pmm (Some mm) (Some off) ks ke s = Some t"
proof -
  have "\<exists>bm'. clear_regions accept u mm bm = Some bm'" for accept bm and u :: "'a pmm_scheme"
    using clear_regions_spec [of accept u mm bm] by blast
  with assms show ?thesis unfolding init_pmm_def by (simp add: Let_def) (metis bind.bind_lunit)
qed

lemma init_pmm_pages:
  assumes "init_pmm (Some mm) (Some off) ks ke s0 = Some s"
    and "unat (highest_end mm 0) + 4095 < 2 ^ 64"
  shows "page_free s p \<longleftrightarrow> 0 < p \<and> covered reclaimable s mm p" "pmm_wf s"
proof -
  show "page_free s p \<longleftrightarrow> 0 < p \<and> covered reclaimable s mm p"
    using init_pmm_result(8) [OF assms(1), of p] covered_below_page_count [OF assms, of reclaimable p]
    by (auto simp: page_free_def)
  show "pmm_wf s"
    using unat_u64 [of "align_up_4k (highest_end mm 0)"]
    by (simp add: pmm_wf_def init_pmm_result(4) [OF assms(1)] unat_div)
qed

text \<open>
  C2. The frames \<open>init_pmm\<close> leaves to the allocator are exactly the whole pages, page 0
  excepted, of the regions of the memory map that are usable or reclaimable and do not
  overlap the kernel's address range; every other page number is marked as in use.
\<close>

theorem init_pmm_free_pages:
  assumes "init_pmm (Some mm) (Some off) ks ke s0 = Some s"
    and "unat (highest_end mm 0) + 4095 < 2 ^ 64"
  shows "(page_free s p \<longleftrightarrow> 0 < p \<and> covered reclaimable s mm p) \<and> pmm_wf s"
  using init_pmm_pages [OF assms] by blast

text \<open>
  C3. The pages that hold the bitmap itself end up marked as free: \<open>init_pmm\<close> sets their
  bits, and its last loop over the map, which visits the usable regions a second time,
  clears them again. So the allocator may hand out the memory its own bitmap lies in.
\<close>

theorem init_pmm_bitmap_pages_free:
  assumes "init_pmm (Some mm) (Some off) ks ke s0 = Some s" and "k < bitmap_pages s"
  shows "\<not> bitmap_test (bitmap s) (bitmap_phys s div 4096 + k)"
proof -
  define c where "c = bitmap_phys s"
  obtain e where e: "e \<in> set mm" "mtype e = USABLE" "c = entry_start e"
    "entry_start e < entry_end e" "\<not> region_overlaps_kernel s (entry_start e) (entry_end e)"
    and size: "bitmap_pages s * 4096 \<le> entry_end e - c"
    using choose_region_usable [OF init_pmm_result(7) [OF assms(1)]] by (auto simp: c_def)
  have "unat (bitmap_pages s) < 2 ^ 52"
    using unat_u64 [of "align_up_4k (bitmap_bytes s)"]
    by (simp add: init_pmm_result(6) [OF assms(1)] unat_div)
  then have "unat (bitmap_pages s) * 4096 \<le> unat (entry_end e) - unat c"
    using size e(3,4) by (simp add: word_le_nat_alt unat_frame_addr unat_sub word_less_nat_alt)
  with assms(2) e(3,4) have k: "unat c + unat k * 4096 < unat (entry_end e)"
    by (simp add: word_less_nat_alt)
  have al: "unat c div 4096 * 4096 = unat c"
    using page_aligned_entry(1) [of e] e(3) by (auto simp: page_aligned_def)
  have "unat (c div 4096 + k) = unat c div 4096 + unat k"
    using k unat_u64 [of "entry_end e"] by (simp add: unat_word_ariths unat_div)
  then have "unat (c div 4096 + k) * 4096 = unat c + unat k * 4096"
    using al by (simp add: add_mult_distrib)
  with e k have "covered reclaimable s mm (c div 4096 + k)"
    by (auto simp: covered_def reclaimable_def intro!: bexI [of _ e])
  then show ?thesis
    using init_pmm_result(9) [OF assms(1)] by (simp add: c_def)
qed

text \<open>
  Until the free frames run out, successive allocations return pairwise distinct,
  non-NULL, page-aligned frames that were free at the start, and exactly those stop being
  free.
\<close>

theorem pmm_alloc_distinct:
  assumes "pmm_wf s" and "n \<le> card (free_frames s)" and "alloc_n pmm_alloc n s = (ps, s')"
  shows "distinct ps \<and> length ps = n \<and> 0 \<notin> set ps \<and> (\<forall>p \<in> set ps. page_aligned p) \<and>
    set ps \<subseteq> free_frames s \<and> free_frames s' = free_frames s - set ps"
  using pmm.alloc_n_spec [OF assms] free_frame_addr [OF assms(1)] by blast

text \<open>A machine with 16 KiB of usable memory from 4 KiB on, for the closed instances.\<close>

definition small_map :: "memmap_entry list" where
  "small_map = [\<lparr>base = 0x1000, len = 0x4000, mtype = USABLE\<rparr>]"

definition pmm_bss :: pmm where
  "pmm_bss = \<lparr>hhdm_offset = 0, bitmap = (\<lambda>_. 0), bitmap_phys = 0, page_count = 0,
     bitmap_bytes = 0, bitmap_pages = 0, kernel_start = 0, kernel_end = 0\<rparr>"

definition small_boot :: "pmm option" where
  "small_boot = init_pmm (Some small_map) (Some 0xFFFF800000000000) 0xFFFFFFFF80000000
     0xFFFFFFFF80100000 pmm_bss"

lemma small_boot_eval:
  "map_option (\<lambda>s. (bitmap_phys s, bitmap s 0, page_count s, fst (pmm_alloc s))) small_boot =
    Some (0x1000, 0xE1, 5, 0x1000)"
  by code_simp

lemma small_boot_some: "\<exists>s. small_boot = Some s \<and> bitmap_pages s = 1 \<and> page_count s = 5 \<and>
    bitmap s 0 = 0xE1"
proof -
  have "map_option (\<lambda>s. (bitmap_pages s, page_count s, bitmap s 0)) small_boot = Some (1, 5, 0xE1)"
    by code_simp
  then show ?thesis by (auto simp: map_option_case split: option.splits)
qed

theorem init_pmm_free_pages_witness:
  "\<exists>s. small_boot = Some s \<and> (page_free s 3 \<longleftrightarrow> 0 < (3 :: u64) \<and> covered reclaimable s small_map 3)
    \<and> pmm_wf s"
proof -
  obtain s where s: "small_boot = Some s" using small_boot_some by blast
  have "unat (highest_end small_map 0) + 4095 < 2 ^ 64"
    by (simp add: small_map_def)
  from init_pmm_free_pages [OF s [unfolded small_boot_def] this, of 3] s
  show ?thesis by (intro exI [of _ s]) simp
qed

theorem init_pmm_bitmap_pages_free_witness:
  "\<exists>s. small_boot = Some s \<and> 0 < bitmap_pages s \<and> \<not> bitmap_test (bitmap s) (bitmap_phys s div 4096)"
proof -
  obtain s where s: "small_boot = Some s" "bitmap_pages s = 1" using small_boot_some by blast
  from init_pmm_bitmap_pages_free [OF s(1) [unfolded small_boot_def], of 0] s
  show ?thesis by (intro exI [of _ s]) simp
qed

text \<open>Five pages, of which 1 and 3 are free.\<close>

definition pmm_two_free :: pmm where
  "pmm_two_free = pmm_bss\<lparr>bitmap := (\<lambda>_. 0xF5), page_count := 5\<rparr>"

theorem pmm_alloc_first_fit_witness:
  "pmm_alloc pmm_two_free = (0x1000, snd (pmm_alloc pmm_two_free)) \<and>
   (\<exists>i. page_free pmm_two_free i \<and> (0x1000 :: u64) = i * 4096)"
proof -
  have "fst (pmm_alloc pmm_two_free) = 0x1000" by code_simp
  then have a: "pmm_alloc pmm_two_free = (0x1000, snd (pmm_alloc pmm_two_free))"
    by (metis prod.collapse)
  from pmm_alloc_first_fit [OF a] a show ?thesis by auto
qed

theorem pmm_alloc_distinct_witness:
  "fst (alloc_n pmm_alloc 2 pmm_two_free) = [0x1000, 0x3000] \<and>
   free_frames (snd (alloc_n pmm_alloc 2 pmm_two_free)) = free_frames pmm_two_free - {0x1000, 0x3000}"
proof -
  have e: "fst (alloc_n pmm_alloc 2 pmm_two_free) = [0x1000, 0x3000]" by code_simp
  have wf: "pmm_wf pmm_two_free" by (simp add: pmm_wf_def pmm_two_free_def)
  have "page_free pmm_two_free 1" "page_free pmm_two_free 3" by code_simp+
  then have "{1 * 4096, 3 * 4096} \<subseteq> free_frames pmm_two_free"
    unfolding free_frames_def by blast
  then have "card {1 * 4096, 3 * 4096 :: u64} \<le> card (free_frames pmm_two_free)"
    by (rule card_mono [OF pmm.finite_free [OF wf]])
  then have "2 \<le> card (free_frames pmm_two_free)" by simp
  from pmm_alloc_distinct [OF wf this surjective_pairing [of "alloc_n pmm_alloc 2 pmm_two_free"]] e
  show ?thesis by simp
qed

end
