(* ===== verification/Vmm.thy ===== *)
theory Vmm
  imports Pmm
begin

text \<open>
  The virtual memory manager, \<open>src/mm/vmm.c\<close> and \<open>include/mm/vmm.h\<close>: four-level x86-64
  page tables, reached through the higher-half direct map. The state adds to \<open>pmm\<close> the
  pointer \<open>pml4\<close> to the current top-level table, the control register \<open>cr3\<close> and
  \<open>ptes\<close>, the 64-bit words of memory at the addresses the page tables are accessed at
  (entry \<open>i\<close> of the table at \<open>t\<close> is the word at \<open>t + 8 * i\<close>).
\<close>


subsection \<open>State and operations\<close>

record vmm = pmm +
  pml4 :: u64
  cr3 :: u64
  ptes :: "u64 \<Rightarrow> u64"

definition PAGE_SIZE :: u64 where "PAGE_SIZE = 4096"
definition PTE_PRESENT :: u64 where "PTE_PRESENT = 1"
definition PTE_WRITE :: u64 where "PTE_WRITE = 2"
definition PTE_USER :: u64 where "PTE_USER = 4"
definition PTE_HUGE :: u64 where "PTE_HUGE = 0x80"
definition PTE_NX :: u64 where "PTE_NX = 0x8000000000000000"

definition phys_to_virt :: "'a pmm_scheme \<Rightarrow> u64 \<Rightarrow> u64" where
  "phys_to_virt s phys = phys + hhdm_offset s"

definition slot :: "u64 \<Rightarrow> u64 \<Rightarrow> u64" where
  \<comment> \<open>the address of \<open>table[index]\<close>, an array of 64-bit entries\<close>
  "slot table index = table + 8 * index"

definition alloc_page_table :: "'a vmm_scheme \<Rightarrow> (u64 \<times> 'a vmm_scheme) option" where
  "alloc_page_table s =
     (let (page, s1) = pmm_alloc s in
      if page = 0 then None
      else let pt = phys_to_virt s1 page in
        Some (page, s1\<lparr>ptes := for_up 0 512 (\<lambda>i m. m(slot pt i := 0)) (ptes s1)\<rparr>))"

definition ensure_table :: "u64 \<Rightarrow> u64 \<Rightarrow> 'a vmm_scheme \<Rightarrow> (u64 \<times> 'a vmm_scheme) option" where
  "ensure_table table index s =
     (if ptes s (slot table index) AND PTE_PRESENT = 0 then do {
        (new_table, s1) \<leftarrow> alloc_page_table s;
        let e = new_table OR PTE_PRESENT OR PTE_WRITE OR PTE_USER;
        let s2 = s1\<lparr>ptes := (ptes s1)(slot table index := e)\<rparr>;
        Some (phys_to_virt s2 (page_base e), s2) }
      else
        let e = ptes s (slot table index) OR (PTE_USER OR PTE_WRITE);
            s2 = s\<lparr>ptes := (ptes s)(slot table index := e)\<rparr>
        in Some (phys_to_virt s2 (page_base e), s2))"

definition pml4i :: "u64 \<Rightarrow> u64" where "pml4i virt = drop_bit 39 virt AND 0x1FF"
definition pdpti :: "u64 \<Rightarrow> u64" where "pdpti virt = drop_bit 30 virt AND 0x1FF"
definition pdi :: "u64 \<Rightarrow> u64" where "pdi virt = drop_bit 21 virt AND 0x1FF"
definition pti :: "u64 \<Rightarrow> u64" where "pti virt = drop_bit 12 virt AND 0x1FF"

definition vmm_map_page :: "u64 \<Rightarrow> u64 \<Rightarrow> u64 \<Rightarrow> 'a vmm_scheme \<Rightarrow> 'a vmm_scheme option" where
  "vmm_map_page virt phys flags s = do {
     (pdpt, s1) \<leftarrow> ensure_table (pml4 s) (pml4i virt) s;
     (pd, s2) \<leftarrow> ensure_table pdpt (pdpti virt) s1;
     (pt, s3) \<leftarrow> ensure_table pd (pdi virt) s2;
     Some (s3\<lparr>ptes := (ptes s3)(slot pt (pti virt) := page_base phys OR flags OR PTE_PRESENT)\<rparr>) }"

definition vmm_unmap_page :: "u64 \<Rightarrow> 'a vmm_scheme \<Rightarrow> 'a vmm_scheme" where
  "vmm_unmap_page virt s =
     (let pdpt = phys_to_virt s (page_base (ptes s (slot (pml4 s) (pml4i virt)))) in
      if pdpt = 0 then s else
      let pd = phys_to_virt s (page_base (ptes s (slot pdpt (pdpti virt)))) in
      if pd = 0 then s else
      let pt = phys_to_virt s (page_base (ptes s (slot pd (pdi virt)))) in
      if pt = 0 then s else
      s\<lparr>ptes := (ptes s)(slot pt (pti virt) := 0)\<rparr>)"

definition vmm_virt_to_phys :: "'a vmm_scheme \<Rightarrow> u64 \<Rightarrow> u64" where
  "vmm_virt_to_phys s virt =
     (let pdpt = phys_to_virt s (page_base (ptes s (slot (pml4 s) (pml4i virt)))) in
      if pdpt = 0 then 0 else
      let pd = phys_to_virt s (page_base (ptes s (slot pdpt (pdpti virt)))) in
      if pd = 0 then 0 else
      let pt = phys_to_virt s (page_base (ptes s (slot pd (pdi virt)))) in
      if pt = 0 then 0 else
      page_base (ptes s (slot pt (pti virt))))"

definition vmm_map_range ::
  "u64 \<Rightarrow> u64 \<Rightarrow> u64 \<Rightarrow> u64 \<Rightarrow> 'a vmm_scheme \<Rightarrow> 'a vmm_scheme option" where
  "vmm_map_range virt phys sz flags s =
     for_opt 0 ((sz + PAGE_SIZE - 1) div PAGE_SIZE)
       (\<lambda>i s. vmm_map_page (virt + i * PAGE_SIZE) (phys + i * PAGE_SIZE) flags s) s"

definition vmm_unmap_range :: "u64 \<Rightarrow> u64 \<Rightarrow> 'a vmm_scheme \<Rightarrow> 'a vmm_scheme" where
  "vmm_unmap_range virt sz s =
     for_up 0 ((sz + PAGE_SIZE - 1) div PAGE_SIZE)
       (\<lambda>i s. vmm_unmap_page (virt + i * PAGE_SIZE) s) s"

definition vmm_create_user_pml4 :: "'a vmm_scheme \<Rightarrow> u64 \<times> 'a vmm_scheme" where
  "vmm_create_user_pml4 s =
     (let (pml4_phys, s1) = pmm_alloc s in
      if pml4_phys = 0 then (0, s1)
      else let new_pml4 = phys_to_virt s1 pml4_phys;
        m1 = for_up 0 256 (\<lambda>i m. m(slot new_pml4 i := 0)) (ptes s1);
        m2 = for_up 256 512 (\<lambda>i m. m(slot new_pml4 i := m (slot (pml4 s1) i))) m1
      in (pml4_phys, s1\<lparr>ptes := m2\<rparr>))"

definition vmm_switch_pml4 :: "u64 \<Rightarrow> 'a vmm_scheme \<Rightarrow> 'a vmm_scheme" where
  "vmm_switch_pml4 pml4_phys s =
     s\<lparr>pml4 := phys_to_virt s (page_base pml4_phys), cr3 := pml4_phys\<rparr>"

text \<open>\<open>init_vmm\<close> takes over the boot loader's tables; it halts on a null table pointer.\<close>

definition init_vmm :: "'a vmm_scheme \<Rightarrow> 'a vmm_scheme option" where
  "init_vmm s =
     (let p = phys_to_virt s (page_base (cr3 s)) in
      if p = 0 then None else Some (s\<lparr>pml4 := p\<rparr>))"


subsection \<open>The page-table tree\<close>

text \<open>
  The hardware's view: entry \<open>i\<close> of a table leads to a next-level table when it is present
  and is not a large-page mapping. \<open>tab s p\<close> is the table at the path \<open>p\<close> of indices
  from the current top level.
\<close>

definition next_table :: "'a vmm_scheme \<Rightarrow> u64 \<Rightarrow> u64 \<Rightarrow> u64 option" where
  "next_table s t i =
     (let e = ptes s (slot t i) in
      if e AND PTE_PRESENT = 0 \<or> e AND PTE_HUGE \<noteq> 0 then None
      else Some (phys_to_virt s (page_base e)))"

fun table_at :: "'a vmm_scheme \<Rightarrow> u64 \<Rightarrow> u64 list \<Rightarrow> u64 option" where
  "table_at s t [] = Some t"
| "table_at s t (i # is) = Option.bind (next_table s t i) (\<lambda>u. table_at s u is)"

definition tab :: "'a vmm_scheme \<Rightarrow> u64 list \<Rightarrow> u64 option" where
  "tab s p = table_at s (pml4 s) p"

definition valid_path :: "u64 list \<Rightarrow> bool" where
  "valid_path p \<longleftrightarrow> length p \<le> 3 \<and> (\<forall>i \<in> set p. i < 512)"

text \<open>
  The direct map covers the managed frames without wrapping around, and the tables form a
  tree: no table is reached by two paths, each lies in a page of its own, and none of these
  pages is free.
\<close>

definition direct_map_ok :: "'a pmm_scheme \<Rightarrow> bool" where
  "direct_map_ok s \<longleftrightarrow> page_aligned (hhdm_offset s) \<and> 0 < hhdm_offset s \<and>
     unat (hhdm_offset s) + unat (page_count s) * 4096 \<le> 2 ^ 64"

definition vmm_inv :: "'a vmm_scheme \<Rightarrow> bool" where
  "vmm_inv s \<longleftrightarrow> pmm_wf s \<and> direct_map_ok s \<and>
     (\<forall>p t. valid_path p \<longrightarrow> tab s p = Some t \<longrightarrow>
        page_aligned t \<and> t \<noteq> 0 \<and> t - hhdm_offset s \<notin> free_frames s) \<and>
     (\<forall>p q t. valid_path p \<longrightarrow> valid_path q \<longrightarrow> tab s p = Some t \<longrightarrow> tab s q = Some t \<longrightarrow> p = q)"

text \<open>The leaf entry that maps the page of \<open>virt\<close>, if one is present.\<close>

definition mapping :: "'a vmm_scheme \<Rightarrow> u64 \<Rightarrow> u64 option" where
  "mapping s virt = do {
     t \<leftarrow> tab s [pml4i virt, pdpti virt, pdi virt];
     let e = ptes s (slot t (pti virt));
     if e AND PTE_PRESENT = 0 then None else Some e }"

definition same_page :: "u64 \<Rightarrow> u64 \<Rightarrow> bool" where
  "same_page v w \<longleftrightarrow> pml4i v = pml4i w \<and> pdpti v = pdpti w \<and> pdi v = pdi w \<and> pti v = pti w"

lemma table_at_append: "table_at s t (p @ q) = Option.bind (table_at s t p) (\<lambda>u. table_at s u q)"
  by (induction p arbitrary: t) simp_all

lemma tab_snoc: "tab s (p @ [i]) = Option.bind (tab s p) (\<lambda>t. next_table s t i)"
  by (simp add: tab_def table_at_append)

lemma unat_slot:
  assumes "page_aligned t" "i < 512"
  shows "unat (slot t i) = unat t + 8 * unat i"
proof -
  have "unat i < 512" using assms(2) by (simp add: word_less_nat_alt)
  moreover have "unat t + 4096 \<le> 2 ^ 64"
    using assms(1) by (rule page_aligned_room)
  ultimately show ?thesis by (simp add: slot_def unat_word_ariths)
qed

lemma slot_inj:
  assumes "page_aligned t" "page_aligned u" "i < 512" "j < 512"
  shows "slot t i = slot u j \<longleftrightarrow> t = u \<and> i = j"
proof
  assume "slot t i = slot u j"
  then have e: "unat t + 8 * unat i = unat u + 8 * unat j"
    using unat_slot [OF assms(1,3)] unat_slot [OF assms(2,4)] by simp
  have "unat t = unat u \<and> 8 * unat i = 8 * unat j"
    by (rule page_split_unique [OF _ _ _ _ e])
      (use assms in \<open>auto simp: page_aligned_def word_less_nat_alt\<close>)
  then show "t = u \<and> i = j" by (simp add: word_unat_eq_iff)
qed simp

text \<open>Elimination forms of the invariant.\<close>

lemma vmm_inv_aligned: "vmm_inv s \<Longrightarrow> valid_path p \<Longrightarrow> tab s p = Some t \<Longrightarrow> page_aligned t"
  and vmm_inv_used: "vmm_inv s \<Longrightarrow> valid_path p \<Longrightarrow> tab s p = Some t \<Longrightarrow>
    t - hhdm_offset s \<notin> free_frames s"
  and vmm_inv_inj: "vmm_inv s \<Longrightarrow> valid_path p \<Longrightarrow> valid_path q \<Longrightarrow> tab s p = Some t \<Longrightarrow>
    tab s q = Some t \<Longrightarrow> p = q"
  and vmm_inv_nonnull: "vmm_inv s \<Longrightarrow> valid_path p \<Longrightarrow> tab s p = Some t \<Longrightarrow> t \<noteq> 0"
  and vmm_inv_hhdm: "vmm_inv s \<Longrightarrow> page_aligned (hhdm_offset s)"
  and vmm_inv_direct: "vmm_inv s \<Longrightarrow> direct_map_ok s"
  and vmm_inv_pmm: "vmm_inv s \<Longrightarrow> pmm_wf s"
  unfolding vmm_inv_def direct_map_ok_def by blast+

lemma free_frame_bound:
  assumes "pmm_wf s" "p \<in> free_frames s"
  shows "unat p + 4096 \<le> unat (page_count s) * 4096"
proof -
  obtain i where i: "page_free s i" "p = i * 4096" using assms(2) by (auto simp: free_frames_def)
  then have "unat i < unat (page_count s)" by (simp add: page_free_def word_less_nat_alt)
  with i page_free_bound [OF assms(1) i(1)] show ?thesis by (simp add: unat_frame_addr)
qed

text \<open>A free frame, reached through the direct map.\<close>

lemma direct_map_frame:
  assumes "pmm_wf s" "direct_map_ok s" "p \<in> free_frames s"
  shows "unat (phys_to_virt s p) = unat p + unat (hhdm_offset s)" "phys_to_virt s p \<noteq> 0"
    "page_aligned (phys_to_virt s p)"
proof -
  show u: "unat (phys_to_virt s p) = unat p + unat (hhdm_offset s)"
    using free_frame_bound [OF assms(1,3)] assms(2)
    by (simp add: phys_to_virt_def direct_map_ok_def unat_word_ariths)
  with assms(2) show "phys_to_virt s p \<noteq> 0"
    by (auto simp: direct_map_ok_def word_less_nat_alt)
  show "page_aligned (phys_to_virt s p)"
    using free_frame_addr [OF assms(1,3)] assms(2)
    by (simp add: phys_to_virt_def direct_map_ok_def page_aligned_add)
qed

lemma valid_path_prefix: "valid_path (p @ q) \<Longrightarrow> valid_path p"
  by (auto simp: valid_path_def)

lemma valid_path_snoc: "valid_path (p @ [i]) \<longleftrightarrow> valid_path p \<and> length p < 3 \<and> i < 512"
  by (auto simp: valid_path_def)

lemma next_table_cong:
  "ptes s' (slot t i) = ptes s (slot t i) \<Longrightarrow> hhdm_offset s' = hhdm_offset s \<Longrightarrow>
    next_table s' t i = next_table s t i"
  by (simp add: next_table_def phys_to_virt_def Let_def)

text \<open>Entries of tables of the tree have distinct addresses.\<close>

lemma tab_slot_eq:
  assumes "vmm_inv s" "valid_path p" "tab s p = Some t" "i < 512"
    and "valid_path q" "tab s q = Some u" "j < 512"
  shows "slot u j = slot t i \<longleftrightarrow> q = p \<and> j = i"
  using slot_inj [OF vmm_inv_aligned [OF assms(1,5,6)] vmm_inv_aligned [OF assms(1-3)] assms(7,4)]
    vmm_inv_inj [OF assms(1,5,2,6)] assms(3,6) by auto

text \<open>
  A store to entry \<open>i0\<close> of the table at path \<open>p0\<close> leaves every path alone that does not
  go through that entry.
\<close>

lemma tab_store_other:
  assumes inv: "vmm_inv s" and p0: "valid_path p0" "tab s p0 = Some t0" and i0: "i0 < 512"
    and q: "valid_path q" "\<And>r. q \<noteq> p0 @ i0 # r"
  shows "tab (s\<lparr>ptes := (ptes s)(slot t0 i0 := e)\<rparr>) q = tab s q"
  using q
proof (induction q rule: rev_induct)
  case Nil
  then show ?case by (simp add: tab_def)
next
  case (snoc j q)
  define s' where "s' = s\<lparr>ptes := (ptes s)(slot t0 i0 := e)\<rparr>"
  have vq: "valid_path q" "j < 512" using snoc.prems(1) by (simp_all add: valid_path_snoc)
  have "q \<noteq> p0 @ i0 # r" for r using snoc.prems(2) [of "r @ [j]"] by auto
  with snoc.IH vq have IH: "tab s' q = tab s q" unfolding s'_def by blast
  have "next_table s' u j = next_table s u j" if "tab s q = Some u" for u
  proof -
    have "slot u j \<noteq> slot t0 i0"
      using tab_slot_eq [OF inv p0 i0 vq(1) that vq(2)] snoc.prems(2) [of "[]"] by auto
    then show ?thesis by (intro next_table_cong) (simp_all add: s'_def)
  qed
  with IH show ?case
    unfolding s'_def [symmetric] by (auto simp: tab_snoc split: Option.bind_splits)
qed

text \<open>A store that leaves the target of the entry as it was leaves every path alone.\<close>

lemma tab_store_same:
  assumes inv: "vmm_inv s" and p0: "valid_path p0" "tab s p0 = Some t0" and i0: "i0 < 512"
    and same: "next_table (s\<lparr>ptes := (ptes s)(slot t0 i0 := e)\<rparr>) t0 i0 = next_table s t0 i0"
    and q: "valid_path q"
  shows "tab (s\<lparr>ptes := (ptes s)(slot t0 i0 := e)\<rparr>) q = tab s q"
  using q
proof (induction q rule: rev_induct)
  case Nil
  then show ?case by (simp add: tab_def)
next
  case (snoc j q)
  define s' where "s' = s\<lparr>ptes := (ptes s)(slot t0 i0 := e)\<rparr>"
  have vq: "valid_path q" "j < 512" using snoc.prems(1) by (simp_all add: valid_path_snoc)
  have IH: "tab s' q = tab s q" using snoc.IH vq unfolding s'_def by blast
  have "next_table s' u j = next_table s u j" if "tab s q = Some u" for u
  proof (cases "slot u j = slot t0 i0")
    case True
    then have "u = t0" "j = i0"
      using slot_inj [of u t0 j i0] vmm_inv_aligned [OF inv vq(1) that]
        vmm_inv_aligned [OF inv p0] vq(2) i0 by auto
    with same show ?thesis by (simp add: s'_def)
  next
    case False
    then show ?thesis by (intro next_table_cong) (simp_all add: s'_def)
  qed
  with IH show ?case
    unfolding s'_def [symmetric] by (auto simp: tab_snoc split: Option.bind_splits)
qed

lemma pmm_alloc_vmm:
  fixes s :: "'a vmm_scheme"
  assumes "pmm_alloc s = (p, s')"
  shows "ptes s' = ptes s" "pml4 s' = pml4 s" "hhdm_offset s' = hhdm_offset s" "cr3 s' = cr3 s"
    "page_count s' = page_count s"
  using assms by (auto simp: pmm_alloc_def split: option.splits)

text \<open>Zeroing a page as a table.\<close>

lemma zero_table:
  assumes "page_aligned t"
  shows "for_up 0 512 (\<lambda>i m. m(slot t i := 0)) m a = (if \<exists>i < 512. a = slot t i then 0 else m a)"
proof -
  have "\<forall>a. for_up 0 512 (\<lambda>i m. m(slot t i := 0)) m a =
      (if \<exists>j < 512. a = slot t j then 0 else m a)"
    by (rule for_up_rule [where P = "\<lambda>i m'. \<forall>a. m' a = (if \<exists>j < i. a = slot t j then 0 else m a)"])
      (auto simp: less_inc_iff)
  then show ?thesis by blast
qed

text \<open>
  What a step of \<open>vmm_map_page\<close> down the tree keeps: the invariant, every table already
  there, and every mapping; and it makes no large-page entry.
\<close>

definition huge_at :: "'a vmm_scheme \<Rightarrow> u64 list \<Rightarrow> u64 \<Rightarrow> bool" where
  "huge_at s p i \<longleftrightarrow> (\<exists>t. tab s p = Some t \<and> ptes s (slot t i) AND PTE_PRESENT \<noteq> 0 \<and>
     ptes s (slot t i) AND PTE_HUGE \<noteq> 0)"

definition tree_step :: "'a vmm_scheme \<Rightarrow> 'a vmm_scheme \<Rightarrow> bool" where
  "tree_step s s' \<longleftrightarrow> vmm_inv s' \<and> pml4 s' = pml4 s \<and> hhdm_offset s' = hhdm_offset s \<and>
     free_frames s' \<subseteq> free_frames s \<and> (\<forall>v. mapping s' v = mapping s v) \<and>
     (\<forall>q t. valid_path q \<longrightarrow> tab s q = Some t \<longrightarrow> tab s' q = Some t) \<and>
     (\<forall>q i. valid_path q \<longrightarrow> i < 512 \<longrightarrow> huge_at s' q i \<longrightarrow> huge_at s q i)"

lemma tree_step_trans: "tree_step s s' \<Longrightarrow> tree_step s' s'' \<Longrightarrow> tree_step s s''"
  unfolding tree_step_def by simp blast

lemma index_less: "pml4i v < 512" "pdpti v < 512" "pdi v < 512" "pti v < 512"
proof -
  have "x AND 0x1FF < 512" for x :: u64
    using word_and_le1 [of x "0x1FF"] by unat_arith
  then show "pml4i v < 512" "pdpti v < 512" "pdi v < 512" "pti v < 512"
    by (simp_all only: pml4i_def pdpti_def pdi_def pti_def)
qed

lemma valid_index_path: "valid_path [pml4i v]" "valid_path [pml4i v, pdpti v]"
    "valid_path [pml4i v, pdpti v, pdi v]" "valid_path []"
  by (simp_all add: valid_path_def index_less)

text \<open>The entry exists already: only permission bits are added.\<close>

lemma ensure_table_present:
  assumes inv: "vmm_inv s" and p: "valid_path (p @ [i])" "tab s p = Some t"
    and pres: "ptes s (slot t i) AND PTE_PRESENT \<noteq> 0" and nohuge: "\<not> huge_at s p i"
    and e: "ensure_table t i s = Some (u, s')"
  shows "tree_step s s' \<and> tab s' (p @ [i]) = Some u"
proof -
  define x where "x = ptes s (slot t i)"
  define x' where "x' = x OR (PTE_USER OR PTE_WRITE)"
  have s': "s' = s\<lparr>ptes := (ptes s)(slot t i := x')\<rparr>" and u: "u = phys_to_virt s (page_base x')"
    using e pres by (simp_all add: ensure_table_def x_def x'_def Let_def phys_to_virt_def)
  have bits: "x' AND PTE_PRESENT = x AND PTE_PRESENT" "x' AND PTE_HUGE = x AND PTE_HUGE"
    by (simp_all add: x'_def PTE_PRESENT_def PTE_HUGE_def PTE_USER_def PTE_WRITE_def
        bit.conj_disj_distrib2)
  have base: "page_base x' = page_base x"
    by (simp add: x'_def PTE_USER_def PTE_WRITE_def page_base_or page_base_small)
  have vp: "valid_path p" "length p < 3" "i < 512" using p(1) by (simp_all add: valid_path_snoc)
  have nx: "next_table s' t i = next_table s t i"
    by (simp add: next_table_def s' bits base phys_to_virt_def x_def [symmetric])
  have tabs: "tab s' q = tab s q" if "valid_path q" for q
    unfolding s' by (rule tab_store_same [OF inv vp(1) p(2) vp(3) nx [unfolded s'] that])
  have slots: "ptes s' (slot w j) = (if q = p \<and> j = i then x' else ptes s (slot w j))"
    if "valid_path q" "tab s q = Some w" "j < 512" for q w j
    using tab_slot_eq [OF inv vp(1) p(2) vp(3) that] by (simp add: s')
  have fr: "free_frames s' = free_frames s" by (simp add: s' free_frames_def page_free_def)
  have "vmm_inv s'"
    using inv tabs fr unfolding vmm_inv_def by (simp add: s' pmm_wf_def direct_map_ok_def)
  moreover have "mapping s' v = mapping s v" for v
  proof (cases "tab s [pml4i v, pdpti v, pdi v]")
    case None
    then show ?thesis by (simp add: mapping_def tabs valid_index_path)
  next
    case (Some w)
    then show ?thesis
      using slots [OF valid_index_path(3) Some index_less(4)] vp(2)
      by (auto simp: mapping_def tabs valid_index_path)
  qed
  moreover have "huge_at s' q j \<Longrightarrow> huge_at s q j" if "valid_path q" "j < 512" for q j
    using that slots bits p(2) by (auto simp: huge_at_def tabs x_def split: if_splits)
  moreover have "tab s' (p @ [i]) = Some u"
    using nohuge pres p(2)
    by (auto simp: tabs p(1), auto simp: tab_snoc next_table_def huge_at_def u base x_def)
  ultimately show ?thesis
    using tabs fr by (auto simp: tree_step_def s')
qed

text \<open>Words outside every table of the tree can change freely.\<close>

lemma tab_cong:
  fixes s :: "'a vmm_scheme" and s' :: "'b vmm_scheme"
  assumes "pml4 s' = pml4 s" "hhdm_offset s' = hhdm_offset s"
    and "\<And>q u j. valid_path q \<Longrightarrow> tab s q = Some u \<Longrightarrow> j < 512 \<Longrightarrow> ptes s' (slot u j) = ptes s (slot u j)"
    and "valid_path q"
  shows "tab s' q = tab s q"
  using assms(4)
proof (induction q rule: rev_induct)
  case Nil
  then show ?case by (simp add: tab_def assms(1))
next
  case (snoc j q)
  then have vq: "valid_path q" "j < 512" by (simp_all add: valid_path_snoc)
  have "next_table s' u j = next_table s u j" if "tab s q = Some u" for u
    by (rule next_table_cong [OF assms(3) [OF vq(1) that vq(2)] assms(2)])
  with snoc.IH vq show ?case by (auto simp: tab_snoc split: Option.bind_splits)
qed

text \<open>A fresh, zeroed table is linked in.\<close>

lemma ensure_table_fresh:
  assumes inv: "vmm_inv s" and p: "valid_path (p @ [i])" "tab s p = Some t"
    and absent: "ptes s (slot t i) AND PTE_PRESENT = 0"
    and e: "ensure_table t i s = Some (u, s')"
  shows "tree_step s s' \<and> tab s' (p @ [i]) = Some u"
proof -
  have vp: "valid_path p" "length p < 3" "i < 512" using p(1) by (simp_all add: valid_path_snoc)
  obtain page s1 where a: "pmm_alloc s = (page, s1)" by force
  have pg: "page \<noteq> 0" using e absent a by (auto simp: ensure_table_def alloc_page_table_def)
  note fresh = pmm.alloc_some [OF vmm_inv_pmm [OF inv] a pg]
  note same = pmm_alloc_vmm [OF a]
  define T where "T = phys_to_virt s page"
  define z where "z = s1\<lparr>ptes := for_up 0 512 (\<lambda>i m. m(slot T i := 0)) (ptes s1)\<rparr>"
  define x where "x = page OR PTE_PRESENT OR PTE_WRITE OR PTE_USER"
  have base: "page_base x = page"
    using page_base_aligned [OF fresh(3)]
    by (simp add: x_def PTE_PRESENT_def PTE_WRITE_def PTE_USER_def page_base_or page_base_small)
  have "s' = z\<lparr>ptes := (ptes z)(slot t i := x)\<rparr> \<and> u = T"
    using e absent a pg same base
    by (auto simp: ensure_table_def alloc_page_table_def Let_def phys_to_virt_def T_def z_def
        x_def)
  then have s': "s' = z\<lparr>ptes := (ptes z)(slot t i := x)\<rparr>" and u: "u = T" by simp_all
  have alT: "page_aligned T" and nnT: "T \<noteq> 0"
    unfolding T_def
    using direct_map_frame(2,3) [OF vmm_inv_pmm [OF inv] vmm_inv_direct [OF inv] fresh(1)] by simp_all
  have newT: "w \<noteq> T" if "valid_path q" "tab s q = Some w" for q w
    using vmm_inv_used [OF inv that] fresh(1) by (auto simp: T_def phys_to_virt_def)
  have zslot: "ptes z (slot w j) = ptes s (slot w j)"
    if "valid_path q" "tab s q = Some w" "j < 512" for q w j
    using slot_inj [OF vmm_inv_aligned [OF inv that(1,2)] alT that(3)] newT [OF that(1,2)] same(1)
    by (auto simp: z_def zero_table [OF alT])
  have zT: "ptes z (slot T j) = 0" if "j < 512" for j
    using that by (auto simp: z_def zero_table [OF alT])
  have ztab: "tab z q = tab s q" if "valid_path q" for q
    by (rule tab_cong [OF _ _ zslot that]) (simp_all add: z_def same)
  have zinv: "vmm_inv z"
    using inv fresh(2,4) ztab unfolding vmm_inv_def
    by (auto simp: z_def same free_frames_def page_free_def pmm_wf_def
        direct_map_ok_def)
  have bits: "x AND PTE_PRESENT \<noteq> 0" "x AND PTE_HUGE = 0"
    by (simp_all add: x_def PTE_PRESENT_def PTE_HUGE_def PTE_USER_def PTE_WRITE_def
        bit.conj_disj_distrib2 page_aligned_and_small [OF fresh(3)])
  have ztp: "tab z p = Some t" by (simp add: ztab vp p(2))
  have other: "tab s' q = tab s q" if "valid_path q" "\<And>r. q \<noteq> p @ i # r" for q
    unfolding s' using tab_store_other [OF zinv vp(1) ztp vp(3) that] ztab [OF that(1)] by simp
  have new: "tab s' (p @ [i]) = Some T"
    using other [OF vp(1)] p(2) bits base same(3)
    by (simp add: tab_snoc next_table_def) (simp add: s' z_def phys_to_virt_def T_def)
  have s'T: "ptes s' (slot T j) = 0" if "j < 512" for j
    using zT [OF that] slot_inj [OF alT vmm_inv_aligned [OF inv vp(1) p(2)] that vp(3)]
      newT [OF vp(1) p(2)] by (auto simp: s')
  have below: "tab s' (p @ i # j # r) = None" if "valid_path (p @ i # j # r)" for j r
  proof -
    have "next_table s' T j = None"
      using s'T [of j] that by (simp add: next_table_def valid_path_def)
    then have "tab s' ((p @ [i]) @ [j]) = None" using new by (simp only: tab_snoc) simp
    then show ?thesis by (simp add: tab_def table_at_append [of _ _ "p @ [i, j]" r, simplified])
  qed
  have none: "tab s (p @ i # r) = None" for r
    using p(2) absent by (simp add: tab_def table_at_append next_table_def)
  have char: "tab s' q = Some w \<longleftrightarrow> tab s q = Some w \<or> q = p @ [i] \<and> w = T"
    if "valid_path q" for q w
  proof (cases "\<exists>r. q = p @ i # r")
    case True
    then obtain r where q: "q = p @ i # r" by blast
    then show ?thesis using that new below none by (cases r) auto
  next
    case False
    then show ?thesis using other [OF that] by auto
  qed
  have slots: "ptes s' (slot w j) = (if q = p \<and> j = i then x else ptes s (slot w j))"
    if "valid_path q" "tab s q = Some w" "j < 512" for q w j
    using zslot [OF that] tab_slot_eq [OF inv vp(1) p(2) vp(3) that] by (simp add: s')
  have frame: "pml4 s' = pml4 s" "hhdm_offset s' = hhdm_offset s"
    "free_frames s' = free_frames s - {page}" "pmm_wf s'" "direct_map_ok s'"
    using same fresh zinv
    by (auto simp: s' z_def free_frames_def page_free_def pmm_wf_def vmm_inv_def direct_map_ok_def)
  have "vmm_inv s'"
    using inv frame alT nnT newT unfolding vmm_inv_def by (auto simp: char, auto simp: T_def phys_to_virt_def)
  moreover have "mapping s' v = mapping s v" for v
  proof (cases "tab s [pml4i v, pdpti v, pdi v]")
    case (Some w)
    moreover from Some have "tab s' [pml4i v, pdpti v, pdi v] = Some w"
      by (simp add: char valid_index_path)
    ultimately show ?thesis
      using slots [OF valid_index_path(3) Some index_less(4)] vp(2) by (auto simp: mapping_def)
  next
    case None
    have "a = T" if "tab s' [pml4i v, pdpti v, pdi v] = Some a" for a
      using that None char [OF valid_index_path(3), of v a] by simp
    with None s'T [OF index_less(4), of v] show ?thesis
      by (cases "tab s' [pml4i v, pdpti v, pdi v]") (simp_all add: mapping_def)
  qed
  moreover have "huge_at s' q j \<Longrightarrow> huge_at s q j" if "valid_path q" "j < 512" for q j
    using that slots bits s'T by (auto simp: huge_at_def char split: if_splits)
  ultimately show ?thesis
    using frame new by (auto simp: tree_step_def char u)
qed

lemma ensure_table_step:
  assumes "vmm_inv s" "valid_path (p @ [i])" "tab s p = Some t" "\<not> huge_at s p i"
    and "ensure_table t i s = Some (u, s')"
  shows "tree_step s s' \<and> tab s' (p @ [i]) = Some u"
  using ensure_table_present [OF assms(1-3) _ assms(4,5)] ensure_table_fresh [OF assms(1-3) _ assms(5)]
  by blast


subsection \<open>Mapping, translating and unmapping a page\<close>

text \<open>No large page is in the way of the 4 KiB page of \<open>v\<close>.\<close>

definition path_4k :: "'a vmm_scheme \<Rightarrow> u64 \<Rightarrow> bool" where
  "path_4k s v \<longleftrightarrow> \<not> huge_at s [] (pml4i v) \<and> \<not> huge_at s [pml4i v] (pdpti v) \<and>
     \<not> huge_at s [pml4i v, pdpti v] (pdi v)"

lemma path_4k_step: "tree_step s s' \<Longrightarrow> path_4k s v \<Longrightarrow> path_4k s' v"
  unfolding tree_step_def path_4k_def using valid_index_path index_less by blast

text \<open>The walk of \<open>vmm_map_page\<close> down to the page table.\<close>

lemma vmm_map_page_walk:
  assumes inv: "vmm_inv s" and no: "path_4k s v" and m: "vmm_map_page v phys flags s = Some s'"
  obtains t s3 where "tree_step s s3" "tab s3 [pml4i v, pdpti v, pdi v] = Some t"
    "s' = s3\<lparr>ptes := (ptes s3)(slot t (pti v) := page_base phys OR flags OR PTE_PRESENT)\<rparr>"
proof -
  from m obtain t1 s1 t2 s2 t3 s3 where
    e1: "ensure_table (pml4 s) (pml4i v) s = Some (t1, s1)" and
    e2: "ensure_table t1 (pdpti v) s1 = Some (t2, s2)" and
    e3: "ensure_table t2 (pdi v) s2 = Some (t3, s3)" and
    s': "s' = s3\<lparr>ptes := (ptes s3)(slot t3 (pti v) := page_base phys OR flags OR PTE_PRESENT)\<rparr>"
    by (auto simp: vmm_map_page_def bind_eq_Some_conv)
  have 1: "tree_step s s1" "tab s1 [pml4i v] = Some t1"
    using ensure_table_step [OF inv, of "[]" "pml4i v" "pml4 s"] no e1
    by (auto simp: tab_def path_4k_def valid_index_path)
  then have 2: "tree_step s1 s2" "tab s2 [pml4i v, pdpti v] = Some t2"
    using ensure_table_step [of s1 "[pml4i v]" "pdpti v" t1 t2 s2] path_4k_step [OF 1(1) no] e2
    by (auto simp: path_4k_def valid_index_path tree_step_def)
  have 3: "tree_step s s2" by (rule tree_step_trans [OF 1(1) 2(1)])
  then have "tree_step s2 s3 \<and> tab s3 ([pml4i v, pdpti v] @ [pdi v]) = Some t3"
    using ensure_table_step [of s2 "[pml4i v, pdpti v]" "pdi v" t2 t3 s3] path_4k_step [OF 3 no] e3 2
    by (auto simp: path_4k_def valid_index_path tree_step_def)
  with 3 s' that show thesis by (auto dest: tree_step_trans)
qed

text \<open>A store to an entry of a bottom-level table changes the mapping of one page.\<close>

lemma leaf_store:
  fixes e :: u64
  assumes inv: "vmm_inv s" and t: "tab s [pml4i v, pdpti v, pdi v] = Some t"
  defines "s' \<equiv> s\<lparr>ptes := (ptes s)(slot t (pti v) := e)\<rparr>"
  shows "vmm_inv s'" "\<And>q. valid_path q \<Longrightarrow> tab s' q = tab s q"
    "\<And>w. mapping s' w = (if same_page v w then if e AND PTE_PRESENT = 0 then None else Some e
      else mapping s w)"
    "\<And>w. path_4k s' w = path_4k s w"
proof -
  show tabs: "tab s' q = tab s q" if "valid_path q" for q
    unfolding s'_def using that
    by (intro tab_store_other [OF inv valid_index_path(3) t index_less(4)]) (auto simp: valid_path_def)
  have fr: "free_frames s' = free_frames s" by (simp add: s'_def free_frames_def page_free_def)
  show "vmm_inv s'"
    using inv tabs fr unfolding vmm_inv_def by (simp add: s'_def pmm_wf_def direct_map_ok_def)
  have slots: "ptes s' (slot w j) =
      (if q = [pml4i v, pdpti v, pdi v] \<and> j = pti v then e else ptes s (slot w j))"
    if "valid_path q" "tab s q = Some w" "j < 512" for q w j
    using tab_slot_eq [OF inv valid_index_path(3) t index_less(4) that] by (simp add: s'_def)
  show "mapping s' w = (if same_page v w then if e AND PTE_PRESENT = 0 then None else Some e
      else mapping s w)" for w
  proof (cases "tab s [pml4i w, pdpti w, pdi w]")
    case None
    with t have "\<not> same_page v w" by (auto simp: same_page_def)
    with None show ?thesis by (simp add: mapping_def tabs valid_index_path)
  next
    case (Some x)
    show ?thesis
      using slots [OF valid_index_path(3) Some index_less(4)] Some
      by (auto simp: mapping_def tabs valid_index_path same_page_def)
  qed
  have "huge_at s' q j = huge_at s q j" if "valid_path q" "length q < 3" "j < 512" for q j
  proof -
    have "q \<noteq> [pml4i v, pdpti v, pdi v]" using that(2) by auto
    then have "ptes s' (slot w j) = ptes s (slot w j)" if "tab s q = Some w" for w
      using slots [OF \<open>valid_path q\<close> that \<open>j < 512\<close>] by simp
    with that(1) show ?thesis by (auto simp: huge_at_def tabs)
  qed
  then show "path_4k s' w = path_4k s w" for w
    by (simp add: path_4k_def valid_index_path index_less)
qed

lemma vmm_map_page_effect:
  assumes "vmm_inv s" and "path_4k s virt" and "vmm_map_page virt phys flags s = Some s'"
  shows "vmm_inv s' \<and> free_frames s' \<subseteq> free_frames s \<and>
    (\<forall>w. mapping s' w =
      (if same_page virt w then Some (page_base phys OR flags OR PTE_PRESENT) else mapping s w))"
proof -
  obtain t s3 where st: "tree_step s s3" and t: "tab s3 [pml4i virt, pdpti virt, pdi virt] = Some t"
    and s': "s' = s3\<lparr>ptes := (ptes s3)(slot t (pti virt) := page_base phys OR flags OR PTE_PRESENT)\<rparr>"
    by (rule vmm_map_page_walk [OF assms])
  have inv3: "vmm_inv s3" "\<And>w. mapping s3 w = mapping s w" "free_frames s3 \<subseteq> free_frames s"
    using st by (auto simp: tree_step_def)
  have p: "(page_base phys OR flags OR PTE_PRESENT) AND PTE_PRESENT \<noteq> 0"
    by (simp add: PTE_PRESENT_def bit.conj_disj_distrib2 flip: or.assoc)
  have "free_frames s' = free_frames s3" by (simp add: s' free_frames_def page_free_def)
  with leaf_store [OF inv3(1) t, where e = "page_base phys OR flags OR PTE_PRESENT"] inv3 p
  show ?thesis by (simp add: s')
qed

text \<open>
  C4. \<open>vmm_map_page\<close> maps exactly one page: afterwards the leaf entry of the page of
  \<open>virt\<close> is the frame of \<open>phys\<close> with the requested flags and the present bit, the mapping
  of every other page is what it was, and the page tables still form a tree of allocated
  frames.
\<close>

theorem vmm_map_page_maps:
  assumes "vmm_inv s" and "path_4k s virt" and "vmm_map_page virt phys flags s = Some s'"
  shows "vmm_inv s' \<and> free_frames s' \<subseteq> free_frames s \<and>
    (\<forall>w. mapping s' w =
      (if same_page virt w then Some (page_base phys OR flags OR PTE_PRESENT) else mapping s w))"
  by (rule vmm_map_page_effect [OF assms])

text \<open>Every table on the way costs at most one free frame, so three are always enough.\<close>

lemma ensure_table_total:
  assumes "pmm_wf s" "free_frames s \<noteq> {}"
  shows "\<exists>u s'. ensure_table t i s = Some (u, s') \<and> pmm_wf s' \<and>
    card (free_frames s) \<le> Suc (card (free_frames s'))"
proof (cases "ptes s (slot t i) AND PTE_PRESENT = 0")
  case False
  then show ?thesis
    using assms by (simp add: ensure_table_def Let_def pmm_wf_def free_frames_def page_free_def)
next
  case True
  obtain p s1 where a: "pmm_alloc s = (p, s1)" by force
  then have "p \<noteq> 0" using pmm.alloc_null_iff [OF assms(1) a] assms(2) by simp
  then obtain s' b where "ensure_table t i s = Some (phys_to_virt s' (page_base b), s')"
    and s': "s' = s1\<lparr>ptes := ptes s'\<rparr>"
    using True a by (simp add: ensure_table_def alloc_page_table_def Let_def)
  moreover have "free_frames (s1\<lparr>ptes := m\<rparr>) = free_frames s1" "pmm_wf (s1\<lparr>ptes := m\<rparr>) = pmm_wf s1"
    for m by (simp_all add: free_frames_def page_free_def pmm_wf_def)
  then have "free_frames s' = free_frames s1" "pmm_wf s' = pmm_wf s1" by (metis s')+
  moreover have "pmm_wf s1" by (rule pmm.alloc_inv [OF assms(1) a])
  moreover have "card (free_frames s) \<le> Suc (card (free_frames s1))"
    using pmm.alloc_card [OF assms(1) a] by simp
  ultimately show ?thesis by metis
qed

lemma vmm_map_page_total:
  assumes "pmm_wf s" "3 \<le> card (free_frames s)"
  shows "\<exists>s'. vmm_map_page virt phys flags s = Some s' \<and> pmm_wf s' \<and>
    card (free_frames s) \<le> card (free_frames s') + 3"
proof -
  have ne: "free_frames s \<noteq> {}" if "0 < card (free_frames s)" for s :: "'a vmm_scheme"
    using that by auto
  obtain t1 s1 where 1: "ensure_table (pml4 s) (pml4i virt) s = Some (t1, s1)" "pmm_wf s1"
    "card (free_frames s) \<le> Suc (card (free_frames s1))"
    using ensure_table_total [OF assms(1) ne] assms(2) by force
  then obtain t2 s2 where 2: "ensure_table t1 (pdpti virt) s1 = Some (t2, s2)" "pmm_wf s2"
    "card (free_frames s1) \<le> Suc (card (free_frames s2))"
    using ensure_table_total [OF 1(2) ne] assms(2) by force
  then obtain t3 s3 where 3: "ensure_table t2 (pdi virt) s2 = Some (t3, s3)" "pmm_wf s3"
    "card (free_frames s2) \<le> Suc (card (free_frames s3))"
    using ensure_table_total [OF 2(2) ne] 1(3) assms(2) by force
  have "card (free_frames s) \<le> card (free_frames s3) + 3" using 1(3) 2(3) 3(3) by simp
  with 1(1) 2(1) 3(1,2) show ?thesis
    by (simp add: vmm_map_page_def pmm_wf_def free_frames_def page_free_def)
qed

text \<open>The software walk of \<open>vmm_virt_to_phys\<close> follows the tree where the page is mapped.\<close>

lemma tab3_walk:
  assumes inv: "vmm_inv s" and t: "tab s [pml4i v, pdpti v, pdi v] = Some t"
  obtains t1 t2 where "t1 = phys_to_virt s (page_base (ptes s (slot (pml4 s) (pml4i v))))"
    "t2 = phys_to_virt s (page_base (ptes s (slot t1 (pdpti v))))"
    "t = phys_to_virt s (page_base (ptes s (slot t2 (pdi v))))" "t1 \<noteq> 0" "t2 \<noteq> 0" "t \<noteq> 0"
proof -
  from t obtain t1 t2 where n: "next_table s (pml4 s) (pml4i v) = Some t1"
    "next_table s t1 (pdpti v) = Some t2" "next_table s t2 (pdi v) = Some t"
    by (auto simp: tab_def bind_eq_Some_conv)
  then have "tab s [pml4i v] = Some t1" "tab s [pml4i v, pdpti v] = Some t2" by (simp_all add: tab_def)
  with t have "t1 \<noteq> 0" "t2 \<noteq> 0" "t \<noteq> 0"
    using vmm_inv_nonnull [OF inv] valid_index_path by blast+
  with n that show thesis by (auto simp: next_table_def Let_def split: if_splits)
qed

lemma vmm_virt_to_phys_mapping:
  assumes "vmm_inv s" "mapping s v = Some e"
  shows "vmm_virt_to_phys s v = page_base e"
proof -
  obtain t where t: "tab s [pml4i v, pdpti v, pdi v] = Some t" "e = ptes s (slot t (pti v))"
    using assms(2) by (auto simp: mapping_def Let_def bind_eq_Some_conv split: if_splits)
  obtain t1 t2 where w: "t1 = phys_to_virt s (page_base (ptes s (slot (pml4 s) (pml4i v))))"
    "t2 = phys_to_virt s (page_base (ptes s (slot t1 (pdpti v))))"
    "t = phys_to_virt s (page_base (ptes s (slot t2 (pdi v))))" "t1 \<noteq> 0" "t2 \<noteq> 0" "t \<noteq> 0"
    by (rule tab3_walk [OF assms(1) t(1)])
  then show ?thesis
    by (simp add: vmm_virt_to_phys_def Let_def t(2) flip: w(1-3))
qed

text \<open>
  C5. Round trip: while three frames are free, mapping a page with flags in the low twelve
  bits succeeds, and translating any address of that page then gives the frame of \<open>phys\<close>.
\<close>

theorem vmm_map_then_translate:
  assumes "vmm_inv s" and "path_4k s virt" and "3 \<le> card (free_frames s)" and "flags < 4096"
  shows "\<exists>s'. vmm_map_page virt phys flags s = Some s' \<and>
    (\<forall>w. same_page virt w \<longrightarrow> vmm_virt_to_phys s' w = page_base phys)"
proof -
  obtain s' where s': "vmm_map_page virt phys flags s = Some s'"
    using vmm_map_page_total [OF vmm_inv_pmm [OF assms(1)] assms(3)] by blast
  obtain t s3 where st: "tree_step s s3" and t: "tab s3 [pml4i virt, pdpti virt, pdi virt] = Some t"
    and e: "s' = s3\<lparr>ptes := (ptes s3)(slot t (pti virt) := page_base phys OR flags OR PTE_PRESENT)\<rparr>"
    by (rule vmm_map_page_walk [OF assms(1,2) s'])
  have inv3: "vmm_inv s3" using st by (simp add: tree_step_def)
  have p: "(page_base phys OR flags OR PTE_PRESENT) AND PTE_PRESENT \<noteq> 0"
    by (simp add: PTE_PRESENT_def bit.conj_disj_distrib2 flip: or.assoc)
  have "page_base (page_base phys OR flags OR PTE_PRESENT) = page_base phys"
    using assms(4)
    by (simp add: page_base_or page_base_small PTE_PRESENT_def page_base_aligned page_aligned_base)
  with leaf_store [OF inv3 t, where e = "page_base phys OR flags OR PTE_PRESENT"] p
  have "vmm_virt_to_phys s' w = page_base phys" if "same_page virt w" for w
    using that vmm_virt_to_phys_mapping [of s' w] by (simp add: e)
  with s' show ?thesis by blast
qed

text \<open>
  C6. \<open>vmm_unmap_page\<close> on a mapped page removes that page's mapping and no other, and
  keeps the tree of tables.
\<close>

theorem vmm_unmap_page_unmaps:
  assumes "vmm_inv s" and "mapping s virt \<noteq> None"
  shows "vmm_inv (vmm_unmap_page virt s) \<and>
    (\<forall>w. mapping (vmm_unmap_page virt s) w = (if same_page virt w then None else mapping s w))"
proof -
  obtain t where t: "tab s [pml4i virt, pdpti virt, pdi virt] = Some t"
    using assms(2) by (auto simp: mapping_def bind_eq_Some_conv)
  have "vmm_unmap_page virt s = s\<lparr>ptes := (ptes s)(slot t (pti virt) := 0)\<rparr>"
  proof -
    obtain t1 t2 where w: "t1 = phys_to_virt s (page_base (ptes s (slot (pml4 s) (pml4i virt))))"
      "t2 = phys_to_virt s (page_base (ptes s (slot t1 (pdpti virt))))"
      "t = phys_to_virt s (page_base (ptes s (slot t2 (pdi virt))))" "t1 \<noteq> 0" "t2 \<noteq> 0" "t \<noteq> 0"
      by (rule tab3_walk [OF assms(1) t])
    then show ?thesis by (simp add: vmm_unmap_page_def Let_def flip: w(1-3))
  qed
  with leaf_store [OF assms(1) t, where e = 0] show ?thesis by simp
qed


subsection \<open>A user address space\<close>

text \<open>Copying the upper half of the top-level table.\<close>

lemma copy_upper_half:
  assumes "page_aligned T" "page_aligned P" "T \<noteq> P"
  shows "for_up 256 512 (\<lambda>i m. m(slot T i := m (slot P i))) m a =
    (if \<exists>i < 512. 256 \<le> i \<and> a = slot T i then m (slot P (SOME i. i < 512 \<and> a = slot T i)) else m a)"
proof -
  have sel: "(SOME i. i < 512 \<and> slot T j = slot T i) = j" if "j < 512" for j
    using that slot_inj [OF assms(1,1)] by (intro some_equality) auto
  let ?P = "\<lambda>i m'. (\<forall>a. m' a = (if \<exists>j < i. 256 \<le> j \<and> a = slot T j
      then m (slot P (SOME i. i < 512 \<and> a = slot T i)) else m a))"
  have step: "?P (i + 1) (m'(slot T i := m' (slot P i)))"
    if i: "256 \<le> i" "i < 512" and m': "?P i m'" for i m'
  proof (intro allI)
    fix a
    have "m' (slot P i) = m (slot P i)"
      using m' slot_inj [OF assms(2,1)] assms(3) i by auto
    then show "(m'(slot T i := m' (slot P i))) a =
        (if \<exists>j < i + 1. 256 \<le> j \<and> a = slot T j
         then m (slot P (SOME i. i < 512 \<and> a = slot T i)) else m a)"
      using m' i sel [OF i(2)] by (auto simp: less_inc_iff [OF i(2)])
  qed
  have "?P 512 (for_up 256 512 (\<lambda>i m. m(slot T i := m (slot P i))) m)"
    by (rule for_up_rule [where P = ?P]) (use step in \<open>auto dest: order.strict_trans1\<close>)
  then show ?thesis by (auto simp: conj_commute)
qed

lemma copy_upper_half_at:
  assumes "page_aligned T" "page_aligned P" "T \<noteq> P" "256 \<le> i" "i < 512"
  shows "for_up 256 512 (\<lambda>i m. m(slot T i := m (slot P i))) m (slot T i) = m (slot P i)"
proof -
  have "(SOME j. j < 512 \<and> slot T i = slot T j) = i"
    using assms(5) slot_inj [OF assms(1,1)] by (intro some_equality) auto
  with assms show ?thesis by (subst copy_upper_half) auto
qed

lemma next_table_pml4 [frame_simps]: "next_table (s\<lparr>pml4 := x\<rparr>) t i = next_table s t i"
  by (rule next_table_cong) simp_all

lemma table_at_pml4 [frame_simps]: "table_at (s\<lparr>pml4 := x\<rparr>) t q = table_at s t q"
  by (induction q arbitrary: t) (simp_all add: next_table_pml4)

text \<open>
  C7. \<open>vmm_create_user_pml4\<close> followed by \<open>vmm_switch_pml4\<close> gives an address space of its
  own: the lower (user) half maps nothing, the upper (kernel) half translates as before,
  and the tables of the new space again form a tree of allocated frames.
\<close>

theorem user_pml4_address_space:
  assumes inv: "vmm_inv s" and c: "vmm_create_user_pml4 s = (p, s1)" and p: "p \<noteq> 0"
  shows "vmm_inv (vmm_switch_pml4 p s1) \<and>
    (\<forall>w. mapping (vmm_switch_pml4 p s1) w = (if pml4i w < 256 then None else mapping s w))"
proof -
  obtain t where a: "pmm_alloc s = (p, t)"
    using c p by (cases "pmm_alloc s") (auto simp: vmm_create_user_pml4_def Let_def split: if_splits)
  note fresh = pmm.alloc_some [OF vmm_inv_pmm [OF inv] a p] and same = pmm_alloc_vmm [OF a]
  define T where "T = phys_to_virt s p"
  define P where "P = pml4 s"
  have T: "page_aligned T" "T \<noteq> 0" and alP: "page_aligned P"
    using direct_map_frame [OF vmm_inv_pmm [OF inv] vmm_inv_direct [OF inv] fresh(1)]
      vmm_inv_aligned [OF inv valid_index_path(4), of P] by (simp_all add: T_def P_def tab_def)
  have newT: "u \<noteq> T" if "valid_path q" "tab s q = Some u" for q u
    using vmm_inv_used [OF inv that] fresh(1) by (auto simp: T_def phys_to_virt_def)
  then have TP: "T \<noteq> P" using valid_index_path(4) by (force simp: P_def tab_def)
  define n where "n = vmm_switch_pml4 p s1"
  define m1 where "m1 = for_up 0 256 (\<lambda>i m. m(slot T i := 0)) (ptes s)"
  have n: "n = t\<lparr>ptes := for_up 256 512 (\<lambda>i m. m(slot T i := m (slot P i))) m1, pml4 := T, cr3 := p\<rparr>"
    using c p a page_base_aligned [OF fresh(3)]
    by (auto simp: vmm_create_user_pml4_def vmm_switch_pml4_def Let_def n_def m1_def T_def P_def
        phys_to_virt_def same)
  have m1: "m1 a = (if \<exists>i < 256. a = slot T i then 0 else ptes s a)" for a
  proof -
    have "\<forall>a. m1 a = (if \<exists>i < 256. a = slot T i then 0 else ptes s a)"
      unfolding m1_def
      by (rule for_up_rule [where P = "\<lambda>i m'. \<forall>a. m' a = (if \<exists>j < i. a = slot T j then 0 else ptes s a)"])
        (auto simp: less_inc_iff)
    then show ?thesis by blast
  qed
  have low: "ptes n (slot T i) = 0" if "i < 256" for i
  proof -
    have "i < 512" using that by unat_arith
    with that slot_inj [OF T(1) T(1), of i] show ?thesis
      by (auto simp: n copy_upper_half [OF T(1) alP TP] m1 not_less [symmetric])
  qed
  have high: "ptes n (slot T i) = ptes s (slot P i)" if i: "256 \<le> i" "i < 512" for i
  proof -
    have "slot P i \<noteq> slot T j" if "j < 256" for j
    proof -
      have "j < 512" using that by unat_arith
      with slot_inj [OF alP T(1) i(2)] TP show ?thesis by auto
    qed
    with i show ?thesis by (auto simp: n copy_upper_half_at [OF T(1) alP TP] m1)
  qed
  have rest: "ptes n (slot u j) = ptes s (slot u j)"
    if "valid_path q" "tab s q = Some u" "j < 512" for q u j
  proof -
    have "slot u j \<noteq> slot T k" if "k < 512" for k
      using slot_inj [OF vmm_inv_aligned [OF inv \<open>valid_path q\<close> \<open>tab s q = Some u\<close>] T(1)
          \<open>j < 512\<close> that] newT [OF \<open>valid_path q\<close> \<open>tab s q = Some u\<close>] by simp
    moreover have "k < 512" if "k < 256" for k :: u64 using that by unat_arith
    ultimately show ?thesis by (auto simp: n copy_upper_half [OF T(1) alP TP] m1)
  qed
  have hh: "hhdm_offset n = hhdm_offset s" by (simp add: n same)
  have viaP: "table_at n P q = tab s q" if "valid_path q" for q
    using tab_cong [of "n\<lparr>pml4 := P\<rparr>" s q] rest hh that
    by (simp add: tab_def frame_simps flip: P_def)
  have tabn: "tab n (i # r) = (if i < 256 then None else tab s (i # r))" if v: "valid_path (i # r)" for i r
  proof -
    have i: "i < 512" "valid_path []" using v by (simp_all add: valid_path_def)
    have "next_table n P i = next_table s P i"
      using rest [OF i(2), of P i] i(1) hh by (intro next_table_cong) (simp_all add: tab_def P_def)
    moreover have "next_table n T i = (if i < 256 then None else next_table s P i)"
      using low high i(1) hh by (auto simp: next_table_def phys_to_virt_def Let_def not_less)
    ultimately show ?thesis using viaP [OF v] by (simp add: tab_def n)
  qed
  have fr: "free_frames n = free_frames s - {p}" "pmm_wf n" "direct_map_ok n"
    using fresh vmm_inv_direct [OF inv] same
    by (auto simp: n free_frames_def page_free_def pmm_wf_def direct_map_ok_def)
  have cases_n: "q = [] \<and> u = T \<or> (\<exists>i r. q = i # r \<and> tab s q = Some u)"
    if "valid_path q" "tab n q = Some u" for q u
    using that tabn by (cases q) (auto simp: tab_def n split: if_splits)
  have "vmm_inv n"
    unfolding vmm_inv_def
  proof (intro conjI allI impI)
    show "pmm_wf n" "direct_map_ok n" by (fact fr)+
  next
    fix q u assume q: "valid_path q" "tab n q = Some u"
    then show "page_aligned u" "u \<noteq> 0" "u - hhdm_offset n \<notin> free_frames n"
      using cases_n [OF q] T inv fr(1) hh unfolding vmm_inv_def
      by (auto simp: T_def phys_to_virt_def)
  next
    fix q r u assume "valid_path q" "valid_path r" "tab n q = Some u" "tab n r = Some u"
    then show "q = r"
      using cases_n [of q u] cases_n [of r u] newT vmm_inv_inj [OF inv, of q r u] by blast
  qed
  moreover have "mapping n w = (if pml4i w < 256 then None else mapping s w)" for w
    using rest [OF valid_index_path(3) _ index_less(4)]
    by (auto simp: mapping_def tabn valid_index_path split: Option.bind_splits)
  ultimately show ?thesis by (simp add: n_def)
qed


subsection \<open>Closed instances\<close>

text \<open>Eight frames, of which 2 to 7 are free; an empty top-level table in frame 1.\<close>

definition vmm_ex :: vmm where
  "vmm_ex = \<lparr>hhdm_offset = 0x100000, bitmap = (\<lambda>_. 3), bitmap_phys = 0, page_count = 8,
     bitmap_bytes = 1, bitmap_pages = 1, kernel_start = 0, kernel_end = 0,
     pml4 = 0x101000, cr3 = 0x1000, ptes = (\<lambda>_. 0)\<rparr>"

lemma tab_vmm_ex: "tab vmm_ex q = (if q = [] then Some 0x101000 else None)"
  by (cases q) (simp_all add: tab_def vmm_ex_def next_table_def)

lemma vmm_ex_free: "p \<in> free_frames vmm_ex \<Longrightarrow> p \<noteq> 0x1000"
  "{0x2000, 0x3000, 0x4000} \<subseteq> free_frames vmm_ex"
proof -
  have "\<not> page_free vmm_ex 1" by code_simp
  moreover have "pmm_wf vmm_ex" by (simp add: pmm_wf_def vmm_ex_def)
  ultimately have "1 * 4096 \<notin> free_frames vmm_ex"
    using frame_addr_inj [of 1] page_free_bound [of vmm_ex] by (auto simp: free_frames_def)
  then show "p \<in> free_frames vmm_ex \<Longrightarrow> p \<noteq> 0x1000" by auto
  have "page_free vmm_ex 2" "page_free vmm_ex 3" "page_free vmm_ex 4" by code_simp+
  then have "{2 * 4096, 3 * 4096, 4 * 4096} \<subseteq> free_frames vmm_ex"
    unfolding free_frames_def by blast
  then show "{0x2000, 0x3000, 0x4000} \<subseteq> free_frames vmm_ex" by simp
qed

lemma vmm_ex_inv: "vmm_inv vmm_ex" "path_4k vmm_ex v" "3 \<le> card (free_frames vmm_ex)"
proof -
  show wf: "vmm_inv vmm_ex"
    using vmm_ex_free(1)
    by (auto simp: vmm_inv_def tab_vmm_ex pmm_wf_def direct_map_ok_def page_aligned_def
        split: if_splits) (auto simp: vmm_ex_def)
  show "path_4k vmm_ex v"
    by (simp add: path_4k_def huge_at_def tab_vmm_ex) (simp add: vmm_ex_def)
  have "card {0x2000, 0x3000, 0x4000 :: u64} \<le> card (free_frames vmm_ex)"
    by (rule card_mono [OF pmm.finite_free [OF vmm_inv_pmm [OF wf]] vmm_ex_free(2)])
  then show "3 \<le> card (free_frames vmm_ex)" by simp
qed

theorem vmm_map_page_maps_witness:
  "\<exists>s'. vmm_map_page 0x400123 0x7000 PTE_WRITE vmm_ex = Some s' \<and> vmm_inv s' \<and>
    mapping s' 0x400123 = Some (page_base 0x7000 OR PTE_WRITE OR PTE_PRESENT)"
proof -
  obtain s' where s': "vmm_map_page 0x400123 0x7000 PTE_WRITE vmm_ex = Some s'"
    using vmm_map_page_total [OF vmm_inv_pmm [OF vmm_ex_inv(1)] vmm_ex_inv(3)] by blast
  from vmm_map_page_maps [OF vmm_ex_inv(1,2) this] s' show ?thesis
    by (auto simp: same_page_def)
qed

theorem vmm_map_then_translate_witness:
  "\<exists>s'. vmm_map_page 0x400000 0x7000 PTE_WRITE vmm_ex = Some s' \<and>
    vmm_virt_to_phys s' 0x400FFF = 0x7000"
proof -
  have "same_page 0x400000 0x400FFF" "page_base 0x7000 = 0x7000" by code_simp+
  with vmm_map_then_translate [OF vmm_ex_inv, of PTE_WRITE "0x400000" "0x7000"] show ?thesis
    by (auto simp: PTE_WRITE_def)
qed

theorem vmm_unmap_page_unmaps_witness:
  "\<exists>s :: vmm. vmm_inv s \<and> mapping s 0x400000 \<noteq> None \<and> mapping (vmm_unmap_page 0x400000 s) 0x400000 = None"
proof -
  obtain t where t: "vmm_map_page 0x400000 0x7000 PTE_WRITE vmm_ex = Some t"
    using vmm_map_page_total [OF vmm_inv_pmm [OF vmm_ex_inv(1)] vmm_ex_inv(3)] by blast
  obtain s3 u where "tree_step vmm_ex s3" "tab s3 [pml4i 0x400000, pdpti 0x400000, pdi 0x400000] = Some u"
    and e: "t = s3\<lparr>ptes := (ptes s3)(slot u (pti 0x400000) := page_base 0x7000 OR PTE_WRITE OR PTE_PRESENT)\<rparr>"
    by (rule vmm_map_page_walk [OF vmm_ex_inv(1,2) t])
  then have m: "vmm_inv t" "mapping t 0x400000 \<noteq> None"
    using leaf_store [of s3 "0x400000" u, where e = "page_base 0x7000 OR PTE_WRITE OR PTE_PRESENT"]
    by (auto simp: tree_step_def same_page_def PTE_PRESENT_def bit.conj_disj_distrib2 simp flip: or.assoc)
  from vmm_unmap_page_unmaps [OF m] m show ?thesis
    by (intro exI [of _ t]) (simp add: same_page_def)
qed

theorem user_pml4_address_space_witness:
  "\<exists>p s1. vmm_create_user_pml4 vmm_ex = (p, s1) \<and> p \<noteq> 0 \<and> vmm_inv (vmm_switch_pml4 p s1)"
proof -
  obtain p s1 where c: "vmm_create_user_pml4 vmm_ex = (p, s1)" by force
  have "free_frames vmm_ex \<noteq> {}" using vmm_ex_free(2) by blast
  then have "p \<noteq> 0"
    using c pmm.alloc_null_iff [OF vmm_inv_pmm [OF vmm_ex_inv(1)]]
    by (cases "pmm_alloc vmm_ex") (auto simp: vmm_create_user_pml4_def Let_def split: if_splits)
  with user_pml4_address_space [OF vmm_ex_inv(1) c] c show ?thesis by blast
qed

text \<open>
  The null checks of \<open>vmm_unmap_page\<close> and \<open>vmm_virt_to_phys\<close> test the translated pointer,
  which is \<open>hhdm_offset\<close>, not NULL, for an empty entry. So both go on with physical frame 0
  as if it were a table: here an unmapped address translates to what frame 0 happens to
  hold, and unmapping it overwrites a word of frame 0.
\<close>

definition vmm_junk :: vmm where
  "vmm_junk = vmm_ex\<lparr>ptes := (\<lambda>a. if a = 0x100000 then 0x5000 else if a = 0x105000 then 0x6000
     else if a = 0x106000 then 0xABC000 else 0)\<rparr>"

lemma vmm_unmapped_not_null:
  "vmm_virt_to_phys vmm_junk 0 = 0xABC000 \<and> ptes vmm_junk (slot (pml4 vmm_junk) (pml4i 0)) = 0 \<and>
   ptes vmm_junk 0x106000 \<noteq> 0 \<and> ptes (vmm_unmap_page 0 vmm_junk) 0x106000 = 0"
  by code_simp

end
