(* ===== verification/KHeap.thy ===== *)
theory KHeap
  imports Vmm
begin

text \<open>
  The kernel heap, \<open>src/mm/heap.c\<close>: a singly linked list of block headers laid out one
  after the other in the virtual range from \<open>HEAP_START\<close> to \<open>heap_end\<close>, searched
  first-fit by \<open>kmalloc\<close>, grown by \<open>heap_expand\<close> from the frame allocator and the page
  tables, and coalesced by \<open>kfree\<close>. \<open>hdrs a\<close> is the block header stored at address
  \<open>a\<close>; pointers are 64-bit addresses with NULL as 0.
\<close>


subsection \<open>State and operations\<close>

record heap_block =
  bsize :: u64
  is_free :: bool
  nxt :: u64

record heap = vmm +
  head :: u64
  heap_end :: u64
  hdrs :: "u64 \<Rightarrow> heap_block"

definition HEAP_START :: u64 where "HEAP_START = 0xFFFFFFFFC0000000"
definition HEAP_INITIAL_SIZE :: u64 where "HEAP_INITIAL_SIZE = 16 * 1024 * 1024"
definition HEAP_PAGE_FLAGS :: u64 where "HEAP_PAGE_FLAGS = PTE_PRESENT OR PTE_WRITE"

definition sizeof_heap_block :: u64 where
  \<comment> \<open>\<open>size_t\<close>, \<open>bool\<close> padded to eight bytes, pointer\<close>
  "sizeof_heap_block = 24"

definition align_up :: "u64 \<Rightarrow> u64 \<Rightarrow> u64" where
  "align_up x align = (x + align - 1) AND NOT (align - 1)"

definition expand_page :: "'a heap_scheme \<Rightarrow> 'a heap_scheme option" where
  \<comment> \<open>the body of the loop of \<open>heap_expand\<close>\<close>
  "expand_page s =
     (let (phys, s1) = pmm_alloc s in
      if phys = 0 then None
      else do {
        s2 \<leftarrow> vmm_map_page (heap_end s1) phys HEAP_PAGE_FLAGS s1;
        Some (s2\<lparr>heap_end := heap_end s2 + PAGE_SIZE\<rparr>) })"

definition heap_expand :: "u64 \<Rightarrow> 'a heap_scheme \<Rightarrow> (u64 \<times> 'a heap_scheme) option" where
  "heap_expand bytes s =
     (let needed = align_up bytes PAGE_SIZE; pages = needed div PAGE_SIZE; start_virt = heap_end s in
      do {
        s1 \<leftarrow> for_opt 0 pages (\<lambda>i. expand_page) s;
        Some (start_virt,
          s1\<lparr>hdrs := (hdrs s1)(start_virt :=
            \<lparr>bsize = needed - sizeof_heap_block, is_free = True, nxt = 0\<rparr>)\<rparr>) })"

definition init_heap :: "'a heap_scheme \<Rightarrow> 'a heap_scheme option" where
  "init_heap s = do {
     (b, s1) \<leftarrow> heap_expand HEAP_INITIAL_SIZE s;
     Some (s1\<lparr>head := b\<rparr>) }"

text \<open>The search loop of \<open>kmalloc\<close>: the block found (0 if none) and the last one visited.\<close>

partial_function (option) find_block ::
  "(u64 \<Rightarrow> heap_block) \<Rightarrow> u64 \<Rightarrow> u64 \<Rightarrow> u64 \<Rightarrow> (u64 \<times> u64) option" where
  "find_block h size' current last' =
     (if current = 0 then Some (0, last')
      else if is_free (h current) \<and> bsize (h current) \<ge> size' then Some (current, last')
      else find_block h size' (nxt (h current)) current)"

text \<open>Take a block: split off the rest when a header and 16 bytes fit, then mark it used.\<close>

definition take_block :: "u64 \<Rightarrow> u64 \<Rightarrow> (u64 \<Rightarrow> heap_block) \<Rightarrow> (u64 \<Rightarrow> heap_block)" where
  "take_block size' b h =
     (let h1 =
        (if bsize (h b) \<ge> size' + sizeof_heap_block + 16 then
           let nb = b + sizeof_heap_block + size';
               h' = h(nb := \<lparr>bsize = bsize (h b) - size' - sizeof_heap_block, is_free = True,
                             nxt = nxt (h b)\<rparr>)
           in h'(b := (h' b)\<lparr>bsize := size', nxt := nb\<rparr>)
         else h)
      in h1(b := (h1 b)\<lparr>is_free := False\<rparr>))"

definition kmalloc :: "u64 \<Rightarrow> 'a heap_scheme \<Rightarrow> (u64 \<times> 'a heap_scheme) option" where
  "kmalloc size0 s =
     (if size0 = 0 then Some (0, s)
      else let size' = align_up size0 16 in do {
        (current, last') \<leftarrow> find_block (hdrs s) size' (head s) 0;
        if current \<noteq> 0 then
          Some (current + sizeof_heap_block, s\<lparr>hdrs := take_block size' current (hdrs s)\<rparr>)
        else do {
          (nb, s1) \<leftarrow> heap_expand (size' + sizeof_heap_block) s;
          let s2 =
            (if last' \<noteq> 0 then s1\<lparr>hdrs := (hdrs s1)(last' := (hdrs s1 last')\<lparr>nxt := nb\<rparr>)\<rparr>
             else if head s1 = 0 then s1\<lparr>head := nb\<rparr> else s1);
          Some (nb + sizeof_heap_block, s2\<lparr>hdrs := take_block size' nb (hdrs s2)\<rparr>) } })"

text \<open>The two nested loops of \<open>kfree\<close>.\<close>

partial_function (option) coalesce_at ::
  "(u64 \<Rightarrow> heap_block) \<Rightarrow> u64 \<Rightarrow> (u64 \<Rightarrow> heap_block) option" where
  "coalesce_at h current =
     (if is_free (h current) \<and> nxt (h current) \<noteq> 0 \<and> is_free (h (nxt (h current))) then
        coalesce_at (h(current := (h current)
          \<lparr>bsize := bsize (h current) + (sizeof_heap_block + bsize (h (nxt (h current)))),
           nxt := nxt (h (nxt (h current)))\<rparr>)) current
      else Some h)"

partial_function (option) coalesce ::
  "(u64 \<Rightarrow> heap_block) \<Rightarrow> u64 \<Rightarrow> (u64 \<Rightarrow> heap_block) option" where
  "coalesce h current =
     (if current = 0 then Some h
      else Option.bind (coalesce_at h current) (\<lambda>h'. coalesce h' (nxt (h' current))))"

declare find_block.simps [code] coalesce_at.simps [code] coalesce.simps [code]

definition kfree :: "u64 \<Rightarrow> 'a heap_scheme \<Rightarrow> 'a heap_scheme option" where
  "kfree ptr s =
     (if ptr = 0 then Some s
      else let block = ptr - sizeof_heap_block; h = hdrs s in do {
        h' \<leftarrow> coalesce (h(block := (h block)\<lparr>is_free := True\<rparr>)) (head s);
        Some (s\<lparr>hdrs := h'\<rparr>) })"


subsection \<open>The block list\<close>

text \<open>
  The abstract heap: the list of blocks (header address, payload size, free) in list order,
  over natural numbers. \<open>hpath h p bs q\<close>: the headers reachable from \<open>p\<close> are \<open>bs\<close>,
  and the last one points to \<open>q\<close>.
\<close>

type_synonym blk = "nat \<times> nat \<times> bool"

fun hpath :: "(u64 \<Rightarrow> heap_block) \<Rightarrow> u64 \<Rightarrow> blk list \<Rightarrow> u64 \<Rightarrow> bool" where
  "hpath h p [] q \<longleftrightarrow> p = q"
| "hpath h p ((a, n, f) # bs) q \<longleftrightarrow> p \<noteq> 0 \<and> unat p = a \<and> unat (bsize (h p)) = n \<and>
     is_free (h p) = f \<and> hpath h (nxt (h p)) bs q"

text \<open>The blocks fill the range from \<open>lo\<close> to \<open>hi\<close> without gaps.\<close>

fun layout :: "nat \<Rightarrow> blk list \<Rightarrow> nat \<Rightarrow> bool" where
  "layout lo [] hi \<longleftrightarrow> lo = hi"
| "layout lo ((a, n, f) # bs) hi \<longleftrightarrow> a = lo \<and> 8 dvd n \<and> layout (lo + 24 + n) bs hi"

definition heap_list :: "'a heap_scheme \<Rightarrow> blk list \<Rightarrow> bool" where
  "heap_list s bs \<longleftrightarrow> hpath (hdrs s) (head s) bs 0 \<and>
     layout (unat HEAP_START) bs (unat (heap_end s))"

lemma hpath_append [simp]: "hpath h p (xs @ ys) q \<longleftrightarrow> (\<exists>r. hpath h p xs r \<and> hpath h r ys q)"
  by (induction xs arbitrary: p) auto

lemma layout_append [simp]: "layout lo (xs @ ys) hi \<longleftrightarrow> (\<exists>m. layout lo xs m \<and> layout m ys hi)"
  by (induction xs arbitrary: lo) auto

lemma hpath_upd: "unat a \<notin> fst ` set bs \<Longrightarrow> hpath (h(a := b)) p bs q = hpath h p bs q"
  by (induction bs arbitrary: p) auto

lemma layout_mono: "layout lo bs hi \<Longrightarrow> lo \<le> hi"
  by (induction bs arbitrary: lo) fastforce+

lemma layout_bounds: "layout lo bs hi \<Longrightarrow> (a, n, f) \<in> set bs \<Longrightarrow> lo \<le> a \<and> a + 24 + n \<le> hi"
  by (induction bs arbitrary: lo) (auto dest: layout_mono, fastforce)

lemma layout_addr: "layout lo bs hi \<Longrightarrow> a \<in> fst ` set bs \<Longrightarrow> lo \<le> a \<and> a < hi"
  by (auto dest: layout_bounds)


subsection \<open>First fit\<close>

definition fits :: "nat \<Rightarrow> blk \<Rightarrow> bool" where
  "fits n b \<longleftrightarrow> (case b of (a, m, f) \<Rightarrow> f \<and> n \<le> m)"

lemma find_block_miss:
  "hpath h p xs q \<Longrightarrow> \<forall>b \<in> set xs. \<not> fits (unat sz) b \<Longrightarrow>
    find_block h sz p l = find_block h sz q (if xs = [] then l else of_nat (fst (last xs)))"
proof (induction xs arbitrary: p l)
  case Nil
  then show ?case by simp
next
  case (Cons b xs)
  obtain a n f where b: "b = (a, n, f)" by (cases b)
  with Cons.prems have "find_block h sz p l = find_block h sz (nxt (h p)) p"
    by (subst find_block.simps) (auto simp: fits_def word_le_nat_alt)
  moreover have "p = of_nat a" using Cons.prems(1) b by auto
  ultimately show ?case
    using Cons.IH [of "nxt (h p)" p] Cons.prems b by auto
qed

lemma find_block_hit:
  assumes "hpath h p (xs @ (a, m, True) # ys) 0" "\<forall>b \<in> set xs. \<not> fits (unat sz) b" "unat sz \<le> m"
  shows "\<exists>c l. find_block h sz p 0 = Some (c, l) \<and> unat c = a \<and> c \<noteq> 0 \<and> hpath h p xs c"
proof -
  obtain c where c: "hpath h p xs c" "c \<noteq> 0" "unat c = a" "unat (bsize (h c)) = m" "is_free (h c)"
    using assms(1) by auto
  have "find_block h sz c l = Some (c, l)" for l
    using c assms(3) by (subst find_block.simps) (simp add: word_le_nat_alt)
  with find_block_miss [OF c(1) assms(2)] c show ?thesis by auto
qed

lemma find_block_none:
  assumes "hpath h p bs 0" "\<forall>b \<in> set bs. \<not> fits (unat sz) b"
  shows "find_block h sz p 0 = Some (0, if bs = [] then 0 else of_nat (fst (last bs)))"
  using find_block_miss [OF assms] by (simp add: find_block.simps [of _ _ 0])

text \<open>The abstract effect of \<open>take_block\<close> on a block of \<open>m\<close> bytes.\<close>

definition carve :: "nat \<Rightarrow> nat \<Rightarrow> nat \<Rightarrow> blk list" where
  "carve n a m =
     (if n + 40 \<le> m then [(a, n, False), (a + 24 + n, m - n - 24, True)] else [(a, m, False)])"

lemma take_block_hpath:
  assumes p: "hpath h p (xs @ (a, m, f) # ys) 0" and lay: "layout lo (xs @ (a, m, f) # ys) hi"
    and c: "unat c = a" and hi: "hi < 2 ^ 64" and n: "8 dvd unat sz" and fit: "unat sz + 40 < 2 ^ 64"
  shows "hpath (take_block sz c h) p (xs @ carve (unat sz) a m @ ys) 0 \<and>
    layout lo (xs @ carve (unat sz) a m @ ys) hi"
proof -
  obtain r where r: "hpath h p xs r" "r \<noteq> 0" "unat r = a" "unat (bsize (h r)) = m"
    "hpath h (nxt (h r)) ys 0" using p by auto
  moreover have "r = c" using r(3) c by (simp add: word_unat_eq_iff)
  ultimately have px: "hpath h p xs c" "c \<noteq> 0" and bc: "unat (bsize (h c)) = m"
    and py: "hpath h (nxt (h c)) ys 0" by simp_all
  have lx: "layout lo xs a" and ly: "layout (a + 24 + m) ys hi" and m8: "8 dvd m"
    using lay by auto
  have ahi: "a + 24 + m \<le> hi" by (rule layout_mono [OF ly])
  have ax: "a \<notin> fst ` set xs" using layout_addr [OF lx] by fastforce
  have ay: "a \<notin> fst ` set ys" using layout_addr [OF ly] by fastforce
  have le: "40 + sz \<le> bsize (h c) \<longleftrightarrow> unat sz + 40 \<le> m"
  proof -
    have "unat (40 + sz) = unat sz + 40" using fit by (simp add: unat_word_ariths)
    with bc show ?thesis by (simp only: word_le_nat_alt)
  qed
  show ?thesis
  proof (cases "unat sz + 40 \<le> m")
    case False
    then have "take_block sz c h = h(c := (h c)\<lparr>is_free := False\<rparr>)"
      by (simp add: take_block_def sizeof_heap_block_def le Let_def)
    then show ?thesis
      using False px py bc c ax ay lay m8 by (auto simp: carve_def hpath_upd)
  next
    case True
    define nb where "nb = c + 24 + sz"
    have nb: "unat nb = a + 24 + unat sz" "nb \<noteq> c" "nb \<noteq> 0"
    proof -
      show u: "unat nb = a + 24 + unat sz"
        using True ahi hi c by (simp add: nb_def unat_word_ariths)
      then show "nb \<noteq> c" "nb \<noteq> 0" using c by auto
    qed
    have nx: "unat nb \<notin> fst ` set xs" using layout_addr [OF lx] nb(1) by fastforce
    have ny: "unat nb \<notin> fst ` set ys" using layout_addr [OF ly] nb(1) True by fastforce
    have rest: "unat (bsize (h c) - sz - 24) = m - unat sz - 24"
      using True bc by (simp add: unat_sub word_le_nat_alt)
    define h' where "h' = h(nb := \<lparr>bsize = bsize (h c) - sz - 24, is_free = True, nxt = nxt (h c)\<rparr>,
      c := \<lparr>bsize = sz, is_free = False, nxt = nb\<rparr>)"
    have "take_block sz c h = h'"
      using True nb(2) le
      by (auto simp: take_block_def sizeof_heap_block_def Let_def h'_def nb_def [symmetric]
        intro!: ext heap_block.equality)
    moreover have "hpath h' p xs c" "hpath h' (nxt (h c)) ys 0"
      using px py c ax ay nx ny by (simp_all add: h'_def hpath_upd)
    moreover have "h' c = \<lparr>bsize = sz, is_free = False, nxt = nb\<rparr>"
      "h' nb = \<lparr>bsize = bsize (h c) - sz - 24, is_free = True, nxt = nxt (h c)\<rparr>"
      using nb(2) by (simp_all add: h'_def)
    ultimately have t: "take_block sz c h = h'" "hpath h' p xs c" "hpath h' c (carve (unat sz) a m @ ys) 0"
      using True nb px(2) c rest by (simp_all add: carve_def)
    have "8 dvd m - unat sz - 24" using m8 n by (simp add: dvd_diff_nat)
    moreover have "a + 24 + unat sz + 24 + (m - unat sz - 24) = a + 24 + m" using True by simp
    ultimately have "layout a (carve (unat sz) a m @ ys) hi"
      using True ly n by (simp add: carve_def ac_simps)
    with t lx show ?thesis unfolding hpath_append layout_append t(1) by blast
  qed
qed


subsection \<open>Coalescing\<close>

text \<open>What the loops of \<open>kfree\<close> compute on the abstract list.\<close>

fun merge_free :: "blk list \<Rightarrow> blk list" where
  "merge_free [] = []"
| "merge_free [x] = [x]"
| "merge_free ((a, n, f) # (b, m, g) # bs) =
     (if f \<and> g then merge_free ((a, n + 24 + m, True) # bs)
      else (a, n, f) # merge_free ((b, m, g) # bs))"

lemma merge_free_layout: "layout lo bs hi \<Longrightarrow> layout lo (merge_free bs) hi"
  by (induction bs arbitrary: lo rule: merge_free.induct) (auto simp: ac_simps)

lemma merge_free_used: "(a, n, False) \<in> set (merge_free bs) \<longleftrightarrow> (a, n, False) \<in> set bs"
  by (induction bs rule: merge_free.induct) auto

lemma merge_free_hd: "\<exists>n' bs'. merge_free ((a, n, f) # bs) = (a, n', f) # bs'"
  by (induction "(a, n, f) # bs" arbitrary: a n f bs rule: merge_free.induct) auto

fun no_free_pair :: "blk list \<Rightarrow> bool" where
  "no_free_pair ((a, n, f) # (b, m, g) # bs) \<longleftrightarrow> \<not> (f \<and> g) \<and> no_free_pair ((b, m, g) # bs)"
| "no_free_pair _ \<longleftrightarrow> True"

lemma merge_free_pairs: "no_free_pair (merge_free bs)"
proof (induction bs rule: merge_free.induct)
  case (3 a n f b m g bs)
  show ?case
  proof (cases "f \<and> g")
    case False
    obtain m' bs' where "merge_free ((b, m, g) # bs) = (b, m', g) # bs'"
      using merge_free_hd by blast
    with False 3(2) show ?thesis by auto
  qed (simp add: 3)
qed simp_all

text \<open>The loops return, and refine \<open>merge_free\<close>.\<close>

lemma coalesce_step:
  assumes "c \<noteq> 0" "is_free (h c)" "nxt (h c) \<noteq> 0" "is_free (h (nxt (h c)))"
  shows "coalesce h c = coalesce (h(c := (h c)
    \<lparr>bsize := bsize (h c) + (sizeof_heap_block + bsize (h (nxt (h c)))), nxt := nxt (h (nxt (h c)))\<rparr>)) c"
  using assms by (subst (1 2) coalesce.simps, subst coalesce_at.simps) simp

lemma coalesce_skip:
  assumes "c \<noteq> 0" "\<not> (is_free (h c) \<and> nxt (h c) \<noteq> 0 \<and> is_free (h (nxt (h c))))"
  shows "coalesce h c = coalesce h (nxt (h c))"
  using assms by (subst coalesce.simps, subst coalesce_at.simps) auto

lemma coalesce_refines:
  assumes "hpath h c bs 0" "layout lo bs hi" "hi < 2 ^ 64"
  shows "\<exists>h'. coalesce h c = Some h' \<and> hpath h' c (merge_free bs) 0 \<and>
    (\<forall>x. unat x \<notin> fst ` set bs \<longrightarrow> h' x = h x)"
  using assms
proof (induction bs arbitrary: h c lo rule: merge_free.induct)
  case 1
  then show ?case by (subst coalesce.simps) simp
next
  case (2 x)
  obtain a n f where x: "x = (a, n, f)" by (cases x)
  with 2 have "coalesce h c = coalesce h 0" by (auto simp: coalesce_skip)
  then show ?case using 2 by (simp add: coalesce.simps [of h 0])
next
  case (3 a n f b m g bs)
  define d where "d = nxt (h c)"
  have c: "c \<noteq> 0" "unat c = a" "unat (bsize (h c)) = n" "is_free (h c) = f"
    and d: "d \<noteq> 0" "unat d = b" "unat (bsize (h d)) = m" "is_free (h d) = g" "hpath h (nxt (h d)) bs 0"
    using "3.prems"(1) by (auto simp: d_def)
  have lay: "a = lo" "b = a + 24 + n" "layout (b + 24 + m) bs hi" "8 dvd n" "8 dvd m"
    using "3.prems"(2) by auto
  have hi: "b + 24 + m \<le> hi" by (rule layout_mono [OF lay(3)])
  have ab: "a \<notin> fst ` set ((b, m, g) # bs)"
    using layout_addr [OF lay(3), of a] lay by auto
  show ?case
  proof (cases "f \<and> g")
    case True
    define h1 where "h1 = h(c := (h c)\<lparr>bsize := bsize (h c) + (sizeof_heap_block + bsize (h d)),
      nxt := nxt (h d)\<rparr>)"
    have sz: "unat (bsize (h c) + (sizeof_heap_block + bsize (h d))) = n + 24 + m"
      using hi "3.prems"(3) c d lay by (simp add: sizeof_heap_block_def unat_word_ariths)
    have "hpath h1 c ((a, n + 24 + m, True) # bs) 0"
      using c d(5) ab True sz by (simp add: h1_def hpath_upd)
    moreover have "layout lo ((a, n + 24 + m, True) # bs) hi"
      using lay by (simp add: ac_simps)
    ultimately obtain h' where h': "coalesce h1 c = Some h'"
      "hpath h' c (merge_free ((a, n + 24 + m, True) # bs)) 0"
      "\<And>x. unat x \<notin> fst ` set ((a, n + 24 + m, True) # bs) \<Longrightarrow> h' x = h1 x"
      using "3.IH"(1) [OF True] "3.prems"(3) by blast
    have "coalesce h c = coalesce h1 c"
      using coalesce_step [of c h] c d True by (simp add: h1_def d_def)
    moreover have "h' x = h x" if "unat x \<notin> fst ` set ((a, n, f) # (b, m, g) # bs)" for x
      using that h'(3) [of x] c(2) by (auto simp: h1_def)
    ultimately show ?thesis using h' True by auto
  next
    case False
    have "hpath h d ((b, m, g) # bs) 0" "layout b ((b, m, g) # bs) hi"
      using d lay by auto
    then obtain h' where h': "coalesce h d = Some h'" "hpath h' d (merge_free ((b, m, g) # bs)) 0"
      "\<And>x. unat x \<notin> fst ` set ((b, m, g) # bs) \<Longrightarrow> h' x = h x"
      using "3.IH"(2) [OF False] "3.prems"(3) by blast
    have "h' c = h c" using h'(3) [of c] ab c(2) by simp
    moreover have "coalesce h c = coalesce h d"
      using coalesce_skip [of c h] c d False by (simp add: d_def)
    ultimately show ?thesis using h' False c by (auto simp: d_def)
  qed
qed


subsection \<open>Growing the heap\<close>

lemma align_up_16: "unat x + 15 < 2 ^ 64 \<Longrightarrow> unat (align_up x 16) = (unat x + 15) div 16 * 16"
proof -
  assume x: "unat x + 15 < 2 ^ 64"
  have m: "(15 :: u64) = mask 4" by (simp add: mask_eq_exp_minus_1)
  have "x + 16 - 1 = x + 15" "(16 :: u64) - 1 = 15" by simp_all
  then have "align_up x 16 = (x + 15) AND NOT 15" unfolding align_up_def by (simp only:)
  also have "\<dots> = push_bit 4 (drop_bit 4 (x + 15))" unfolding m by (rule and_not_mask)
  finally show ?thesis
    using x unat_clear_low [of 4 "x + 15"] by (simp add: unat_word_ariths)
qed

lemma align_up_page: "align_up x PAGE_SIZE = page_base (x + 0xFFF)"
proof -
  have "x + 0x1000 - 1 = x + 0xFFF" "(0x1000 :: u64) - 1 = 0xFFF" by simp_all
  then show ?thesis unfolding align_up_def PAGE_SIZE_def page_base_def by (simp only:)
qed

lemma of_nat_unat_u64: "of_nat (unat (w :: u64)) = w"
  by simp

lemma pmm_alloc_only_bitmap: "pmm_alloc s = (p, s') \<Longrightarrow> \<exists>b. s' = s\<lparr>bitmap := b\<rparr>"
  by (cases s rule: pmm_alloc_cases) (auto intro: exI [of _ "bitmap s"])

lemma ensure_table_only_tables:
  fixes s :: "'a vmm_scheme"
  assumes "ensure_table t i s = Some (u, s')"
  shows "\<exists>b m. s' = s\<lparr>bitmap := b, ptes := m\<rparr>"
proof -
  obtain p s1 where a: "pmm_alloc s = (p, s1)" by force
  with pmm_alloc_only_bitmap [OF a] obtain b where "s1 = s\<lparr>bitmap := b\<rparr>" by blast
  note s1 = this
  show ?thesis
  proof (cases "ptes s (slot t i) AND PTE_PRESENT = 0")
    case True
    with assms a s1 show ?thesis
      by (auto simp: ensure_table_def alloc_page_table_def Let_def split: if_splits)
  next
    case False
    then have "s' = s\<lparr>ptes := (ptes s)(slot t i := ptes s (slot t i) OR (PTE_USER OR PTE_WRITE))\<rparr>"
      using assms by (simp add: ensure_table_def Let_def)
    then show ?thesis by (auto intro!: exI [of _ "bitmap s"])
  qed
qed

lemma vmm_map_page_only_tables:
  fixes s :: "'a vmm_scheme"
  assumes "vmm_map_page v p f s = Some s'"
  shows "\<exists>b m. s' = s\<lparr>bitmap := b, ptes := m\<rparr>"
proof -
  from assms obtain t1 s1 t2 s2 t3 s3 where
    "ensure_table (pml4 s) (pml4i v) s = Some (t1, s1)"
    "ensure_table t1 (pdpti v) s1 = Some (t2, s2)" "ensure_table t2 (pdi v) s2 = Some (t3, s3)"
    and s': "s' = s3\<lparr>ptes := (ptes s3)(slot t3 (pti v) := page_base p OR f OR PTE_PRESENT)\<rparr>"
    by (auto simp: vmm_map_page_def bind_eq_Some_conv)
  from this(1-3) [THEN ensure_table_only_tables] s' show ?thesis by force
qed

lemma expand_page_frame:
  fixes s :: "'a heap_scheme"
  assumes "expand_page s = Some s'"
  shows "hdrs s' = hdrs s \<and> head s' = head s \<and> heap_end s' = heap_end s + PAGE_SIZE"
proof -
  obtain p s1 where a: "pmm_alloc s = (p, s1)" by force
  with assms obtain s2 where m: "vmm_map_page (heap_end s1) p HEAP_PAGE_FLAGS s1 = Some s2"
    and s': "s' = s2\<lparr>heap_end := heap_end s2 + PAGE_SIZE\<rparr>"
    by (auto simp: expand_page_def bind_eq_Some_conv split: if_splits)
  from pmm_alloc_only_bitmap [OF a] vmm_map_page_only_tables [OF m] s' show ?thesis by auto
qed

lemma expand_page_total:
  assumes "pmm_wf s" "4 \<le> card (free_frames s)"
  shows "\<exists>s'. expand_page s = Some s' \<and> pmm_wf s' \<and>
    card (free_frames s) \<le> card (free_frames s') + 4"
proof -
  obtain p s1 where a: "pmm_alloc s = (p, s1)" by force
  have "free_frames s \<noteq> {}" using assms(2) by auto
  then have p: "p \<noteq> 0" using pmm.alloc_null_iff [OF assms(1) a] by simp
  have c: "card (free_frames s1) = card (free_frames s) - 1" by (rule pmm.alloc_card [OF assms(1) a])
  then have "3 \<le> card (free_frames s1)" using assms(2) by simp
  from vmm_map_page_total [OF pmm.alloc_inv [OF assms(1) a] this]
  obtain s2 where "vmm_map_page (heap_end s1) p HEAP_PAGE_FLAGS s1 = Some s2" "pmm_wf s2"
    "card (free_frames s1) \<le> card (free_frames s2) + 3" by blast
  with a p c show ?thesis
    by (simp add: expand_page_def pmm_wf_def free_frames_def page_free_def)
qed

text \<open>When \<open>heap_expand\<close> returns: one new free block, appended at the old end of the heap.\<close>

lemma heap_expand_result:
  fixes s :: "'a heap_scheme"
  assumes "heap_expand bytes s = Some (b, s')" "unat bytes + 4095 < 2 ^ 64"
  defines "needed \<equiv> (unat bytes + 4095) div 4096 * 4096"
  shows "b = heap_end s \<and> head s' = head s \<and> heap_end s' = heap_end s + of_nat needed \<and>
    (\<exists>e. hdrs s' = (hdrs s)(heap_end s := e) \<and> bsize e = of_nat needed - 24 \<and> is_free e \<and> nxt e = 0)"
proof -
  define w where "w = align_up bytes PAGE_SIZE"
  have w: "unat w = needed"
    using unat_page_round_up [OF assms(2)] by (simp add: w_def align_up_page needed_def)
  then have wn: "w = of_nat needed" using of_nat_unat_u64 [of w] by simp
  from assms(1) obtain s1 where s1: "for_opt 0 (w div PAGE_SIZE) (\<lambda>i. expand_page) s = Some s1"
    and b: "b = heap_end s" and s': "s' = s1\<lparr>hdrs := (hdrs s1)(heap_end s :=
      \<lparr>bsize = w - sizeof_heap_block, is_free = True, nxt = 0\<rparr>)\<rparr>"
    by (auto simp: heap_expand_def Let_def bind_eq_Some_conv w_def)
  have "hdrs s1 = hdrs s \<and> head s1 = head s \<and> heap_end s1 = heap_end s + w div PAGE_SIZE * PAGE_SIZE"
    by (rule for_opt_rule [OF _ _ s1, where P = "\<lambda>i t. hdrs t = hdrs s \<and> head t = head s \<and>
      heap_end t = heap_end s + i * PAGE_SIZE"]) (auto simp: algebra_simps dest!: expand_page_frame)
  moreover have "w div PAGE_SIZE * PAGE_SIZE = w"
    using w unat_u64 [of w] by (simp add: PAGE_SIZE_def word_unat_eq_iff unat_div unat_word_ariths needed_def)
  ultimately show ?thesis
    using b s' wn by (auto simp: sizeof_heap_block_def)
qed

text \<open>Four free frames per page (one for the data, three for page tables) are enough.\<close>

lemma heap_expand_total:
  assumes "pmm_wf s" "unat bytes + 4095 < 2 ^ 64"
    "4 * ((unat bytes + 4095) div 4096) \<le> card (free_frames s)"
  shows "\<exists>b s'. heap_expand bytes s = Some (b, s') \<and> pmm_wf s' \<and>
    card (free_frames s) \<le> card (free_frames s') + 4 * ((unat bytes + 4095) div 4096)"
proof -
  define w where "w = align_up bytes PAGE_SIZE"
  have u: "unat (w div PAGE_SIZE) = (unat bytes + 4095) div 4096"
  proof -
    have "unat w = (unat bytes + 4095) div 4096 * 4096"
      using unat_page_round_up [OF assms(2)] by (simp add: w_def align_up_page)
    then show ?thesis by (simp add: PAGE_SIZE_def unat_div)
  qed
  have "\<exists>r. for_opt 0 (w div PAGE_SIZE) (\<lambda>i. expand_page) s = Some r \<and> pmm_wf r \<and>
    card (free_frames s) \<le> card (free_frames r) + 4 * unat (w div PAGE_SIZE)"
  proof (rule for_opt_total [where P = "\<lambda>i t. pmm_wf t \<and>
      card (free_frames s) \<le> card (free_frames t) + 4 * unat i"])
    show "pmm_wf s \<and> card (free_frames s) \<le> card (free_frames s) + 4 * unat (0 :: u64)"
      using assms by simp
    show "\<exists>s'. expand_page t = Some s' \<and> pmm_wf s' \<and>
        card (free_frames s) \<le> card (free_frames s') + 4 * unat (i + 1)"
      if i: "i < w div PAGE_SIZE" and t: "pmm_wf t \<and>
        card (free_frames s) \<le> card (free_frames t) + 4 * unat i" for i t
    proof -
      have "unat (i + 1) = unat i + 1" "unat i < unat (w div PAGE_SIZE)"
        using less_inc_le [OF i] i by (simp_all add: word_less_nat_alt)
      moreover from this(2) have "4 \<le> card (free_frames t)" using t assms(3) u by linarith
      ultimately show ?thesis using t expand_page_total [of t] by fastforce
    qed
  qed simp
  then obtain r where r: "for_opt 0 (w div PAGE_SIZE) (\<lambda>i. expand_page) s = Some r" "pmm_wf r"
    "card (free_frames s) \<le> card (free_frames r) + 4 * unat (w div PAGE_SIZE)" by blast
  moreover have "free_frames (r\<lparr>hdrs := h\<rparr>) = free_frames r" for h
    by (simp add: free_frames_def page_free_def)
  ultimately show ?thesis
    by (auto simp: heap_expand_def Let_def w_def [symmetric] u pmm_wf_def)
qed


subsection \<open>Allocation refines first fit\<close>

definition round16 :: "nat \<Rightarrow> nat" where "round16 n = (n + 15) div 16 * 16"
definition round_page :: "nat \<Rightarrow> nat" where "round_page n = (n + 4095) div 4096 * 4096"

lemma round16_bounds: "n \<le> round16 n" "round16 n \<le> n + 15" "8 dvd round16 n"
proof -
  show "n \<le> round16 n" "round16 n \<le> n + 15" 
    using div_mult_mod_eq [of "n + 15" 16] mod_less_divisor [of 16 "n + 15"]
    unfolding round16_def by linarith+
  have "8 dvd (16 :: nat)" by simp
  then show "8 dvd round16 n" unfolding round16_def by (rule dvd_mult)
qed

lemma round_page_bounds: "n \<le> round_page n" "round_page n \<le> n + 4095" "8 dvd round_page n"
proof -
  show "n \<le> round_page n" "round_page n \<le> n + 4095" 
    using div_mult_mod_eq [of "n + 4095" 4096] mod_less_divisor [of 4096 "n + 4095"]
    unfolding round_page_def by linarith+
  have "8 dvd (4096 :: nat)" by simp
  then show "8 dvd round_page n" unfolding round_page_def by (rule dvd_mult)
qed

text \<open>
  The abstract allocator: take the first free block that fits and split it; otherwise append
  whole pages at the end of the heap and carve from those. The result is the address of the
  header taken and the new block list.
\<close>

fun first_fit :: "nat \<Rightarrow> blk list \<Rightarrow> (nat \<times> blk list) option" where
  "first_fit n [] = None"
| "first_fit n ((a, m, f) # bs) =
     (if f \<and> n \<le> m then Some (a, carve n a m @ bs)
      else map_option (\<lambda>(p, cs). (p, (a, m, f) # cs)) (first_fit n bs))"

definition alloc_list :: "nat \<Rightarrow> nat \<Rightarrow> blk list \<Rightarrow> nat \<times> blk list" where
  "alloc_list n hi bs =
     (case first_fit n bs of
        Some r \<Rightarrow> r
      | None \<Rightarrow> (hi, bs @ carve n hi (round_page (n + 24) - 24)))"

lemma first_fit_Some:
  "first_fit n bs = Some (p, cs) \<Longrightarrow>
     \<exists>xs m ys. bs = xs @ (p, m, True) # ys \<and> (\<forall>b \<in> set xs. \<not> fits n b) \<and> n \<le> m \<and>
       cs = xs @ carve n p m @ ys"
proof (induction n bs arbitrary: p cs rule: first_fit.induct)
  case (2 n a m f bs)
  show ?case
  proof (cases "f \<and> n \<le> m")
    case True
    with 2(2) show ?thesis by (intro exI [of _ "[]"] exI [of _ m] exI [of _ bs]) auto
  next
    case False
    with 2(2) obtain ds where "first_fit n bs = Some (p, ds)" "cs = (a, m, f) # ds" by auto
    with 2(1) [OF False] obtain xs k ys where "bs = xs @ (p, k, True) # ys"
      "\<forall>b \<in> set xs. \<not> fits n b" "n \<le> k" "ds = xs @ carve n p k @ ys" by blast
    with False \<open>cs = _\<close> show ?thesis
      by (intro exI [of _ "(a, m, f) # xs"] exI [of _ k] exI [of _ ys]) (auto simp: fits_def)
  qed
qed simp

lemma first_fit_None: "first_fit n bs = None \<longleftrightarrow> (\<forall>b \<in> set bs. \<not> fits n b)"
  by (induction n bs rule: first_fit.induct) (auto simp: fits_def)

lemma unat_request:
  assumes "unat sz + 15 < 2 ^ 64"
  shows "unat (align_up sz 16) = round16 (unat sz)" "8 dvd unat (align_up sz 16)"
  using align_up_16 [OF assms] round16_bounds(3) by (simp_all add: round16_def)

lemma kmalloc_reuse:
  fixes s :: "'a heap_scheme"
  assumes hl: "heap_list s bs" and sz: "sz \<noteq> 0" "unat sz + 64 < 2 ^ 64"
    and ff: "first_fit (round16 (unat sz)) bs = Some (a, cs)"
  shows "\<exists>p h. kmalloc sz s = Some (p, s\<lparr>hdrs := h\<rparr>) \<and> unat p = a + 24 \<and>
    heap_list (s\<lparr>hdrs := h\<rparr>) cs"
proof -
  define w where "w = align_up sz 16"
  have w: "unat w = round16 (unat sz)" "8 dvd unat w" "unat w + 40 < 2 ^ 64"
    using unat_request [of sz] sz round16_bounds [of "unat sz"] by (auto simp: w_def)
  obtain xs m ys where bs: "bs = xs @ (a, m, True) # ys" "\<forall>b \<in> set xs. \<not> fits (unat w) b"
    "unat w \<le> m" and cs: "cs = xs @ carve (unat w) a m @ ys"
    using first_fit_Some [OF ff] unfolding w(1) by blast
  have p: "hpath (hdrs s) (head s) bs 0" and lay: "layout (unat HEAP_START) bs (unat (heap_end s))"
    using hl by (auto simp: heap_list_def)
  obtain c l where c: "find_block (hdrs s) w (head s) 0 = Some (c, l)" "unat c = a" "c \<noteq> 0"
    using find_block_hit [OF p [unfolded bs(1)] bs(2,3)] by blast
  have "a + 24 + m \<le> unat (heap_end s)"
    using layout_bounds [OF lay, of a m True] bs(1) by simp
  then have "unat (c + sizeof_heap_block) = a + 24"
    using c(2) unat_u64 [of "heap_end s"] by (simp add: sizeof_heap_block_def unat_word_ariths)
  moreover have "heap_list (s\<lparr>hdrs := take_block w c (hdrs s)\<rparr>) cs"
    using take_block_hpath [OF p [unfolded bs(1)] lay [unfolded bs(1)] c(2) unat_u64 w(2,3)]
    by (simp add: heap_list_def cs)
  ultimately show ?thesis
    using c sz by (simp add: kmalloc_def w_def [symmetric] Let_def) blast
qed

text \<open>The other branch: no block fits, and the heap grows by whole pages.\<close>

lemma hpath_snoc_last:
  "hpath h p (xs @ [(a, m, f)]) 0 \<Longrightarrow> distinct (List.map fst (xs @ [(a, m, f)])) \<Longrightarrow>
     hpath (h(of_nat a := (h (of_nat a))\<lparr>nxt := q\<rparr>)) p (xs @ [(a, m, f)]) q"
proof -
  assume p: "hpath h p (xs @ [(a, m, f)]) 0" and d: "distinct (List.map fst (xs @ [(a, m, f)]))"
  then obtain r where r: "hpath h p xs r" "r \<noteq> 0" "unat r = a" "unat (bsize (h r)) = m"
    "is_free (h r) = f" by auto
  have "r = of_nat a" using r(3) by auto
  moreover have "unat r \<notin> fst ` set xs" using d r(3) by auto
  ultimately show ?thesis using r by (auto simp: hpath_upd)
qed

lemma layout_distinct: "layout lo bs hi \<Longrightarrow> distinct (List.map fst bs)"
proof (induction bs arbitrary: lo)
  case (Cons b bs)
  obtain a n f where b: "b = (a, n, f)" by (cases b)
  with Cons.prems have "layout (lo + 24 + n) bs hi" "a = lo" by auto
  moreover from layout_addr [OF this(1), of a] this(2) have "a \<notin> fst ` set bs" by auto
  ultimately show ?case using Cons.IH b by simp
qed simp

lemma hpath_last: "hpath h p bs 0 \<Longrightarrow> bs \<noteq> [] \<Longrightarrow> (of_nat (fst (last bs)) :: u64) \<noteq> 0"
proof -
  assume p: "hpath h p bs 0" and "bs \<noteq> []"
  then obtain xs a m f where bs: "bs = xs @ [(a, m, f)]"
    by (cases bs rule: rev_cases) auto
  with p have "\<exists>r :: u64. r \<noteq> 0 \<and> unat r = a" by auto
  then show ?thesis using bs by auto
qed

text \<open>Linking a new block behind the last one.\<close>

lemma append_block:
  fixes s s1 :: "'a heap_scheme"
  assumes hl: "heap_list s bs"
    and s1: "head s1 = head s" "hdrs s1 = (hdrs s)(b := e)" "is_free e" "nxt e = 0"
      "b = heap_end s" "b \<noteq> 0" "unat (heap_end s1) = unat b + 24 + unat (bsize e)" "8 dvd unat (bsize e)"
    and l: "l = (if bs = [] then 0 else of_nat (fst (last bs)))"
    and s2: "s2 = (if l \<noteq> 0 then s1\<lparr>hdrs := (hdrs s1)(l := (hdrs s1 l)\<lparr>nxt := b\<rparr>)\<rparr>
      else if head s1 = 0 then s1\<lparr>head := b\<rparr> else s1)"
  shows "heap_list s2 (bs @ [(unat b, unat (bsize e), True)])"
proof -
  have p: "hpath (hdrs s) (head s) bs 0" and lay: "layout (unat HEAP_START) bs (unat b)"
    using hl unfolding heap_list_def s1(5) by simp_all
  have nb: "unat b \<notin> fst ` set bs" using layout_addr [OF lay] by fastforce
  have lay': "layout (unat HEAP_START) (bs @ [(unat b, unat (bsize e), True)]) (unat (heap_end s1))"
    using lay s1(7,8) by simp
  show ?thesis
  proof (cases "bs = []")
    case True
    then have "head s1 = 0" "s2 = s1\<lparr>head := b\<rparr>" using p s1(1) l s2 by auto
    then have "hpath (hdrs s2) (head s2) (bs @ [(unat b, unat (bsize e), True)]) 0" "heap_end s2 = heap_end s1"
      using True s1(2-4,6) by simp_all
    then show ?thesis unfolding heap_list_def using lay' by (simp only: simp_thms)
  next
    case False
    then obtain xs a m f where bs: "bs = xs @ [(a, m, f)]"
      by (cases bs rule: rev_cases) auto
    have l0: "l = of_nat a" "l \<noteq> 0" using l False bs hpath_last [OF p False] by simp_all
    have "unat l \<in> fst ` set bs"
      using p bs l0(1) by auto
    then have lb: "l \<noteq> b" using nb by auto
    have "hpath (hdrs s1) (head s) bs 0" using p nb s1(2) by (simp add: hpath_upd)
    then have "hpath ((hdrs s1)(l := (hdrs s1 l)\<lparr>nxt := b\<rparr>)) (head s) bs b"
      using layout_distinct [OF lay] unfolding l0(1) bs by (rule hpath_snoc_last)
    then have "hpath (hdrs s2) (head s2) (bs @ [(unat b, unat (bsize e), True)]) 0" "heap_end s2 = heap_end s1"
      using l0(2) s2 s1(1-4,6) lb unfolding hpath_append by (auto intro!: exI [of _ b])
    then show ?thesis unfolding heap_list_def using lay' by (simp only: simp_thms)
  qed
qed

lemma kmalloc_grow:
  fixes s :: "'a heap_scheme"
  assumes hl: "heap_list s bs" and he: "heap_end s \<noteq> 0"
    and sz: "sz \<noteq> 0" "unat (heap_end s) + unat sz + 8192 < 2 ^ 64"
    and ff: "first_fit (round16 (unat sz)) bs = None"
    and k: "kmalloc sz s = Some (p, s')"
  defines "n \<equiv> round16 (unat sz)"
  shows "unat p = unat (heap_end s) + 24 \<and>
    heap_list s' (bs @ carve n (unat (heap_end s)) (round_page (n + 24) - 24)) \<and>
    unat (heap_end s') = unat (heap_end s) + round_page (n + 24)"
proof -
  define w where "w = align_up sz 16"
  have w: "unat w = n" "8 dvd unat w" "unat w + 40 < 2 ^ 64" "n \<le> unat sz + 15"
    using unat_request [of sz] sz round16_bounds [of "unat sz"] by (auto simp: w_def n_def)
  have w24: "unat (w + sizeof_heap_block) = n + 24"
    using w by (simp add: sizeof_heap_block_def unat_word_ariths)
  have R: "n + 24 \<le> round_page (n + 24)" "round_page (n + 24) \<le> n + 24 + 4095"
    "8 dvd round_page (n + 24)"
    by (rule round_page_bounds)+
  have p: "hpath (hdrs s) (head s) bs 0" using hl by (simp add: heap_list_def)
  have none: "\<forall>b \<in> set bs. \<not> fits (unat w) b"
    using ff w(1) by (simp add: first_fit_None n_def)
  define l :: u64 where "l = (if bs = [] then 0 else of_nat (fst (last bs)))"
  have f: "find_block (hdrs s) w (head s) 0 = Some (0, l)"
    using find_block_none [OF p none] by (simp add: l_def)
  from k sz(1) obtain b s1 where x: "heap_expand (w + sizeof_heap_block) s = Some (b, s1)"
    and p': "p = b + sizeof_heap_block"
    and s': "s' = (let s2 = (if l \<noteq> 0 then s1\<lparr>hdrs := (hdrs s1)(l := (hdrs s1 l)\<lparr>nxt := b\<rparr>)\<rparr>
      else if head s1 = 0 then s1\<lparr>head := b\<rparr> else s1) in s2\<lparr>hdrs := take_block w b (hdrs s2)\<rparr>)"
    by (auto simp: kmalloc_def w_def [symmetric] Let_def f bind_eq_Some_conv)
  have "unat (w + sizeof_heap_block) + 4095 < 2 ^ 64" using w24 w sz by simp
  from heap_expand_result [OF x this, unfolded w24, folded round_page_def] obtain e where
    b: "b = heap_end s" and s1: "head s1 = head s" "heap_end s1 = heap_end s + of_nat (round_page (n + 24))"
    "hdrs s1 = (hdrs s)(b := e)" "is_free e" "nxt e = 0" "bsize e = of_nat (round_page (n + 24)) - 24"
    by auto
  have small: "round_page (n + 24) < 2 ^ 64" "24 \<le> round_page (n + 24)" using R w sz by simp_all
  then have ur: "unat (of_nat (round_page (n + 24)) :: u64) = round_page (n + 24)"
    by (simp add: unat_of_nat)
  have be: "unat (bsize e) = round_page (n + 24) - 24"
    using small ur unfolding s1(6) by (subst unat_sub) (simp_all add: word_le_nat_alt)
  have e1: "unat (heap_end s1) = unat (heap_end s) + round_page (n + 24)"
    using R w sz ur unfolding s1(2) by (subst unat_plus_if') simp
  have "8 dvd round_page (n + 24) - 24" using R(3) by (intro dvd_diff_nat) auto
  define s2 where "s2 = (if l \<noteq> 0 then s1\<lparr>hdrs := (hdrs s1)(l := (hdrs s1 l)\<lparr>nxt := b\<rparr>)\<rparr>
      else if head s1 = 0 then s1\<lparr>head := b\<rparr> else s1)"
  have hl2: "heap_list s2 (bs @ [(unat b, unat (bsize e), True)])"
    using append_block [OF hl s1(1,3-5) b _ _ _ l_def s2_def] he b be e1 small
      \<open>8 dvd round_page (n + 24) - 24\<close> by simp
  have s'2: "s' = s2\<lparr>hdrs := take_block w b (hdrs s2)\<rparr>" using s' by (simp add: s2_def Let_def)
  have "heap_list s' (bs @ carve n (unat b) (unat (bsize e)))"
    using take_block_hpath [of "hdrs s2" "head s2" bs "unat b" "unat (bsize e)" True "[]"
        "unat HEAP_START" "unat (heap_end s2)" b w] hl2 w unat_u64 [of "heap_end s2"]
    by (simp add: heap_list_def s'2)
  moreover have "unat p = unat (heap_end s) + 24"
    using sz by (simp add: p' b sizeof_heap_block_def unat_word_ariths)
  moreover have "heap_end s' = heap_end s1" by (simp add: s'2 s2_def)
  ultimately show ?thesis using b be e1 by simp
qed

definition heap_room :: "'a heap_scheme \<Rightarrow> u64 \<Rightarrow> bool" where
  \<comment> \<open>the request does not push the end of the heap past the end of the address space\<close>
  "heap_room s sz \<longleftrightarrow> unat (heap_end s) + unat sz + 8192 < 2 ^ 64"

text \<open>Both branches together.\<close>

lemma kmalloc_alloc_list:
  fixes s :: "'a heap_scheme"
  assumes hl: "heap_list s bs" and he: "heap_end s \<noteq> 0" and sz: "sz \<noteq> 0" "heap_room s sz"
    and k: "kmalloc sz s = Some (p, s')"
  shows "\<exists>a cs. alloc_list (round16 (unat sz)) (unat (heap_end s)) bs = (a, cs) \<and>
    unat p = a + 24 \<and> heap_list s' cs \<and> heap_end s' \<noteq> 0"
proof (cases "first_fit (round16 (unat sz)) bs")
  case None
  have "unat (heap_end s) + unat sz + 8192 < 2 ^ 64" using sz(2) by (simp add: heap_room_def)
  from kmalloc_grow [OF hl he sz(1) this None k] he show ?thesis
    by (auto simp: alloc_list_def None unat_eq_zero)
next
  case (Some r)
  obtain a cs where r: "r = (a, cs)" by (cases r)
  have "unat sz + 64 < 2 ^ 64" using sz(2) by (simp add: heap_room_def)
  from kmalloc_reuse [OF hl sz(1) this Some [unfolded r]] k he show ?thesis
    by (auto simp: alloc_list_def Some r)
qed

text \<open>\<open>kmalloc\<close> returns when a block fits, or when the frames for the new pages are there.\<close>

lemma kmalloc_total:
  fixes s :: "'a heap_scheme"
  assumes hl: "heap_list s bs" and sz: "sz \<noteq> 0" "heap_room s sz" and wf: "pmm_wf s"
    and fr: "4 * (round_page (round16 (unat sz) + 24) div 4096) \<le> card (free_frames s)"
  shows "\<exists>p s'. kmalloc sz s = Some (p, s') \<and> pmm_wf s' \<and>
    card (free_frames s) \<le> card (free_frames s') + 4 * (round_page (round16 (unat sz) + 24) div 4096)"
proof (cases "first_fit (round16 (unat sz)) bs")
  case None
  define w where "w = align_up sz 16"
  have w: "unat w = round16 (unat sz)" "unat w + 40 < 2 ^ 64"
    using unat_request [of sz] sz(2) round16_bounds [of "unat sz"]
    by (auto simp: w_def heap_room_def)
  have w24: "unat (w + sizeof_heap_block) = round16 (unat sz) + 24"
    using w by (simp add: sizeof_heap_block_def unat_word_ariths)
  have "unat (w + sizeof_heap_block) + 4095 < 2 ^ 64"
    using w24 sz(2) round16_bounds(2) [of "unat sz"] by (simp add: heap_room_def)
  then obtain b s' where x: "heap_expand (w + sizeof_heap_block) s = Some (b, s')" "pmm_wf s'"
    "card (free_frames s) \<le> card (free_frames s') + 4 * (round_page (round16 (unat sz) + 24) div 4096)"
    using heap_expand_total [OF wf, of "w + sizeof_heap_block"] fr unfolding w24 round_page_def by auto
  have fr': "free_frames (s'\<lparr>hdrs := h\<rparr>) = free_frames s'" "free_frames (s'\<lparr>head := a, hdrs := h\<rparr>) = free_frames s'"
    for h a by (simp_all add: free_frames_def page_free_def)
  have "hpath (hdrs s) (head s) bs 0" "\<forall>b \<in> set bs. \<not> fits (unat w) b"
    using hl None w(1) by (simp_all add: heap_list_def first_fit_None)
  note find_block_none [OF this]
  then show ?thesis
    using sz(1) x fr' by (simp add: kmalloc_def w_def [symmetric] Let_def pmm_wf_def)
next
  case (Some r)
  obtain a cs where r: "r = (a, cs)" by (cases r)
  have "unat sz + 64 < 2 ^ 64" using sz(2) by (simp add: heap_room_def)
  from kmalloc_reuse [OF hl sz(1) this Some [unfolded r]] wf show ?thesis
    by (auto simp: pmm_wf_def free_frames_def page_free_def)
qed

subsection \<open>The live regions\<close>

lemma hpath_unique: "hpath h p bs 0 \<Longrightarrow> hpath h p cs 0 \<Longrightarrow> bs = cs"
proof (induction bs arbitrary: p cs)
  case Nil
  then show ?case by (cases cs) auto
next
  case (Cons b bs)
  obtain a n f where "b = (a, n, f)" by (cases b)
  with Cons show ?case by (cases cs) auto
qed

lemma heap_list_unique: "heap_list s bs \<Longrightarrow> heap_list s cs \<Longrightarrow> bs = cs"
  by (auto simp: heap_list_def intro: hpath_unique)

definition heap_inv :: "'a heap_scheme \<Rightarrow> bool" where
  "heap_inv s \<longleftrightarrow> heap_end s \<noteq> 0 \<and> (\<exists>bs. heap_list s bs)"

definition live :: "'a heap_scheme \<Rightarrow> (u64 \<times> nat) set" where
  "live s = {(p, m). \<exists>bs a. heap_list s bs \<and> (a, m, False) \<in> set bs \<and> unat p = a + 24}"

definition used :: "blk list \<Rightarrow> (nat \<times> nat) set" where
  "used bs = {(a, m). (a, m, False) \<in> set bs}"

lemma live_heap_list: "heap_list s bs \<Longrightarrow> (p, m) \<in> live s \<longleftrightarrow> (\<exists>a. (a, m) \<in> used bs \<and> unat p = a + 24)"
  by (auto simp: live_def used_def dest: heap_list_unique)

lemma used_append [simp]: "used (xs @ ys) = used xs \<union> used ys"
  by (auto simp: used_def)

lemma used_carve: "used (carve n a m) = {(a, if n + 40 \<le> m then n else m)}"
  by (auto simp: used_def carve_def)

lemma alloc_list_used:
  assumes "alloc_list n hi bs = (a, cs)" "layout lo bs hi"
  shows "\<exists>m. n \<le> m \<and> used cs = insert (a, m) (used bs) \<and> a \<notin> fst ` used bs"
proof (cases "first_fit n bs")
  case None
  with assms have a: "a = hi" "cs = bs @ carve n hi (round_page (n + 24) - 24)"
    by (auto simp: alloc_list_def)
  have "n + 24 \<le> round_page (n + 24)" by (rule round_page_bounds)
  moreover have "a \<notin> fst ` used bs"
    using layout_addr [OF assms(2), of hi] a(1) by (force simp: used_def)
  moreover have "used cs = insert (a, if n + 40 \<le> round_page (n + 24) - 24 then n
      else round_page (n + 24) - 24) (used bs)" using a by (simp add: used_carve)
  ultimately show ?thesis
    by (intro exI [of _ "if n + 40 \<le> round_page (n + 24) - 24 then n else round_page (n + 24) - 24"]) auto
next
  case (Some r)
  with assms obtain xs m ys where bs: "bs = xs @ (a, m, True) # ys" "n \<le> m" "cs = xs @ carve n a m @ ys"
    using first_fit_Some [of n bs a cs] by (auto simp: alloc_list_def)
  have "used bs = used xs \<union> used ys" by (auto simp: used_def bs)
  moreover have "a \<notin> fst ` used bs"
    using layout_distinct [OF assms(2)] by (force simp: bs used_def)
  ultimately show ?thesis using bs by (auto simp: used_carve)
qed

lemma layout_apart:
  "layout lo bs hi \<Longrightarrow> (a, n, f) \<in> set bs \<Longrightarrow> (b, m, g) \<in> set bs \<Longrightarrow> (a, n, f) \<noteq> (b, m, g) \<Longrightarrow>
     a + 24 + n \<le> b \<or> b + 24 + m \<le> a"
proof (induction bs arbitrary: lo)
  case (Cons x bs)
  obtain c k h where x: "x = (c, k, h)" by (cases x)
  with Cons.prems have lay: "layout (lo + 24 + k) bs hi" "c = lo" by auto
  with Cons x show ?case by (auto dest: layout_bounds [OF lay(1)])
qed simp

subsection \<open>Release\<close>

definition free_at :: "nat \<Rightarrow> blk list \<Rightarrow> blk list" where
  "free_at a bs = List.map (\<lambda>(b, m, f). (b, m, f \<or> b = a)) bs"

lemma free_at_hpath:
  "hpath h p bs q \<Longrightarrow> unat c = a \<Longrightarrow> hpath (h(c := (h c)\<lparr>is_free := True\<rparr>)) p (free_at a bs) q"
proof (induction bs arbitrary: p)
  case (Cons b bs)
  obtain d n f where "b = (d, n, f)" by (cases b)
  moreover have "unat p = unat c \<longleftrightarrow> p = c" by (simp add: word_unat_eq_iff)
  ultimately show ?case using Cons by (auto simp: free_at_def)
qed (simp add: free_at_def)

lemma free_at_layout: "layout lo bs hi \<Longrightarrow> layout lo (free_at a bs) hi"
  by (induction bs arbitrary: lo) (auto simp: free_at_def)

lemma used_free_at: "used (free_at a bs) = used bs - {a} \<times> UNIV"
  by (auto simp: used_def free_at_def image_iff split: prod.splits)

lemma used_merge_free: "used (merge_free bs) = used bs"
  by (simp add: used_def merge_free_used)

text \<open>\<open>kfree\<close> of a pointer just behind any header of the list.\<close>

lemma kfree_merge:
  fixes s :: "'a heap_scheme"
  assumes "heap_list s bs" "p \<noteq> 0" "unat p = a + 24"
  shows "\<exists>h. kfree p s = Some (s\<lparr>hdrs := h\<rparr>) \<and>
    heap_list (s\<lparr>hdrs := h\<rparr>) (merge_free (free_at a bs))"
proof -
  have u: "unat (p - sizeof_heap_block) = a"
    using assms(3) by (subst unat_sub) (simp_all add: sizeof_heap_block_def word_le_nat_alt)
  have p: "hpath (hdrs s) (head s) bs 0" and lay: "layout (unat HEAP_START) bs (unat (heap_end s))"
    using assms(1) by (simp_all add: heap_list_def)
  from coalesce_refines [OF free_at_hpath [OF p u] free_at_layout [OF lay] unat_u64]
  obtain h where "coalesce ((hdrs s)(p - sizeof_heap_block :=
      (hdrs s (p - sizeof_heap_block))\<lparr>is_free := True\<rparr>)) (head s) = Some h"
    "hpath h (head s) (merge_free (free_at a bs)) 0" by blast
  with assms(2) merge_free_layout [OF free_at_layout [OF lay]] show ?thesis
    by (auto simp: kfree_def Let_def heap_list_def)
qed

interpretation kheap: kernel_heap kmalloc kfree live heap_inv heap_room
proof unfold_locales
  fix s s' :: "'a heap_scheme" and n p
  assume inv: "heap_inv s" and n: "n \<noteq> 0" "heap_room s n" and k: "kmalloc n s = Some (p, s')"
  then obtain bs where bs: "heap_list s bs" "heap_end s \<noteq> 0" by (auto simp: heap_inv_def)
  from kmalloc_alloc_list [OF bs n k] obtain a cs where
    a: "alloc_list (round16 (unat n)) (unat (heap_end s)) bs = (a, cs)" and p: "unat p = a + 24"
    and cs: "heap_list s' cs" "heap_end s' \<noteq> 0" by blast
  have "layout (unat HEAP_START) bs (unat (heap_end s))" using bs by (simp add: heap_list_def)
  from alloc_list_used [OF a this] obtain m where m: "round16 (unat n) \<le> m"
    "used cs = insert (a, m) (used bs)" "a \<notin> fst ` used bs" by blast
  have "unat n \<le> m" using round16_bounds(1) [of "unat n"] m(1) by simp
  moreover have "(p, m) \<notin> live s" using m(3) p by (force simp: live_heap_list [OF bs(1)])
  moreover have "live s' = insert (p, m) (live s)"
    using m(2) p by (auto simp: live_heap_list [OF bs(1)] live_heap_list [OF cs(1)] word_unat_eq_iff)
  ultimately show "heap_inv s' \<and> p \<noteq> 0 \<and>
      (\<exists>m. unat n \<le> m \<and> (p, m) \<notin> live s \<and> live s' = insert (p, m) (live s))"
    using cs p by (auto simp: heap_inv_def)
next
  fix s :: "'a heap_scheme" and r q
  assume inv: "heap_inv s" and r: "r \<in> live s" and q: "q \<in> live s" and ne: "r \<noteq> q"
  then obtain bs where bs: "heap_list s bs" by (auto simp: heap_inv_def)
  then have lay: "layout (unat HEAP_START) bs (unat (heap_end s))" by (simp add: heap_list_def)
  obtain a where a: "(a, snd r, False) \<in> set bs" "unat (fst r) = a + 24"
    using r live_heap_list [OF bs, of "fst r" "snd r"] by (auto simp: used_def)
  obtain b where b: "(b, snd q, False) \<in> set bs" "unat (fst q) = b + 24"
    using q live_heap_list [OF bs, of "fst q" "snd q"] by (auto simp: used_def)
  have "(a, snd r, False) \<noteq> (b, snd q, False)"
    using ne a(2) b(2) by (auto simp: prod_eq_iff word_unat_eq_iff)
  with layout_apart [OF lay a(1) b(1)] a(2) b(2) show "regions_apart r q"
    by (auto simp: regions_apart_def)
next
  fix s :: "'a heap_scheme" and p m
  assume inv: "heap_inv s" and l: "(p, m) \<in> live s"
  then obtain bs where bs: "heap_list s bs" "heap_end s \<noteq> 0" by (auto simp: heap_inv_def)
  obtain a where a: "(a, m) \<in> used bs" "unat p = a + 24"
    using l live_heap_list [OF bs(1)] by auto
  from a(2) have "p \<noteq> 0" by auto
  from kfree_merge [OF bs(1) this a(2)] obtain h where
    h: "kfree p s = Some (s\<lparr>hdrs := h\<rparr>)" "heap_list (s\<lparr>hdrs := h\<rparr>) (merge_free (free_at a bs))"
    by blast
  have lay: "layout (unat HEAP_START) bs (unat (heap_end s))" using bs(1) by (simp add: heap_list_def)
  have "(a, k) \<in> used bs \<Longrightarrow> k = m" for k
    using a(1) layout_distinct [OF lay] by (auto simp: used_def dest: eq_key_imp_eq_value)
  note uniq = this
  have "(r, k) \<in> live (s\<lparr>hdrs := h\<rparr>) \<longleftrightarrow> (r, k) \<in> live s - {(p, m)}" for r k
  proof -
    have "unat r = a + 24 \<longleftrightarrow> r = p" using a(2) by (simp add: word_unat_eq_iff)
    moreover have "(r, k) \<in> live (s\<lparr>hdrs := h\<rparr>) \<longleftrightarrow>
        (\<exists>b. (b, k) \<in> used bs \<and> unat r = b + 24 \<and> b \<noteq> a)"
      unfolding live_heap_list [OF h(2)] used_merge_free used_free_at by blast
    ultimately show ?thesis
      unfolding Diff_iff live_heap_list [OF bs(1)] using uniq by auto
  qed
  then have "live (s\<lparr>hdrs := h\<rparr>) = live s - {(p, m)}" by auto
  with h bs(2) show "\<exists>s'. kfree p s = Some s' \<and> heap_inv s' \<and> live s' = live s - {(p, m)}"
    by (auto simp: heap_inv_def)
qed


subsection \<open>Properties\<close>

text \<open>
  C8. \<open>kmalloc\<close> implements the abstract allocator: with enough free frames it returns, the
  pointer it returns is just behind the header the first-fit search (or the growth of the
  heap) picks, and the block list afterwards is the one \<open>alloc_list\<close> computes.
\<close>

theorem kmalloc_refines_first_fit:
  fixes s :: "'a heap_scheme"
  assumes "heap_list s bs" and "heap_end s \<noteq> 0" and "sz \<noteq> 0" and "heap_room s sz" and "pmm_wf s"
    and "4 * (round_page (round16 (unat sz) + 24) div 4096) \<le> card (free_frames s)"
  shows "\<exists>p s'. kmalloc sz s = Some (p, s') \<and>
    unat p = fst (alloc_list (round16 (unat sz)) (unat (heap_end s)) bs) + 24 \<and>
    heap_list s' (snd (alloc_list (round16 (unat sz)) (unat (heap_end s)) bs))"
proof -
  from kmalloc_total [OF assms(1,3-6)] obtain p s' where k: "kmalloc sz s = Some (p, s')" by blast
  with kmalloc_alloc_list [OF assms(1-4) k] show ?thesis by auto
qed

text \<open>
  C9. Two successful allocations in a row return regions of at least the requested sizes
  that overlap neither each other nor any region that was live before, and none of those is
  lost.
\<close>

theorem kmalloc_regions_disjoint:
  fixes s :: "'a heap_scheme"
  assumes "heap_inv s" and "n \<noteq> 0" and "heap_room s n" and "kmalloc n s = Some (p, s')"
    and "k \<noteq> 0" and "heap_room s' k" and "kmalloc k s' = Some (q, s'')"
  shows "\<exists>m l. unat n \<le> m \<and> unat k \<le> l \<and> (p, m) \<in> live s'' \<and> (q, l) \<in> live s'' \<and>
    regions_apart (p, m) (q, l) \<and>
    (\<forall>r \<in> live s. r \<in> live s'' \<and> regions_apart (p, m) r \<and> regions_apart (q, l) r)"
  by (rule kheap.alloc_twice [OF assms])

text \<open>
  C10. \<open>kfree\<close> of a live region always returns; it removes exactly that region from the
  live ones, and afterwards no two neighbouring blocks of the list are both free.
\<close>

theorem kfree_coalesces:
  fixes s :: "'a heap_scheme"
  assumes "heap_inv s" and "(p, m) \<in> live s"
  shows "\<exists>s' bs. kfree p s = Some s' \<and> heap_inv s' \<and> live s' = live s - {(p, m)} \<and>
    heap_list s' bs \<and> no_free_pair bs"
proof -
  obtain s' where s': "kfree p s = Some s'" "heap_inv s'" "live s' = live s - {(p, m)}"
    using kheap.release_live [OF assms] by blast
  obtain bs a where "heap_list s bs" "unat p = a + 24"
    using assms(2) by (auto simp: live_def)
  moreover from this(2) have "p \<noteq> 0" by auto
  ultimately obtain h where "kfree p s = Some (s\<lparr>hdrs := h\<rparr>)"
    "heap_list (s\<lparr>hdrs := h\<rparr>) (merge_free (free_at a bs))"
    using kfree_merge by blast
  with s' merge_free_pairs show ?thesis by auto
qed

text \<open>C11. Releasing what was just allocated restores the set of live regions.\<close>

theorem kmalloc_kfree_restores:
  fixes s :: "'a heap_scheme"
  assumes "heap_inv s" and "n \<noteq> 0" and "heap_room s n" and "kmalloc n s = Some (p, s')"
  shows "\<exists>s''. kfree p s' = Some s'' \<and> heap_inv s'' \<and> live s'' = live s"
  by (rule kheap.alloc_release [OF assms])


subsection \<open>Every page of the heap is backed by a frame of its own\<close>

lemma u64_eq_bits: "x = y \<longleftrightarrow> (\<forall>n < 64. bit x n = bit y n)" for x y :: u64
  by (auto intro: bit_word_eqI)

lemma mask9: "(0x1FF :: u64) = mask 9" by (simp add: mask_eq_exp_minus_1)

lemma index_eq_iff:
  fixes v w :: u64
  shows "drop_bit k v AND 0x1FF = drop_bit k w AND 0x1FF \<longleftrightarrow> (\<forall>n < 9. bit v (k + n) = bit w (k + n))"
proof -
  have m: "bit (drop_bit k x AND 0x1FF) n \<longleftrightarrow> n < 9 \<and> bit x (k + n)" for x :: u64 and n
    unfolding mask9 by (auto simp: bit_simps)
  show ?thesis unfolding u64_eq_bits m
  proof (rule iffI; intro allI impI)
    fix n :: nat
    assume "\<forall>n < 64. (n < 9 \<and> bit v (k + n)) = (n < 9 \<and> bit w (k + n))" "n < 9"
    from this(1) [rule_format, of n] this(2) show "bit v (k + n) = bit w (k + n)" by simp
  qed auto
qed

lemma same_page_bits: "same_page v w \<longleftrightarrow> (\<forall>n. 12 \<le> n \<and> n < 48 \<longrightarrow> bit v n = bit w n)"
proof -
  have "(\<forall>n. 12 \<le> n \<and> n < 48 \<longrightarrow> bit v n = bit w n) \<longleftrightarrow>
    (\<forall>n < 9. bit v (39 + n) = bit w (39 + n)) \<and> (\<forall>n < 9. bit v (30 + n) = bit w (30 + n)) \<and>
    (\<forall>n < 9. bit v (21 + n) = bit w (21 + n)) \<and> (\<forall>n < 9. bit v (12 + n) = bit w (12 + n))"
    (is "?l \<longleftrightarrow> ?r")
  proof
    assume r: ?r
    show ?l
    proof (intro allI impI)
      fix n :: nat
      assume n: "12 \<le> n \<and> n < 48"
      consider "n \<ge> 39" | "n \<ge> 30" "n < 39" | "n \<ge> 21" "n < 30" | "n < 21" by linarith
      then show "bit v n = bit w n"
      proof cases
        case 1 with n r [THEN conjunct1, rule_format, of "n - 39"] show ?thesis by simp
      next
        case 2 with r [THEN conjunct2, THEN conjunct1, rule_format, of "n - 30"] show ?thesis by simp
      next
        case 3 with r [THEN conjunct2, THEN conjunct2, THEN conjunct1, rule_format, of "n - 21"]
        show ?thesis by simp
      next
        case 4 with n r [THEN conjunct2, THEN conjunct2, THEN conjunct2, rule_format, of "n - 12"]
        show ?thesis by simp
      qed
    qed
  qed auto
  then show ?thesis
    by (simp add: same_page_def pml4i_def pdpti_def pdi_def pti_def index_eq_iff)
qed

lemma heap_address_bits:
  assumes "HEAP_START \<le> v" "30 \<le> n" "n < 64"
  shows "bit v n"
proof -
  have h: "unat HEAP_START = (2 ^ 34 - 1) * 2 ^ 30" by (simp add: HEAP_START_def)
  have "(2 ^ 34 - 1) * 2 ^ 30 \<le> unat v" using assms(1) by (simp only: word_le_nat_alt h)
  then have "2 ^ 34 - 1 \<le> unat v div 2 ^ 30"
    by (subst less_eq_div_iff_mult_less_eq) simp_all
  moreover have "unat v div 2 ^ 30 < 2 ^ 34" using unat_u64 [of v] by (simp add: div_less_iff_less_mult)
  ultimately have "unat (drop_bit 30 v) = unat (mask 34 :: u64)"
    by (simp add: unat_drop_bit_eq drop_bit_eq_div [where 'a = nat] mask_eq_exp_minus_1)
  then have "drop_bit 30 v = mask 34" by (simp only: word_unat_eq_iff)
  then have "bit (drop_bit 30 v) (n - 30) = bit (mask 34 :: u64) (n - 30)" by simp
  moreover have "n - 30 < 34" using assms(2,3) by linarith
  ultimately show ?thesis using assms(2,3) by (simp add: bit_simps)
qed

lemma heap_same_page:
  assumes "HEAP_START \<le> v" "HEAP_START \<le> w"
  shows "same_page v w \<longleftrightarrow> page_base v = page_base w"
proof -
  have high: "bit v n = bit w n" if "48 \<le> n" "n < 64" for n
    using that heap_address_bits [OF assms(1), of n] heap_address_bits [OF assms(2), of n] by simp
  show ?thesis
    unfolding same_page_bits u64_eq_bits bit_page_base
  proof (rule iffI; intro allI impI)
    fix n :: nat
    assume mid: "\<forall>n. 12 \<le> n \<and> n < 48 \<longrightarrow> bit v n = bit w n" and n: "n < 64"
    show "(12 \<le> n \<and> bit v n) = (12 \<le> n \<and> bit w n)"
      using high [of n] mid n by (cases "n < 48") auto
  next
    fix n :: nat
    assume e: "\<forall>n < 64. (12 \<le> n \<and> bit v n) = (12 \<le> n \<and> bit w n)" and n: "12 \<le> n \<and> n < 48"
    from e [rule_format, of n] n show "bit v n = bit w n" by simp
  qed
qed

definition heap_backed :: "'a heap_scheme \<Rightarrow> bool" where
  "heap_backed s \<longleftrightarrow> vmm_inv s \<and> page_aligned (heap_end s) \<and> HEAP_START \<le> heap_end s \<and>
     (\<forall>v. HEAP_START \<le> v \<longrightarrow> path_4k s v) \<and>
     (\<forall>v. HEAP_START \<le> v \<longrightarrow> v < heap_end s \<longrightarrow>
        (\<exists>f. mapping s v = Some (f OR HEAP_PAGE_FLAGS) \<and> page_aligned f \<and> f \<noteq> 0 \<and> f \<notin> free_frames s)) \<and>
     (\<forall>v w. HEAP_START \<le> v \<longrightarrow> v < heap_end s \<longrightarrow> HEAP_START \<le> w \<longrightarrow> w < heap_end s \<longrightarrow>
        mapping s v = mapping s w \<longrightarrow> page_base v = page_base w)"

lemma vmm_map_page_path: "vmm_inv s \<Longrightarrow> path_4k s v \<Longrightarrow> vmm_map_page v p f s = Some s' \<Longrightarrow>
  path_4k s w \<Longrightarrow> path_4k s' w"
proof -
  assume a: "vmm_inv s" "path_4k s v" "vmm_map_page v p f s = Some s'" "path_4k s w"
  obtain t s3 where st: "tree_step s s3" and t: "tab s3 [pml4i v, pdpti v, pdi v] = Some t"
    and s': "s' = s3\<lparr>ptes := (ptes s3)(slot t (pti v) := page_base p OR f OR PTE_PRESENT)\<rparr>"
    by (rule vmm_map_page_walk [OF a(1-3)])
  have "vmm_inv s3" using st by (simp add: tree_step_def)
  from leaf_store(4) [OF this t, where e = "page_base p OR f OR PTE_PRESENT"]
    path_4k_step [OF st a(4)] show ?thesis by (simp add: s')
qed

lemma vmm_inv_less_free:
  fixes s :: "'a vmm_scheme" and s' :: "'b vmm_scheme"
  assumes "vmm_inv s" "pmm_wf s'" "ptes s' = ptes s" "pml4 s' = pml4 s" "hhdm_offset s' = hhdm_offset s"
    "page_count s' = page_count s" "free_frames s' \<subseteq> free_frames s"
  shows "vmm_inv s' \<and> (\<forall>v. mapping s' v = mapping s v) \<and> (\<forall>v. path_4k s' v = path_4k s v)"
proof -
  have n: "next_table s' t i = next_table s t i" for t i
    by (rule next_table_cong) (simp_all add: assms)
  have ta: "table_at s' t q = table_at s t q" for t q
    by (induction q arbitrary: t) (simp_all add: n cong: bind_option_cong)
  then have tabs: "tab s' q = tab s q" for q by (simp add: tab_def assms)
  have "direct_map_ok s'" using assms(1) by (simp add: vmm_inv_def direct_map_ok_def assms)
  then have "vmm_inv s'"
    using assms(1,2,7) unfolding vmm_inv_def tabs assms(5) by blast
  then show ?thesis by (simp add: mapping_def path_4k_def huge_at_def tabs assms)
qed

lemma heap_flags_base: "page_aligned f \<Longrightarrow> page_base (f OR HEAP_PAGE_FLAGS) = f"
  by (simp add: page_base_or page_base_aligned HEAP_PAGE_FLAGS_def PTE_PRESENT_def PTE_WRITE_def
      page_base_small)

text \<open>What one turn of the loop does to the address space.\<close>

lemma expand_page_mapping:
  fixes s :: "'a heap_scheme"
  assumes inv: "vmm_inv s" and path: "path_4k s (heap_end s)" and x: "expand_page s = Some s'"
    and room: "unat (heap_end s) + 4096 < 2 ^ 64"
  shows "\<exists>p. p \<in> free_frames s \<and> p \<noteq> 0 \<and> page_aligned p \<and> vmm_inv s' \<and>
    free_frames s' \<subseteq> free_frames s - {p} \<and> unat (heap_end s') = unat (heap_end s) + 4096 \<and>
    (\<forall>v. mapping s' v = (if same_page (heap_end s) v then Some (p OR HEAP_PAGE_FLAGS) else mapping s v)) \<and>
    (\<forall>v. path_4k s v \<longrightarrow> path_4k s' v) \<and> p = fst (pmm_alloc s)"
proof -
  obtain p s1 where a: "pmm_alloc s = (p, s1)" by force
  with x obtain s2 where p: "p \<noteq> 0" and m: "vmm_map_page (heap_end s1) p HEAP_PAGE_FLAGS s1 = Some s2"
    and s': "s' = s2\<lparr>heap_end := heap_end s2 + PAGE_SIZE\<rparr>"
    by (auto simp: expand_page_def bind_eq_Some_conv split: if_splits)
  note al1 = pmm.alloc_some [OF vmm_inv_pmm [OF inv] a p]
  have he: "heap_end s1 = heap_end s" "heap_end s2 = heap_end s"
    using pmm_alloc_only_bitmap [OF a] vmm_map_page_only_tables [OF m] by auto
  have s1: "vmm_inv s1" "\<And>v. mapping s1 v = mapping s v" "\<And>v. path_4k s1 v = path_4k s v"
    using vmm_inv_less_free [OF inv al1(4)] pmm_alloc_vmm [OF a] al1(2) by auto
  have path1: "path_4k s1 (heap_end s1)" using path by (simp add: s1(3) he)
  note mp = vmm_map_page_effect [OF s1(1) path1 m]
  have e: "page_base p OR HEAP_PAGE_FLAGS OR PTE_PRESENT = p OR HEAP_PAGE_FLAGS"
    using al1(3) by (simp add: page_base_aligned HEAP_PAGE_FLAGS_def PTE_PRESENT_def PTE_WRITE_def
        or.assoc)
  have s2': "vmm_inv s' \<and> (\<forall>v. mapping s' v = mapping s2 v) \<and> (\<forall>v. path_4k s' v = path_4k s2 v)"
    by (rule vmm_inv_less_free) (use mp in \<open>auto simp: s' pmm_wf_def free_frames_def page_free_def vmm_inv_def\<close>)
  have free': "free_frames s' = free_frames s2" by (simp add: s' free_frames_def page_free_def)
  have "unat (heap_end s') = unat (heap_end s) + 4096"
    using room by (simp add: s' he PAGE_SIZE_def unat_word_ariths)
  then show ?thesis
    using al1 p mp s2' free' e vmm_map_page_path [OF s1(1) path1 m]
    by (intro exI [of _ p]) (auto simp: he s1 a)
qed

lemma div_eq_last:
  fixes x k :: nat
  assumes "x < k * 4096 + 4096"
  shows "x div 4096 * 4096 = k * 4096 \<longleftrightarrow> \<not> x < k * 4096"
proof -
  have "x div 4096 < k + 1" using assms by (simp add: div_less_iff_less_mult)
  moreover have "k \<le> x div 4096 \<longleftrightarrow> k * 4096 \<le> x" by (simp add: less_eq_div_iff_mult_less_eq)
  ultimately show ?thesis by auto
qed

text \<open>Below the new end, the addresses of the last page are those not below the old end.\<close>

lemma last_page:
  assumes al: "page_aligned e" and e: "HEAP_START \<le> e" "unat e' = unat e + 4096"
    and v: "HEAP_START \<le> v" "v < e'"
  shows "same_page e v \<longleftrightarrow> \<not> v < e" "same_page e v \<longleftrightarrow> page_base v = e"
proof -
  show s: "same_page e v \<longleftrightarrow> page_base v = e"
    using heap_same_page [OF e(1) v(1)] page_base_aligned [OF al] by auto
  obtain k where k: "unat e = k * 4096" using al by (auto simp: page_aligned_def)
  moreover have "unat v < k * 4096 + 4096" using v(2) e(2) k by (simp add: word_less_nat_alt)
  then show "same_page e v \<longleftrightarrow> \<not> v < e"
    unfolding s word_less_nat_alt word_unat_eq_iff unat_page_base k by (rule div_eq_last)
qed

lemma expand_page_backed:
  fixes s :: "'a heap_scheme"
  assumes b: "heap_backed s" and x: "expand_page s = Some s'"
    and room: "unat (heap_end s) + 4096 < 2 ^ 64"
  shows "heap_backed s'"
proof -
  have inv: "vmm_inv s" and al: "page_aligned (heap_end s)" and hs: "HEAP_START \<le> heap_end s"
    and path: "\<And>v. HEAP_START \<le> v \<Longrightarrow> path_4k s v"
    using b by (auto simp: heap_backed_def)
  obtain p where p: "p \<in> free_frames s" "p \<noteq> 0" "page_aligned p" and inv': "vmm_inv s'"
    and sub: "free_frames s' \<subseteq> free_frames s - {p}" and end': "unat (heap_end s') = unat (heap_end s) + 4096"
    and map': "\<And>v. mapping s' v =
      (if same_page (heap_end s) v then Some (p OR HEAP_PAGE_FLAGS) else mapping s v)"
    and path': "\<And>v. path_4k s v \<Longrightarrow> path_4k s' v"
    using expand_page_mapping [OF inv path [OF hs] x room] by blast
  note last = last_page [OF al hs end']
  have leaf: "\<exists>f. mapping s' v = Some (f OR HEAP_PAGE_FLAGS) \<and> page_aligned f \<and> f \<noteq> 0 \<and>
      f \<notin> free_frames s' \<and> (f = p \<longleftrightarrow> \<not> v < heap_end s) \<and> (v < heap_end s \<longrightarrow> mapping s v = mapping s' v)"
    if v: "HEAP_START \<le> v" "v < heap_end s'" for v
  proof (cases "v < heap_end s")
    case True
    then obtain f where "mapping s v = Some (f OR HEAP_PAGE_FLAGS)" "page_aligned f" "f \<noteq> 0"
      "f \<notin> free_frames s" using b v(1) by (auto simp: heap_backed_def)
    with True last(1) [OF v] map' sub p(1) show ?thesis by auto
  qed (use last(1) [OF v] map' sub p in auto)
  have "page_base v = page_base w" if v: "HEAP_START \<le> v" "v < heap_end s'"
    and w: "HEAP_START \<le> w" "w < heap_end s'" and eq: "mapping s' v = mapping s' w" for v w
  proof -
    obtain f where f: "mapping s' v = Some (f OR HEAP_PAGE_FLAGS)" "page_aligned f"
      "f = p \<longleftrightarrow> \<not> v < heap_end s" "v < heap_end s \<longrightarrow> mapping s v = mapping s' v" using leaf [OF v] by blast
    obtain g where g: "mapping s' w = Some (g OR HEAP_PAGE_FLAGS)" "page_aligned g"
      "g = p \<longleftrightarrow> \<not> w < heap_end s" "w < heap_end s \<longrightarrow> mapping s w = mapping s' w" using leaf [OF w] by blast
    have "Some (f OR HEAP_PAGE_FLAGS) = Some (g OR HEAP_PAGE_FLAGS)" unfolding f(1) [symmetric] g(1) [symmetric] by (rule eq)
    then have "f = g" using heap_flags_base [OF f(2)] heap_flags_base [OF g(2)] by (metis option.inject)
    then have vw: "v < heap_end s \<longleftrightarrow> w < heap_end s" using f(3) g(3) by blast
    show ?thesis
    proof (cases "v < heap_end s")
      case True
      then have "mapping s v = mapping s w" using f(4) g(4) eq vw by simp
      with True vw b v(1) w(1) show ?thesis unfolding heap_backed_def by blast
    next
      case False
      with vw last [OF v] last [OF w] show ?thesis by simp
    qed
  qed
  moreover have "page_aligned (heap_end s')" "HEAP_START \<le> heap_end s'"
    using al hs end' by (simp_all add: page_aligned_def word_le_nat_alt)
  ultimately show ?thesis
    unfolding heap_backed_def using inv' leaf path path' by blast
qed

lemma heap_backed_cong:
  fixes s s' :: "'a heap_scheme"
  assumes "ptes s' = ptes s" "pml4 s' = pml4 s" "hhdm_offset s' = hhdm_offset s"
    "page_count s' = page_count s" "bitmap s' = bitmap s" "heap_end s' = heap_end s" "heap_backed s"
  shows "heap_backed s'"
proof -
  have f: "free_frames s' = free_frames s"
    by (simp add: free_frames_def page_free_def assms(4,5))
  have "vmm_inv s" "pmm_wf s'" using assms(4,7) by (simp_all add: heap_backed_def vmm_inv_def pmm_wf_def)
  then have e: "vmm_inv s'" "mapping s' v = mapping s v" "path_4k s' v = path_4k s v" for v
    using vmm_inv_less_free [of s s'] assms(1-4) f by auto
  have "heap_backed s' \<longleftrightarrow> heap_backed s"
    unfolding heap_backed_def by (simp only: e f assms(6) \<open>vmm_inv s\<close>)
  with assms(7) show ?thesis by simp
qed

lemma heap_expand_backed:
  fixes s :: "'a heap_scheme"
  assumes b: "heap_backed s" and x: "heap_expand bytes s = Some (a, s')"
    and room: "unat (heap_end s) + unat bytes + 4095 < 2 ^ 64"
  shows "heap_backed s'"
proof -
  define w where "w = align_up bytes PAGE_SIZE"
  have "unat bytes + 4095 < 2 ^ 64" using room by simp
  from unat_page_round_up [OF this] have w: "unat w = (unat bytes + 4095) div 4096 * 4096"
    by (simp add: w_def align_up_page)
  then have wp: "unat (w div PAGE_SIZE) * 4096 \<le> unat bytes + 4095"
    by (simp add: PAGE_SIZE_def unat_div)
  from x obtain s1 e where s1: "for_opt 0 (w div PAGE_SIZE) (\<lambda>i. expand_page) s = Some s1"
    and s': "s' = s1\<lparr>hdrs := (hdrs s1)(heap_end s := e)\<rparr>"
    by (auto simp: heap_expand_def Let_def bind_eq_Some_conv w_def)
  have "heap_backed s1 \<and> unat (heap_end s1) = unat (heap_end s) + unat (w div PAGE_SIZE) * 4096"
  proof (rule for_opt_rule [OF _ _ s1, where P = "\<lambda>i t. heap_backed t \<and>
      unat (heap_end t) = unat (heap_end s) + unat i * 4096"])
    fix i t t'
    assume i: "i < w div PAGE_SIZE" and t: "heap_backed t \<and> unat (heap_end t) = unat (heap_end s) + unat i * 4096"
      and x: "expand_page t = Some t'"
    have "unat (i + 1) = unat i + 1" "unat i < unat (w div PAGE_SIZE)"
      using less_inc_le [OF i] i by (simp_all add: word_less_nat_alt)
    moreover from this(2) have "unat i * 4096 + 4096 \<le> unat (w div PAGE_SIZE) * 4096" by linarith
    with t wp room have r: "unat (heap_end t) + 4096 < 2 ^ 64" by linarith
    moreover have "unat (heap_end t') = unat (heap_end t) + 4096"
      using r expand_page_frame [OF x] by (simp add: PAGE_SIZE_def unat_word_ariths)
    ultimately show "heap_backed t' \<and> unat (heap_end t') = unat (heap_end s) + unat (i + 1) * 4096"
      using expand_page_backed [OF _ x] t by simp
  qed (use b in auto)
  then show ?thesis by (auto intro!: heap_backed_cong [where s = s1] simp: s')
qed

lemma init_heap_backs:
  fixes s :: "'a heap_scheme"
  assumes "vmm_inv s" and "heap_end s = HEAP_START" and "\<And>v. HEAP_START \<le> v \<Longrightarrow> path_4k s v"
    and "4 * 4096 \<le> card (free_frames s)"
  shows "\<exists>s'. init_heap s = Some s' \<and> heap_backed s' \<and> heap_inv s' \<and> live s' = {} \<and>
    heap_list s' [(unat HEAP_START, 16 * 1024 * 1024 - 24, True)]"
proof -
  have u: "unat HEAP_INITIAL_SIZE = 16777216" by (simp add: HEAP_INITIAL_SIZE_def)
  obtain b s1 where x: "heap_expand HEAP_INITIAL_SIZE s = Some (b, s1)"
    using heap_expand_total [OF vmm_inv_pmm [OF assms(1)], of HEAP_INITIAL_SIZE] assms(4) u by auto
  have "heap_backed s" using assms(1-3)
    by (auto simp: heap_backed_def HEAP_START_def page_aligned_def)
  moreover have "unat (heap_end s) + unat HEAP_INITIAL_SIZE + 4095 < 2 ^ 64"
    by (simp add: assms(2) u) (simp add: HEAP_START_def)
  ultimately have b1: "heap_backed s1" using heap_expand_backed [OF _ x] by blast
  have r: "b = HEAP_START" "heap_end s1 = HEAP_START + 16777216" "is_free (hdrs s1 HEAP_START)"
    "bsize (hdrs s1 HEAP_START) = 16777216 - 24" "nxt (hdrs s1 HEAP_START) = 0"
    using heap_expand_result [OF x] assms(2) u by auto
  define t where "t = s1\<lparr>head := b\<rparr>"
  have l: "heap_list t [(unat HEAP_START, 16 * 1024 * 1024 - 24, True)]"
    unfolding heap_list_def t_def by (simp add: r) (simp add: HEAP_START_def)
  have "live t = {}" using live_heap_list [OF l] by (auto simp: used_def)
  moreover have "heap_inv t" using l by (auto simp: heap_inv_def t_def r HEAP_START_def)
  moreover have "heap_backed t" by (rule heap_backed_cong [OF _ _ _ _ _ _ b1]) (simp_all add: t_def)
  ultimately show ?thesis using x l by (auto simp: init_heap_def t_def)
qed

text \<open>
  C13. \<open>kmalloc\<close> and \<open>kfree\<close> keep every page of the heap mapped to a frame of its own, also
  when the heap grows.
\<close>

theorem kmalloc_kfree_keep_backed:
  fixes s :: "'a heap_scheme"
  assumes "heap_backed s" and "heap_room s n"
  shows "(kmalloc n s = Some (p, s') \<longrightarrow> heap_backed s') \<and> (kfree q s = Some s'' \<longrightarrow> heap_backed s'')"
proof (intro conjI impI)
  assume k: "kfree q s = Some s''"
  then have "s'' = s \<or> (\<exists>h. s'' = s\<lparr>hdrs := h\<rparr>)"
    by (auto simp: kfree_def Let_def bind_eq_Some_conv split: if_splits)
  then show "heap_backed s''"
    using assms(1) by (auto intro!: heap_backed_cong [where s = s])
next
  assume k: "kmalloc n s = Some (p, s')"
  define w where "w = align_up n 16"
  have n: "unat (heap_end s) + unat n + 8192 < 2 ^ 64" using assms(2) by (simp add: heap_room_def)
  then have w: "unat w \<le> unat n + 15"
    using unat_request [of n] round16_bounds(2) [of "unat n"] by (simp add: w_def)
  with n have w24: "unat (w + sizeof_heap_block) = unat w + 24"
    by (simp add: sizeof_heap_block_def unat_word_ariths)
  show "heap_backed s'"
  proof (cases "n = 0")
    case True
    with k assms(1) show ?thesis by (simp add: kmalloc_def)
  next
    case False
    with k obtain c l where f: "find_block (hdrs s) w (head s) 0 = Some (c, l)"
      by (auto simp: kmalloc_def w_def bind_eq_Some_conv Let_def)
    show ?thesis
    proof (cases "c = 0")
      case False
      with k \<open>n \<noteq> 0\<close> f have "s' = s\<lparr>hdrs := take_block w c (hdrs s)\<rparr>"
        by (simp add: kmalloc_def w_def Let_def)
      then show ?thesis using assms(1) by (auto intro: heap_backed_cong [where s = s])
    next
      case True
      with k \<open>n \<noteq> 0\<close> f obtain b s1 where x: "heap_expand (w + sizeof_heap_block) s = Some (b, s1)"
        by (cases "heap_expand (w + sizeof_heap_block) s") (auto simp: kmalloc_def w_def Let_def)
      define s2 where "s2 = (if l \<noteq> 0 then s1\<lparr>hdrs := (hdrs s1)(l := (hdrs s1 l)\<lparr>nxt := b\<rparr>)\<rparr>
        else if head s1 = 0 then s1\<lparr>head := b\<rparr> else s1)"
      have s': "s' = s2\<lparr>hdrs := take_block w b (hdrs s2)\<rparr>"
        using k \<open>n \<noteq> 0\<close> f True x by (simp add: kmalloc_def w_def [symmetric] Let_def s2_def)
      have s2: "s2 = s1 \<or> s2 = s1\<lparr>head := b\<rparr> \<or> (\<exists>h. s2 = s1\<lparr>hdrs := h\<rparr>)"
        unfolding s2_def by (cases "l = 0"; cases "head s1 = 0"; simp; blast)
      have "heap_backed s1"
        by (rule heap_expand_backed [OF assms(1) x]) (use n w w24 in simp)
      then have "heap_backed s2" using s2 by (auto intro: heap_backed_cong [where s = s1])
      then show ?thesis unfolding s' by (auto intro: heap_backed_cong [where s = s2])
    qed
  qed
qed


subsection \<open>Closed instances\<close>

text \<open>20000 frames, all but frame 0 free; frame 0 holds an empty top-level table; no heap yet.\<close>

definition heap_boot :: heap where
  "heap_boot = \<lparr>hhdm_offset = 0x100000, bitmap = (\<lambda>_. 0), bitmap_phys = 0, page_count = 20000,
     bitmap_bytes = 2500, bitmap_pages = 1, kernel_start = 0, kernel_end = 0,
     pml4 = 0x100000, cr3 = 0, ptes = (\<lambda>_. 0), head = 0, heap_end = HEAP_START,
     hdrs = (\<lambda>_. \<lparr>bsize = 0, is_free = False, nxt = 0\<rparr>)\<rparr>"

lemma tab_heap_boot: "tab heap_boot q = (if q = [] then Some 0x100000 else None)"
  by (cases q) (simp_all add: tab_def heap_boot_def next_table_def)

lemma page_free_heap_boot: "page_free heap_boot i \<longleftrightarrow> 0 < i \<and> i < 20000"
  by (simp add: page_free_def heap_boot_def bitmap_test_def)

lemma heap_boot_wf: "pmm_wf heap_boot"
  by (simp add: pmm_wf_def heap_boot_def)

lemma heap_boot_free: "card (free_frames heap_boot) = 19999" "0 \<notin> free_frames heap_boot"
  using card_free_frames [OF page_free_heap_boot] pmm.free_frame [OF heap_boot_wf] by auto

lemma heap_boot_inv: "vmm_inv heap_boot" "path_4k heap_boot v" "heap_list heap_boot []"
  "heap_end heap_boot = HEAP_START" "heap_inv heap_boot"
proof -
  show "vmm_inv heap_boot"
    using heap_boot_free(2) heap_boot_wf
    by (auto simp: vmm_inv_def tab_heap_boot direct_map_ok_def page_aligned_def split: if_splits)
      (auto simp: heap_boot_def)
  show "path_4k heap_boot v"
    by (simp add: path_4k_def huge_at_def tab_heap_boot) (simp add: heap_boot_def)
  show "heap_list heap_boot []" by (simp add: heap_list_def heap_boot_def)
  then show "heap_inv heap_boot" "heap_end heap_boot = HEAP_START"
    by (auto simp: heap_inv_def heap_boot_def HEAP_START_def)
qed

lemma heap_boot_room: "unat n \<le> 10 ^ 6 \<Longrightarrow> heap_room heap_boot n"
  by (simp add: heap_room_def heap_boot_inv(4)) (simp add: HEAP_START_def)

theorem kmalloc_refines_first_fit_witness:
  "\<exists>p s' :: heap. kmalloc 100 heap_boot = Some (p, s') \<and> unat p = unat HEAP_START + 24 \<and>
    heap_list s' [(unat HEAP_START, 112, False), (unat HEAP_START + 136, 3936, True)]"
proof -
  have "round_page (round16 (unat (100 :: u64)) + 24) = 4096" "round16 (unat (100 :: u64)) = 112"
    by (simp_all add: round_page_def round16_def)
  with kmalloc_refines_first_fit [OF heap_boot_inv(3) _ _ heap_boot_room heap_boot_wf, of 100]
    heap_boot_free(1)
  show ?thesis
    by (simp add: alloc_list_def carve_def heap_boot_inv(4) round_page_def HEAP_START_def)
qed

text \<open>A heap of one page, as after the first allocation above was released.\<close>

definition heap_one :: heap where
  "heap_one = heap_boot\<lparr>head := HEAP_START, heap_end := HEAP_START + 4096,
     hdrs := (hdrs heap_boot)(HEAP_START := \<lparr>bsize = 4072, is_free = True, nxt = 0\<rparr>)\<rparr>"

lemma heap_one_inv: "heap_list heap_one [(unat HEAP_START, 4072, True)]" "heap_inv heap_one"
  "unat n \<le> 10 ^ 6 \<Longrightarrow> heap_room heap_one n"
proof -
  show "heap_list heap_one [(unat HEAP_START, 4072, True)]"
    by (simp add: heap_list_def heap_one_def) (simp add: HEAP_START_def)
  then show "heap_inv heap_one"
    by (auto simp: heap_inv_def heap_one_def HEAP_START_def)
  show "heap_room heap_one n" if "unat n \<le> 10 ^ 6"
    using that by (simp add: heap_room_def heap_one_def) (simp add: HEAP_START_def)
qed

lemma heap_one_alloc:
  "case kmalloc 24 heap_one of None \<Rightarrow> False | Some (p, s) \<Rightarrow>
     p = HEAP_START + 24 \<and> heap_end s = HEAP_START + 4096 \<and>
     (case kmalloc 100 s of None \<Rightarrow> False | Some (q, s') \<Rightarrow> q = HEAP_START + 80)"
  by code_simp

lemma heap_one_alloc_twice:
  "\<exists>s t. kmalloc 24 heap_one = Some (HEAP_START + 24, s) \<and> heap_room s 100 \<and>
     kmalloc 100 s = Some (HEAP_START + 80, t)"
proof -
  obtain p s where s: "kmalloc 24 heap_one = Some (p, s)" "p = HEAP_START + 24"
    "heap_end s = HEAP_START + 4096"
    "case kmalloc 100 s of None \<Rightarrow> False | Some (q, s') \<Rightarrow> q = HEAP_START + 80"
    using heap_one_alloc by (auto split: option.splits)
  moreover have "heap_room s 100" by (simp add: heap_room_def s(3)) (simp add: HEAP_START_def)
  ultimately show ?thesis by (auto split: option.splits)
qed

theorem kmalloc_regions_disjoint_witness:
  "\<exists>(s :: heap) m l. (HEAP_START + 24, m) \<in> live s \<and> (HEAP_START + 80, l) \<in> live s \<and>
     24 \<le> m \<and> 100 \<le> l \<and> regions_apart (HEAP_START + 24, m) (HEAP_START + 80, l)"
proof -
  obtain s t where a: "kmalloc 24 heap_one = Some (HEAP_START + 24, s)" "heap_room s 100"
    "kmalloc 100 s = Some (HEAP_START + 80, t)" using heap_one_alloc_twice by blast
  from kmalloc_regions_disjoint [OF heap_one_inv(2) _ heap_one_inv(3) a(1) _ a(2,3)] show ?thesis
    by auto
qed

theorem kmalloc_kfree_restores_witness:
  "\<exists>s s' :: heap. kmalloc 24 heap_one = Some (HEAP_START + 24, s) \<and>
     kfree (HEAP_START + 24) s = Some s' \<and> live s' = live heap_one"
proof -
  obtain s where a: "kmalloc 24 heap_one = Some (HEAP_START + 24, s)"
    using heap_one_alloc_twice by blast
  from kmalloc_kfree_restores [OF heap_one_inv(2) _ heap_one_inv(3) a] a show ?thesis by auto
qed

theorem kfree_coalesces_witness:
  "\<exists>(s :: heap) s' bs. heap_inv s \<and> kfree (HEAP_START + 24) s = Some s' \<and> heap_list s' bs \<and> no_free_pair bs"
proof -
  obtain s where a: "kmalloc 24 heap_one = Some (HEAP_START + 24, s)"
    using heap_one_alloc_twice by blast
  from kheap.alloc_live [OF heap_one_inv(2) _ heap_one_inv(3) a]
  obtain m where "heap_inv s" "(HEAP_START + 24, m) \<in> live s" by auto
  from kfree_coalesces [OF this] this(1) show ?thesis by blast
qed

theorem kmalloc_kfree_keep_backed_witness:
  "\<exists>p s' :: heap. kmalloc 5000 heap_boot = Some (p, s') \<and> heap_backed s'"
proof -
  have "heap_backed heap_boot"
    using heap_boot_inv(1,2,4) by (auto simp: heap_backed_def HEAP_START_def page_aligned_def)
  note b = this
  have "round_page (round16 (unat (5000 :: u64)) + 24) = 8192"
    by (simp add: round_page_def round16_def)
  then obtain p s' where k: "kmalloc 5000 heap_boot = Some (p, s')"
    using kmalloc_total [OF heap_boot_inv(3) _ heap_boot_room heap_boot_wf, of 5000] heap_boot_free(1)
    by auto
  have "heap_room heap_boot 5000" by (rule heap_boot_room) simp
  from kmalloc_kfree_keep_backed [OF b this] k show ?thesis by blast
qed

text \<open>
  Close to \<open>SIZE_MAX\<close> the rounding of the request wraps to zero: the call succeeds with a
  block that holds no byte.
\<close>

lemma kmalloc_wraps:
  "case kmalloc 0xFFFFFFFFFFFFFFF8 heap_one of None \<Rightarrow> False | Some (p, s) \<Rightarrow>
     p = HEAP_START + 24 \<and> bsize (hdrs s HEAP_START) = 0"
  by code_simp


subsection \<open>What the heap leaves alone\<close>

lemma expand_page_more:
  fixes s :: "'a heap_scheme"
  assumes "expand_page s = Some s'"
  shows "heap.more s' = heap.more s"
proof -
  obtain p s1 where a: "pmm_alloc s = (p, s1)" by force
  with assms obtain s2 where m: "vmm_map_page (heap_end s1) p HEAP_PAGE_FLAGS s1 = Some s2"
    and s': "s' = s2\<lparr>heap_end := heap_end s2 + PAGE_SIZE\<rparr>"
    by (auto simp: expand_page_def bind_eq_Some_conv split: if_splits)
  from pmm_alloc_only_bitmap [OF a] vmm_map_page_only_tables [OF m] s' show ?thesis by auto
qed

lemma heap_expand_more:
  fixes s :: "'a heap_scheme"
  assumes "heap_expand bytes s = Some (b, s')"
  shows "heap.more s' = heap.more s"
proof -
  from assms obtain s1 e where s1: "for_opt 0 (align_up bytes PAGE_SIZE div PAGE_SIZE) (\<lambda>i. expand_page) s = Some s1"
    and s': "s' = s1\<lparr>hdrs := e\<rparr>"
    by (auto simp: heap_expand_def Let_def bind_eq_Some_conv)
  have "heap.more s1 = heap.more s"
    by (rule for_opt_rule [OF _ _ s1, where P = "\<lambda>_ t. heap.more t = heap.more s"])
      (auto dest: expand_page_more)
  with s' show ?thesis by simp
qed

lemma kmalloc_more:
  fixes s :: "'a heap_scheme"
  assumes "kmalloc n s = Some (p, s')"
  shows "heap.more s' = heap.more s"
proof (cases "n = 0")
  case True
  with assms show ?thesis by (simp add: kmalloc_def)
next
  case False
  define w where "w = align_up n 16"
  from assms False obtain c l where f: "find_block (hdrs s) w (head s) 0 = Some (c, l)"
    by (auto simp: kmalloc_def w_def bind_eq_Some_conv Let_def)
  show ?thesis
  proof (cases "c = 0")
    case False
    with assms \<open>n \<noteq> 0\<close> f show ?thesis by (auto simp: kmalloc_def w_def Let_def)
  next
    case True
    with assms \<open>n \<noteq> 0\<close> f obtain b s1 where x: "heap_expand (w + sizeof_heap_block) s = Some (b, s1)"
      by (cases "heap_expand (w + sizeof_heap_block) s") (auto simp: kmalloc_def w_def Let_def)
    then have "heap.more s' = heap.more s1"
      using assms \<open>n \<noteq> 0\<close> f True by (auto simp: kmalloc_def w_def [symmetric] Let_def split: if_splits)
    with heap_expand_more [OF x] show ?thesis by simp
  qed
qed

lemma kfree_more:
  fixes s :: "'a heap_scheme"
  shows "kfree p s = Some s' \<Longrightarrow> heap.more s' = heap.more s"
  by (auto simp: kfree_def Let_def bind_eq_Some_conv split: if_splits)

lemma live_above:
  assumes "heap_inv s" "(p, m) \<in> live s"
  shows "unat HEAP_START + 24 \<le> unat p"
proof -
  obtain bs a where "heap_list s bs" "(a, m, False) \<in> set bs" "unat p = a + 24"
    using assms(2) by (auto simp: live_def)
  then show ?thesis using layout_bounds [of _ bs _ a m False] by (fastforce simp: heap_list_def)
qed

text \<open>The invariant and the live regions depend on the heap's own state alone.\<close>

lemma heap_cong:
  fixes s :: "'a heap_scheme" and s' :: "'b heap_scheme"
  assumes "hdrs s' = hdrs s" "head s' = head s" "heap_end s' = heap_end s"
  shows "live s' = live s" "heap_inv s' = heap_inv s" "heap_room s' = heap_room s"
proof -
  have "heap_list s' bs = heap_list s bs" for bs by (simp add: heap_list_def assms)
  then show "live s' = live s" "heap_inv s' = heap_inv s"
    by (simp_all add: live_def heap_inv_def assms)
  show "heap_room s' = heap_room s" by (rule ext) (simp add: heap_room_def assms)
qed

end
