(* ===== verification/Scheduler.thy ===== *)
theory Scheduler
  imports KHeap
begin

text \<open>
  Kernel threads, \<open>src/arch/x86_64/thread.c\<close> and \<open>switch.asm\<close>: a linked queue of thread
  control blocks, creation of a thread with a prepared stack, and the round-robin scheduler
  with its context switch. \<open>threads a\<close> is the control block at address \<open>a\<close>,
  \<open>stack_mem a\<close> the 64-bit word at stack address \<open>a\<close>.
\<close>


subsection \<open>State and operations\<close>

datatype thread_state = THREAD_STATE_READY | THREAD_STATE_RUNNING | THREAD_STATE_DEAD

record thread =
  t_rsp :: u64
  t_id :: u64
  t_state :: thread_state
  t_stack_bottom :: u64
  t_next :: u64

text \<open>
  The registers \<open>context_switch\<close> saves, in the order it pushes them, with the stack pointer
  and the address execution goes on at.
\<close>

record cpu =
  callee_saved :: "u64 list"
  rsp :: u64
  rip :: u64

record sched = heap +
  running_thread :: u64
  thread_queue_head :: u64
  next_thread_id :: u64
  threads :: "u64 \<Rightarrow> thread"
  stack_mem :: "u64 \<Rightarrow> u64"
  cpu :: cpu
  main_kernel_thread :: u64  \<comment> \<open>address of the static control block\<close>
  kthread_exit_addr :: u64  \<comment> \<open>code address of \<open>kthread_exit\<close>\<close>
  after_switch :: u64  \<comment> \<open>return address of the call to \<open>context_switch\<close>\<close>

definition sizeof_thread :: u64 where "sizeof_thread = 40"
definition stack_size :: u64 where "stack_size = 16384"

abbreviation set_thread :: "u64 \<Rightarrow> (thread \<Rightarrow> thread) \<Rightarrow> 'a sched_scheme \<Rightarrow> 'a sched_scheme" where
  "set_thread t f s \<equiv> s\<lparr>threads := (threads s)(t := f (threads s t))\<rparr>"

definition init_scheduler :: "'a sched_scheme \<Rightarrow> 'a sched_scheme" where
  "init_scheduler s =
     (let m = main_kernel_thread s in
      (set_thread m (\<lambda>_. \<lparr>t_rsp = 0, t_id = 0, t_state = THREAD_STATE_RUNNING,
          t_stack_bottom = 0, t_next = 0\<rparr>) s)
        \<lparr>running_thread := m, thread_queue_head := m\<rparr>)"

text \<open>\<open>stack_top--; *stack_top = v\<close> on the stack under construction.\<close>

definition store_below :: "u64 \<Rightarrow> u64 \<times> (u64 \<Rightarrow> u64) \<Rightarrow> u64 \<times> (u64 \<Rightarrow> u64)" where
  "store_below v = (\<lambda>(top, m). (top - 8, m(top - 8 := v)))"

definition prepare_stack :: "u64 \<Rightarrow> u64 \<Rightarrow> u64 \<Rightarrow> (u64 \<Rightarrow> u64) \<Rightarrow> u64 \<times> (u64 \<Rightarrow> u64)" where
  "prepare_stack stack_raw exit_addr entry m =
     for_up 0 6 (\<lambda>_. store_below 0)
       (store_below entry (store_below exit_addr (stack_raw + stack_size, m)))"

partial_function (option) queue_tail :: "(u64 \<Rightarrow> thread) \<Rightarrow> u64 \<Rightarrow> u64 option" where
  "queue_tail ths cur =
     (if t_next (ths cur) \<noteq> 0 then queue_tail ths (t_next (ths cur)) else Some cur)"

definition kthread_create :: "u64 \<Rightarrow> 'a sched_scheme \<Rightarrow> (u64 \<times> 'a sched_scheme) option" where
  "kthread_create entry_point s = do {
     (t, s1) \<leftarrow> kmalloc sizeof_thread s;
     if t = 0 then Some (0, s1)
     else do {
       (stack_raw, s2) \<leftarrow> kmalloc stack_size s1;
       if stack_raw = 0 then do { s3 \<leftarrow> kfree t s2; Some (0, s3) }
       else
         let (top, m) = prepare_stack stack_raw (kthread_exit_addr s2) entry_point (stack_mem s2);
             s4 = (set_thread t (\<lambda>_. \<lparr>t_rsp = top, t_id = next_thread_id s2,
                 t_state = THREAD_STATE_READY, t_stack_bottom = stack_raw, t_next = 0\<rparr>) s2)
               \<lparr>next_thread_id := next_thread_id s2 + 1, stack_mem := m\<rparr>
         in do {
           cur \<leftarrow> queue_tail (threads s4) (thread_queue_head s4);
           Some (t, set_thread cur (\<lambda>c. c\<lparr>t_next := t\<rparr>) s4) } } }"

text \<open>The context switch, instruction by instruction.\<close>

definition push :: "u64 \<Rightarrow> 'a sched_scheme \<Rightarrow> 'a sched_scheme" where
  "push v s = (let top = rsp (cpu s) - 8 in
     s\<lparr>stack_mem := (stack_mem s)(top := v), cpu := (cpu s)\<lparr>rsp := top\<rparr>\<rparr>)"

definition pop_word :: "'a sched_scheme \<Rightarrow> u64 \<times> 'a sched_scheme" where
  "pop_word s = (stack_mem s (rsp (cpu s)), s\<lparr>cpu := (cpu s)\<lparr>rsp := rsp (cpu s) + 8\<rparr>\<rparr>)"

fun pop_regs :: "nat \<Rightarrow> 'a sched_scheme \<Rightarrow> u64 list \<times> 'a sched_scheme" where
  "pop_regs 0 s = ([], s)"
| "pop_regs (Suc n) s =
     (let (v, s') = pop_word s; (vs, s'') = pop_regs n s' in (vs @ [v], s''))"

definition context_switch :: "u64 \<Rightarrow> u64 \<Rightarrow> 'a sched_scheme \<Rightarrow> 'a sched_scheme" where
  "context_switch old new_rsp s =
     (let s1 = fold push (callee_saved (cpu s)) s;
          s2 = set_thread old (\<lambda>c. c\<lparr>t_rsp := rsp (cpu s1)\<rparr>) s1;
          s3 = s2\<lparr>cpu := (cpu s2)\<lparr>rsp := new_rsp\<rparr>\<rparr>;
          (regs, s4) = pop_regs 6 s3;
          (pc, s5) = pop_word s4
      in s5\<lparr>cpu := (cpu s5)\<lparr>callee_saved := regs, rip := pc\<rparr>\<rparr>)"

text \<open>The search loop of \<open>schedule\<close>.\<close>

partial_function (option) pick_thread :: "(u64 \<Rightarrow> thread) \<Rightarrow> u64 \<Rightarrow> u64 \<Rightarrow> u64 option" where
  "pick_thread ths qhead new_thread =
     (let t = (if new_thread = 0 then qhead else new_thread) in
      if t_state (ths t) = THREAD_STATE_READY \<or> t_state (ths t) = THREAD_STATE_RUNNING then Some t
      else if t_state (ths t) = THREAD_STATE_DEAD then pick_thread ths qhead (t_next (ths t))
      else pick_thread ths qhead t)"

declare queue_tail.simps [code] pick_thread.simps [code]

definition schedule :: "'a sched_scheme \<Rightarrow> 'a sched_scheme option" where
  "schedule s =
     (if thread_queue_head s = 0 then Some s
      else let old = running_thread s in do {
        new \<leftarrow> pick_thread (threads s) (thread_queue_head s) (t_next (threads s old));
        if new = old then Some s
        else
          let s1 = (if t_state (threads s old) = THREAD_STATE_RUNNING
                then set_thread old (\<lambda>c. c\<lparr>t_state := THREAD_STATE_READY\<rparr>) s else s);
              s2 = (set_thread new (\<lambda>c. c\<lparr>t_state := THREAD_STATE_RUNNING\<rparr>) s1)
                \<lparr>running_thread := new\<rparr>
          in Some (context_switch old (t_rsp (threads s2 new)) (push (after_switch s2) s2)) })"

text \<open>
  \<open>kthread_exit\<close> does not return: either \<open>schedule\<close> has switched to another thread, or it
  came back and the processor halts for good.
\<close>

definition kthread_exit :: "'a sched_scheme \<Rightarrow> 'a sched_scheme option" where
  "kthread_exit s = do {
     s' \<leftarrow> schedule (set_thread (running_thread s) (\<lambda>c. c\<lparr>t_state := THREAD_STATE_DEAD\<rparr>) s);
     if running_thread s' = running_thread s then None else Some s' }"


subsection \<open>The queue\<close>

text \<open>\<open>qpath ths p ts q\<close>: the control blocks from \<open>p\<close> on are \<open>ts\<close>, the last points to \<open>q\<close>.\<close>

fun qpath :: "(u64 \<Rightarrow> thread) \<Rightarrow> u64 \<Rightarrow> u64 list \<Rightarrow> u64 \<Rightarrow> bool" where
  "qpath ths p [] q \<longleftrightarrow> p = q"
| "qpath ths p (t # ts) q \<longleftrightarrow> p = t \<and> t \<noteq> 0 \<and> qpath ths (t_next (ths t)) ts q"

lemma qpath_append [simp]:
  "qpath ths p (xs @ ys) q \<longleftrightarrow> (\<exists>r. qpath ths p xs r \<and> qpath ths r ys q)"
  by (induction xs arbitrary: p) auto

lemma qpath_cong: "\<forall>t \<in> set ts. t_next (ths' t) = t_next (ths t) \<Longrightarrow> qpath ths' p ts q = qpath ths p ts q"
  by (induction ts arbitrary: p) auto

lemma qpath_unique: "qpath ths p ts 0 \<Longrightarrow> qpath ths p us 0 \<Longrightarrow> ts = us"
proof (induction ts arbitrary: p us)
  case Nil
  then show ?case by (cases us) auto
next
  case (Cons t ts)
  then show ?case by (cases us) auto
qed

definition alive :: "'a sched_scheme \<Rightarrow> u64 \<Rightarrow> bool" where
  "alive s t \<longleftrightarrow> t_state (threads s t) \<noteq> THREAD_STATE_DEAD"

definition queue :: "'a sched_scheme \<Rightarrow> u64 list \<Rightarrow> bool" where
  "queue s ts \<longleftrightarrow> qpath (threads s) (thread_queue_head s) ts 0 \<and> distinct ts"

text \<open>
  The scheduler's invariant: the queue is a finite list without repetition, the running
  thread is on it, and at most that one is marked running.
\<close>

definition sched_inv :: "'a sched_scheme \<Rightarrow> bool" where
  "sched_inv s \<longleftrightarrow> (\<exists>ts. queue s ts \<and> running_thread s \<in> set ts) \<and>
     (\<forall>t. t_state (threads s t) = THREAD_STATE_RUNNING \<longrightarrow> t = running_thread s)"


subsection \<open>The context switch leaves the queue alone\<close>

lemma push_frame [frame_simps]:
  "threads (push v s) = threads s" "thread_queue_head (push v s) = thread_queue_head s"
  "running_thread (push v s) = running_thread s"
  by (simp_all add: push_def Let_def)

lemma fold_push_frame [frame_simps]:
  "threads (fold push vs s) = threads s" "thread_queue_head (fold push vs s) = thread_queue_head s"
  "running_thread (fold push vs s) = running_thread s"
  by (induction vs arbitrary: s) (simp_all add: frame_simps)

lemma pop_word_frame: "pop_word s = (v, s') \<Longrightarrow> \<exists>c. s' = s\<lparr>cpu := c\<rparr>"
  by (auto simp: pop_word_def)

lemma pop_regs_frame: "pop_regs n s = (vs, s') \<Longrightarrow> \<exists>c. s' = s\<lparr>cpu := c\<rparr>"
proof (induction n arbitrary: s vs s')
  case 0
  then show ?case by (auto intro: exI [of _ "cpu s"])
next
  case (Suc n)
  obtain v t where v: "pop_word s = (v, t)" by force
  obtain us u where u: "pop_regs n t = (us, u)" by force
  with Suc.prems v have "s' = u" by simp
  with Suc.IH [OF u] pop_word_frame [OF v] show ?case by auto
qed

lemma context_switch_frame [frame_simps]:
  "threads (context_switch old r s) = (threads s)(old := (threads s old)\<lparr>t_rsp :=
     rsp (cpu (fold push (callee_saved (cpu s)) s))\<rparr>)"
  "thread_queue_head (context_switch old r s) = thread_queue_head s"
  "running_thread (context_switch old r s) = running_thread s"
proof -
  define s2 where "s2 = set_thread old (\<lambda>c. c\<lparr>t_rsp := rsp (cpu (fold push (callee_saved (cpu s)) s))\<rparr>)
    (fold push (callee_saved (cpu s)) s)"
  obtain regs s4 where 4: "pop_regs 6 (s2\<lparr>cpu := (cpu s2)\<lparr>rsp := r\<rparr>\<rparr>) = (regs, s4)" by force
  obtain pc s5 where 5: "pop_word s4 = (pc, s5)" by force
  have "context_switch old r s = s5\<lparr>cpu := (cpu s5)\<lparr>callee_saved := regs, rip := pc\<rparr>\<rparr>"
    using 4 5 by (simp add: context_switch_def Let_def s2_def)
  with pop_regs_frame [OF 4] pop_word_frame [OF 5]
  show "threads (context_switch old r s) = (threads s)(old := (threads s old)\<lparr>t_rsp :=
      rsp (cpu (fold push (callee_saved (cpu s)) s))\<rparr>)"
    "thread_queue_head (context_switch old r s) = thread_queue_head s"
    "running_thread (context_switch old r s) = running_thread s"
    by (auto simp: s2_def frame_simps)
qed


subsection \<open>Round robin\<close>

text \<open>The order in which the threads of the queue come up after \<open>r\<close>.\<close>

definition after :: "u64 \<Rightarrow> u64 list \<Rightarrow> u64 list" where
  "after r ts = tl (dropWhile (\<lambda>t. t \<noteq> r) ts) @ takeWhile (\<lambda>t. t \<noteq> r) ts @ [r]"

lemma after_split:
  assumes "r \<notin> set xs"
  shows "after r (xs @ r # ys) = ys @ xs @ [r]"
proof -
  have "\<And>x. x \<in> set xs \<Longrightarrow> x \<noteq> r" using assms by auto
  then show ?thesis by (simp add: after_def dropWhile_append2 takeWhile_append2)
qed

lemma after_members:
  assumes "r \<in> set ts"
  shows "set (after r ts) = set ts" "length (after r ts) = length ts"
proof -
  obtain xs ys where "ts = xs @ r # ys" "r \<notin> set xs" using assms by (metis split_list_first)
  then show "set (after r ts) = set ts" "length (after r ts) = length ts"
    by (auto simp: after_split)
qed

lemmas set_after = after_members(1)
lemmas length_after = after_members(2)

lemma after_step:
  assumes "distinct ts" "r \<in> set ts" "after r ts = ds @ n # es"
  shows "after n ts = es @ ds @ [n]"
proof -
  obtain xs ys where ts: "ts = xs @ r # ys" "r \<notin> set xs" using assms(2) by (metis split_list_first)
  then have eq: "ys @ xs @ [r] = ds @ n # es" using assms(3) by (simp add: after_split)
  have dist: "distinct (ds @ n # es)" using assms(1) ts unfolding eq [symmetric] by auto
  have "n \<in> set ts" using set_after [OF assms(2)] assms(3) by auto
  then consider "n = r" | "n \<in> set ys" "n \<noteq> r" | "n \<in> set xs" "n \<noteq> r" using ts by auto
  then show ?thesis
  proof cases
    case 1
    then have "(ys @ xs) @ n # [] = ds @ n # es" using eq by simp
    then have "ys @ xs = ds" "es = []"
      using dist by (subst (asm) append_Cons_eq_iff; use eq 1 assms(1) ts in auto)+
    with 1 ts show ?thesis by (auto simp: after_split)
  next
    case 2
    then obtain d e where ys: "ys = d @ n # e" "n \<notin> set d" by (metis split_list_first)
    then have "d @ n # (e @ xs @ [r]) = ds @ n # es" using eq by simp
    moreover have "n \<notin> set ds" "n \<notin> set es" using dist by auto
    ultimately have d: "d = ds" "e @ xs @ [r] = es"
      using append_Cons_eq_iff [of n ds es d "e @ xs @ [r]"] by metis+
    have "n \<notin> set (xs @ r # d)" using assms(1) ts ys by auto
    with after_split [OF this, of e] d ts ys show ?thesis by simp
  next
    case 3
    then obtain d e where xs: "xs = d @ n # e" "n \<notin> set d" by (metis split_list_first)
    then have "(ys @ d) @ n # (e @ [r]) = ds @ n # es" using eq by simp
    moreover have "n \<notin> set ds" "n \<notin> set es" using dist by auto
    ultimately have d: "ys @ d = ds" "e @ [r] = es"
      using append_Cons_eq_iff [of n ds es "ys @ d" "e @ [r]"] by metis+
    have "n \<notin> set d" using xs by simp
    with after_split [OF this, of "e @ r # ys"] d ts xs show ?thesis by auto
  qed
qed

abbreviation dead :: "(u64 \<Rightarrow> thread) \<Rightarrow> u64 \<Rightarrow> bool" where
  "dead ths t \<equiv> t_state (ths t) = THREAD_STATE_DEAD"

lemma pick_skip:
  "qpath ths p us q \<Longrightarrow> \<forall>t \<in> set us. dead ths t \<Longrightarrow> pick_thread ths h p = pick_thread ths h q"
proof (induction us arbitrary: p)
  case (Cons u us)
  then have "pick_thread ths h p = pick_thread ths h (t_next (ths u))"
    by (subst pick_thread.simps) (auto simp: Let_def)
  with Cons show ?case by auto
qed simp

lemma pick_here: "t \<noteq> 0 \<Longrightarrow> \<not> dead ths t \<Longrightarrow> pick_thread ths h t = Some t"
  by (cases "t_state (ths t)") (subst pick_thread.simps; simp add: Let_def)+

lemma pick_wrap: "h \<noteq> 0 \<Longrightarrow> pick_thread ths h 0 = pick_thread ths h h"
  by (subst (1 2) pick_thread.simps) (simp add: Let_def)

lemma qpath_nonzero: "qpath ths p ts q \<Longrightarrow> t \<in> set ts \<Longrightarrow> t \<noteq> 0"
  by (induction ts arbitrary: p) auto

lemma pick_round_robin:
  assumes q: "qpath ths h ts 0" and r: "r \<in> set ts"
    and a: "after r ts = ds @ n # es" and ds: "\<forall>t \<in> set ds. dead ths t" and n: "\<not> dead ths n"
  shows "pick_thread ths h (t_next (ths r)) = Some n"
proof -
  obtain xs ys where ts: "ts = xs @ r # ys" "r \<notin> set xs" using r by (metis split_list_first)
  then have paths: "qpath ths h xs r" "r \<noteq> 0" "qpath ths (t_next (ths r)) ys 0"
    using q by auto
  have h: "h \<noteq> 0" using paths(1,2) by (cases xs) auto
  have "n \<in> set ts" using set_after [OF r] a by auto
  then have n0: "n \<noteq> 0" by (rule qpath_nonzero [OF q])
  have eq: "ys @ xs @ [r] = ds @ n # es" using a ts by (simp add: after_split)
  show ?thesis
  proof (cases "length ds < length ys")
    case True
    then obtain us where us: "ys = ds @ us" "us @ xs @ [r] = n # es" "us \<noteq> []"
      using eq by (auto simp: append_eq_append_conv2)
    then obtain zs where "ys = ds @ n # zs" by (cases us) auto
    then obtain p where "qpath ths (t_next (ths r)) ds n" using paths(3) by auto
    with pick_skip [OF this ds] pick_here [where ths = ths and t = n, OF n0 n] show ?thesis by simp
  next
    case False
    have "take (length ys) (ys @ xs @ [r]) = take (length ys) (ds @ n # es)" by (simp only: eq)
    then have "ys = take (length ys) ds" using False by simp
    then obtain us where us: "ds = ys @ us" by (metis append_take_drop_id)
    then have us': "us @ n # es = xs @ [r]" using eq by simp
    have "qpath ths h (us @ n # es) (t_next (ths r))"
      unfolding us' using paths(1,2) by simp
    then have "qpath ths h us n" by auto
    with pick_skip [OF this] pick_here [where ths = ths and t = n, OF n0 n] ds us have "pick_thread ths h h = Some n" by simp
    moreover have "pick_thread ths h (t_next (ths r)) = pick_thread ths h 0"
      using pick_skip [OF paths(3)] ds us by simp
    ultimately show ?thesis using pick_wrap [OF h] by simp
  qed
qed

text \<open>What \<open>schedule\<close> does when some thread is alive.\<close>

lemma schedule_step:
  assumes q: "queue s ts" and r: "running_thread s \<in> set ts"
    and a: "after (running_thread s) ts = ds @ n # es" "\<forall>t \<in> set ds. \<not> alive s t" "alive s n"
    and one: "\<forall>t. t_state (threads s t) = THREAD_STATE_RUNNING \<longrightarrow> t = running_thread s"
  shows "\<exists>s'. schedule s = Some s' \<and> running_thread s' = n \<and> queue s' ts \<and>
    (\<forall>t. alive s' t = alive s t) \<and>
    (\<forall>t. t_state (threads s' t) = THREAD_STATE_RUNNING \<longrightarrow> t = n) \<and>
    (n \<noteq> running_thread s \<longrightarrow> t_state (threads s' n) = THREAD_STATE_RUNNING) \<and>
    (\<forall>t. t \<noteq> n \<longrightarrow> t \<noteq> running_thread s \<longrightarrow> threads s' t = threads s t) \<and>
    (n = running_thread s \<longrightarrow> s' = s)"
proof -
  define r where "r = running_thread s"
  have "thread_queue_head s \<noteq> 0"
    using q r by (cases ts) (auto simp: queue_def)
  moreover have pick: "pick_thread (threads s) (thread_queue_head s) (t_next (threads s r)) = Some n"
    using pick_round_robin [of "threads s" "thread_queue_head s" ts r ds n es] assms
    by (auto simp: queue_def alive_def r_def)
  ultimately have sch: "schedule s = (if n = r then Some s else
      let s1 = (if t_state (threads s r) = THREAD_STATE_RUNNING
            then set_thread r (\<lambda>c. c\<lparr>t_state := THREAD_STATE_READY\<rparr>) s else s);
          s2 = (set_thread n (\<lambda>c. c\<lparr>t_state := THREAD_STATE_RUNNING\<rparr>) s1)\<lparr>running_thread := n\<rparr>
      in Some (context_switch r (t_rsp (threads s2 n)) (push (after_switch s2) s2)))"
    by (simp add: schedule_def Let_def r_def)
  show ?thesis
  proof (cases "n = r")
    case True
    with sch q one show ?thesis by (auto simp: r_def)
  next
    case False
    define s1 where "s1 = (if t_state (threads s r) = THREAD_STATE_RUNNING
      then set_thread r (\<lambda>c. c\<lparr>t_state := THREAD_STATE_READY\<rparr>) s else s)"
    define s2 where "s2 = (set_thread n (\<lambda>c. c\<lparr>t_state := THREAD_STATE_RUNNING\<rparr>) s1)\<lparr>running_thread := n\<rparr>"
    define s' where "s' = context_switch r (t_rsp (threads s2 n)) (push (after_switch s2) s2)"
    have sch': "schedule s = Some s'"
      unfolding sch Let_def s'_def s2_def s1_def using False by (simp only: if_False)
    have th1: "threads s1 t = (if t = r \<and> t_state (threads s r) = THREAD_STATE_RUNNING
        then (threads s r)\<lparr>t_state := THREAD_STATE_READY\<rparr> else threads s t)" for t
      by (simp add: s1_def)
    have th2: "threads s2 t = (if t = n then (threads s1 n)\<lparr>t_state := THREAD_STATE_RUNNING\<rparr>
        else threads s1 t)" for t by (simp add: s2_def)
    have s': "running_thread s' = n" "thread_queue_head s' = thread_queue_head s"
      by (simp_all add: s'_def frame_simps s2_def s1_def)
    obtain x where th': "\<And>t. threads s' t = (if t = r then (threads s2 r)\<lparr>t_rsp := x\<rparr> else threads s2 t)"
      by (simp add: s'_def frame_simps)
    have nx: "t_next (threads s' t) = t_next (threads s t)"
      and st: "t_state (threads s' t) = (if t = n then THREAD_STATE_RUNNING
        else if t = r \<and> t_state (threads s r) = THREAD_STATE_RUNNING then THREAD_STATE_READY
        else t_state (threads s t))"
      and oth: "t \<noteq> n \<Longrightarrow> t \<noteq> r \<Longrightarrow> threads s' t = threads s t" for t
      using False by (auto simp: th' th2 th1)
    have "qpath (threads s') (thread_queue_head s) ts 0 = qpath (threads s) (thread_queue_head s) ts 0"
      by (rule qpath_cong) (simp add: nx)
    then have "queue s' ts" using q s'(2) by (simp add: queue_def)
    moreover have "alive s' t = alive s t" for t
      using a(3) by (auto simp: alive_def st)
    moreover have "t = n" if "t_state (threads s' t) = THREAD_STATE_RUNNING" for t
    proof (rule ccontr)
      assume "t \<noteq> n"
      with that have "t_state (threads s t) = THREAD_STATE_RUNNING"
        "\<not> (t = r \<and> t_state (threads s r) = THREAD_STATE_RUNNING)" by (auto simp: st split: if_splits)
      moreover from this(1) have "t = r" using one unfolding r_def by blast
      ultimately show False by simp
    qed
    moreover have "t_state (threads s' n) = THREAD_STATE_RUNNING" by (simp add: st)
    ultimately show ?thesis using sch' s'(1) oth False unfolding r_def by blast
  qed
qed

lemma first_alive:
  assumes "t \<in> set us" "alive s t"
  obtains ds n es where "us = ds @ n # es" "\<forall>t \<in> set ds. \<not> alive s t" "alive s n"
  using split_list_first_prop [of us "alive s"] assms by blast

lemma schedule_total:
  assumes "queue s ts" "running_thread s \<in> set ts" "t \<in> set ts" "alive s t"
    "\<forall>t. t_state (threads s t) = THREAD_STATE_RUNNING \<longrightarrow> t = running_thread s"
  obtains s' ds n es where "schedule s = Some s'" "running_thread s' = n" "n \<in> set ts" "queue s' ts"
    "\<forall>t. alive s' t = alive s t" "alive s n"
    "\<forall>t. t_state (threads s' t) = THREAD_STATE_RUNNING \<longrightarrow> t = n"
    "after (running_thread s) ts = ds @ n # es" "\<forall>t \<in> set ds. \<not> alive s t"
proof -
  have "t \<in> set (after (running_thread s) ts)" using assms(2,3) by (simp add: set_after)
  then obtain ds n es where a: "after (running_thread s) ts = ds @ n # es"
    "\<forall>t \<in> set ds. \<not> alive s t" "alive s n" using assms(4) first_alive by blast
  moreover have "n \<in> set ts" using set_after [OF assms(2)] a(1) by auto
  ultimately show thesis using schedule_step [OF assms(1,2) a assms(5)] that by blast
qed

fun yields :: "nat \<Rightarrow> 'a sched_scheme \<Rightarrow> 'a sched_scheme option" where
  "yields 0 s = Some s"
| "yields (Suc n) s = Option.bind (schedule s) (yields n)"

lemma yields_reach:
  assumes "queue s ts" "running_thread s \<in> set ts" "alive s t"
    "\<forall>t. t_state (threads s t) = THREAD_STATE_RUNNING \<longrightarrow> t = running_thread s"
    "after (running_thread s) ts = us @ t # vs"
  shows "\<exists>n s'. n \<le> Suc (length us) \<and> yields n s = Some s' \<and> running_thread s' = t"
  using assms
proof (induction "length us" arbitrary: us vs s rule: less_induct)
  case less
  have "t \<in> set ts" using set_after [OF less.prems(2)] less.prems(5) by auto
  from schedule_total [OF less.prems(1,2) this less.prems(3,4)]
  obtain s' ds n es where s': "schedule s = Some s'" "running_thread s' = n" "n \<in> set ts" "queue s' ts"
    "\<forall>t. alive s' t = alive s t" "\<forall>t. t_state (threads s' t) = THREAD_STATE_RUNNING \<longrightarrow> t = n"
    and a: "after (running_thread s) ts = ds @ n # es" "\<forall>t \<in> set ds. \<not> alive s t" by metis
  show ?case
  proof (cases "n = t")
    case True
    with s'(1,2) show ?thesis by (intro exI [of _ 1]) simp
  next
    case False
    have eq: "us @ t # vs = ds @ n # es" using a(1) less.prems(5) by simp
    have "\<not> length us < length ds"
    proof
      assume "length us < length ds"
      then have "(us @ t # vs) ! length us \<in> set ds" unfolding eq by (simp add: nth_append)
      with a(2) less.prems(3) show False by simp
    qed
    moreover have "length us \<noteq> length ds" using eq False by auto
    ultimately have l: "length ds < length us" by simp
    have "take (length ds) (us @ t # vs) = take (length ds) (ds @ n # es)" by (simp only: eq)
    then have "ds = take (length ds) us" using l by simp
    then obtain ws where ws: "us = ds @ ws" by (metis append_take_drop_id)
    with eq l obtain zs where zs: "ws = n # zs" "es = zs @ t # vs"
      by (cases ws) auto
    have "after n ts = zs @ t # (vs @ ds @ [n])"
      using after_step [OF _ less.prems(2) a(1)] less.prems(1) zs(2) by (simp add: queue_def)
    moreover have "length zs < length us" using ws zs by simp
    ultimately obtain k s'' where "k \<le> Suc (length zs)" "yields k s' = Some s''" "running_thread s'' = t"
      using less.hyps [of zs s' "vs @ ds @ [n]"] s' less.prems(3) by auto
    with s'(1) ws zs show ?thesis by (intro exI [of _ "Suc k"] exI [of _ s'']) simp
  qed
qed

text \<open>When every thread is dead the search never ends.\<close>

lemma pick_thread_alive: "pick_thread ths h p = Some t \<Longrightarrow> \<not> dead ths t"
  by (rule pick_thread.raw_induct [where P = "\<lambda>ths h p t. \<not> dead ths t"])
    (auto simp: Let_def split: if_splits)

lemma pick_thread_queue:
  "pick_thread ths h p = Some t \<Longrightarrow>
     (\<exists>ts. qpath ths h ts 0 \<and> ts \<noteq> [] \<and> set ts \<subseteq> Q) \<longrightarrow>
     (\<exists>us. qpath ths p us 0 \<and> set us \<subseteq> Q) \<longrightarrow> t \<in> Q"
proof (rule pick_thread.raw_induct
    [where P = "\<lambda>ths h p t. (\<exists>ts. qpath ths h ts 0 \<and> ts \<noteq> [] \<and> set ts \<subseteq> Q) \<longrightarrow>
      (\<exists>us. qpath ths p us 0 \<and> set us \<subseteq> Q) \<longrightarrow> t \<in> Q"])
  fix pk :: "(u64 \<Rightarrow> thread) \<Rightarrow> u64 \<Rightarrow> u64 \<Rightarrow> u64 option" and ths h p t
  assume IH: "\<And>ths h p t. pk ths h p = Some t \<Longrightarrow>
      (\<exists>ts. qpath ths h ts 0 \<and> ts \<noteq> [] \<and> set ts \<subseteq> Q) \<longrightarrow>
      (\<exists>us. qpath ths p us 0 \<and> set us \<subseteq> Q) \<longrightarrow> t \<in> Q"
    and step: "(let t = if p = 0 then h else p
      in if t_state (ths t) = THREAD_STATE_READY \<or> t_state (ths t) = THREAD_STATE_RUNNING then Some t
         else if dead ths t then pk ths h (t_next (ths t)) else pk ths h t) = Some t"
  show "(\<exists>ts. qpath ths h ts 0 \<and> ts \<noteq> [] \<and> set ts \<subseteq> Q) \<longrightarrow>
      (\<exists>us. qpath ths p us 0 \<and> set us \<subseteq> Q) \<longrightarrow> t \<in> Q"
  proof (intro impI)
    assume h: "\<exists>ts. qpath ths h ts 0 \<and> ts \<noteq> [] \<and> set ts \<subseteq> Q"
      and p: "\<exists>us. qpath ths p us 0 \<and> set us \<subseteq> Q"
    define c where "c = (if p = 0 then h else p)"
    obtain us where us: "qpath ths c us 0" "us \<noteq> []" "set us \<subseteq> Q"
    proof (cases "p = 0")
      case True
      with h that show thesis by (auto simp: c_def)
    next
      case False
      from p obtain us where us: "qpath ths p us 0" "set us \<subseteq> Q" by blast
      with False have "us \<noteq> []" by auto
      with us False that [of us] show thesis by (simp add: c_def)
    qed
    then have c: "c \<in> Q" and nx: "\<exists>us. qpath ths (t_next (ths c)) us 0 \<and> set us \<subseteq> Q"
      by (cases us; auto)+
    show "t \<in> Q"
    proof (cases "t_state (ths c)")
      case THREAD_STATE_DEAD
      with step have "pk ths h (t_next (ths c)) = Some t" by (simp add: Let_def c_def)
      with IH h nx show ?thesis by blast
    qed (use step c in \<open>auto simp: Let_def c_def\<close>)
  qed
qed

lemma schedule_all_dead:
  assumes "queue s ts" "running_thread s \<in> set ts" "\<forall>t \<in> set ts. \<not> alive s t"
  shows "schedule s = None"
proof -
  have h: "qpath (threads s) (thread_queue_head s) ts 0" "ts \<noteq> []"
    using assms(1,2) by (auto simp: queue_def)
  obtain xs ys where "ts = xs @ running_thread s # ys" using assms(2) by (metis split_list)
  with h(1) have "qpath (threads s) (t_next (threads s (running_thread s))) ys 0" "set ys \<subseteq> set ts"
    by auto
  with h have "t \<in> set ts" "alive s t"
    if "pick_thread (threads s) (thread_queue_head s) (t_next (threads s (running_thread s))) = Some t" for t
    using pick_thread_queue [OF that, of "set ts"] pick_thread_alive [OF that]
    by (auto simp: alive_def)
  then have "pick_thread (threads s) (thread_queue_head s) (t_next (threads s (running_thread s))) = None"
    using assms(3) by (cases "pick_thread (threads s) (thread_queue_head s) (t_next (threads s (running_thread s)))") auto
  moreover have "thread_queue_head s \<noteq> 0" using h by (cases ts) auto
  ultimately show ?thesis by (simp add: schedule_def Let_def)
qed


subsection \<open>Creating a thread\<close>

lemma heap_more_sched:
  fixes s s' :: "'a sched_scheme"
  assumes "heap.more s' = heap.more s"
  shows "threads s' = threads s" "thread_queue_head s' = thread_queue_head s"
    "running_thread s' = running_thread s" "main_kernel_thread s' = main_kernel_thread s"
    "stack_mem s' = stack_mem s" "next_thread_id s' = next_thread_id s"
    "kthread_exit_addr s' = kthread_exit_addr s" "cpu s' = cpu s" "after_switch s' = after_switch s"
  using assms by (cases s; cases s'; simp)+

lemma queue_tail_last: "qpath ths p (xs @ [l]) 0 \<Longrightarrow> queue_tail ths p = Some l"
proof (induction xs arbitrary: p)
  case Nil
  then show ?case by (subst queue_tail.simps) auto
next
  case (Cons x xs)
  then have "t_next (ths p) \<noteq> 0" by (cases xs) auto
  with Cons show ?case by (subst queue_tail.simps) auto
qed

text \<open>The running thread is marked so, the heap is in order, and every control block but the boot thread's is a live region.\<close>

definition sched_ok :: "'a sched_scheme \<Rightarrow> bool" where
  "sched_ok s \<longleftrightarrow> sched_inv s \<and> heap_inv s \<and> main_kernel_thread s < HEAP_START \<and>
     t_state (threads s (running_thread s)) = THREAD_STATE_RUNNING \<and>
     (\<forall>ts. queue s ts \<longrightarrow> (\<forall>t \<in> set ts. t = main_kernel_thread s \<or> (\<exists>m \<ge> 40. (t, m) \<in> live s)))"

lemma prepare_stack_spec:
  "prepare_stack b x e m =
     (b + stack_size - 64, m(b + stack_size - 8 := x, b + stack_size - 16 := e,
       b + stack_size - 24 := 0, b + stack_size - 32 := 0, b + stack_size - 40 := 0,
       b + stack_size - 48 := 0, b + stack_size - 56 := 0, b + stack_size - 64 := 0))"
  by (simp add: prepare_stack_def store_below_def for_up_step diff_diff_eq)

text \<open>One allocation moves the end of the heap by little more than the request.\<close>

lemma kmalloc_end:
  fixes s :: "'a heap_scheme"
  assumes "heap_inv s" "n \<noteq> 0" "heap_room s n" "kmalloc n s = Some (p, s')"
  shows "unat (heap_end s') \<le> unat (heap_end s) + unat n + 8192"
proof -
  obtain bs where bs: "heap_list s bs" "heap_end s \<noteq> 0" using assms(1) by (auto simp: heap_inv_def)
  have room: "unat (heap_end s) + unat n + 8192 < 2 ^ 64" using assms(3) by (simp add: heap_room_def)
  show ?thesis
  proof (cases "first_fit (round16 (unat n)) bs")
    case None
    have "round_page (round16 (unat n) + 24) \<le> unat n + 8192"
      using round_page_bounds(2) [of "round16 (unat n) + 24"] round16_bounds(2) [of "unat n"] by simp
    with kmalloc_grow [OF bs assms(2) room None assms(4)] show ?thesis by simp
  next
    case (Some r)
    obtain a cs where r: "r = (a, cs)" by (cases r)
    have "unat n + 64 < 2 ^ 64" using room by simp
    from kmalloc_reuse [OF bs(1) assms(2) this Some [unfolded r]] assms(4) show ?thesis by auto
  qed
qed

definition thread_room :: "'a sched_scheme \<Rightarrow> bool" where
  "thread_room s \<longleftrightarrow> unat (heap_end s) + 65536 < 2 ^ 64"

text \<open>The two allocations of \<open>kthread_create\<close>.\<close>

lemma thread_allocs:
  fixes s :: "'a sched_scheme"
  assumes inv: "heap_inv s" and room: "thread_room s"
    and a: "kmalloc sizeof_thread s = Some (t, s1)" and b: "kmalloc stack_size s1 = Some (st, s2)"
  shows "heap_inv s2 \<and> t \<noteq> 0 \<and> st \<noteq> 0 \<and> heap.more s2 = heap.more s \<and>
    (\<exists>m k. 40 \<le> m \<and> 16384 \<le> k \<and> (t, m) \<in> live s2 \<and> (st, k) \<in> live s2 \<and>
      regions_apart (t, m) (st, k) \<and>
      (\<forall>r \<in> live s. r \<in> live s2 \<and> regions_apart (t, m) r \<and> regions_apart (st, k) r))"
proof -
  have n: "sizeof_thread \<noteq> 0" "unat sizeof_thread = 40" "stack_size \<noteq> 0" "unat stack_size = 16384"
    by (simp_all add: sizeof_thread_def stack_size_def)
  have r1: "heap_room s sizeof_thread" using room n by (simp add: heap_room_def thread_room_def)
  have "heap_room s1 stack_size"
    using kmalloc_end [OF inv n(1) r1 a] room n by (simp add: heap_room_def thread_room_def)
  note two = kheap.alloc_twice [OF inv n(1) r1 a n(3) this b]
  have l1: "heap_inv s1" "t \<noteq> 0" using kheap.alloc_live [OF inv n(1) r1 a] by auto
  have "heap_inv s2" "st \<noteq> 0"
    using kheap.alloc_live [OF l1(1) n(3) \<open>heap_room s1 stack_size\<close> b] by auto
  moreover have "heap.more s2 = heap.more s" using kmalloc_more [OF a] kmalloc_more [OF b] by simp
  ultimately show ?thesis using two l1(2) n by auto
qed

lemma apart_ptr: "regions_apart (p, m) (q, k) \<Longrightarrow> 0 < m \<Longrightarrow> 0 < k \<Longrightarrow> p \<noteq> q"
  by (auto simp: regions_apart_def)

lemma thread_fresh:
  assumes "sched_ok s" "queue s ts" "heap_inv s2" "(t, mt) \<in> live s2" "40 \<le> mt"
    and apart: "\<And>r. r \<in> live s \<Longrightarrow> regions_apart (t, mt) r"
  shows "t \<notin> set ts"
proof
  assume "t \<in> set ts"
  then consider "t = main_kernel_thread s" | m where "m \<ge> 40" "(t, m) \<in> live s"
    using assms(1,2) unfolding sched_ok_def by blast
  then show False
  proof cases
    case 1
    with live_above [OF assms(3,4)] assms(1) show ?thesis by (simp add: sched_ok_def word_less_nat_alt)
  next
    case 2
    with apart_ptr [OF apart [OF 2(2)]] assms(5) show ?thesis by auto
  qed
qed

text \<open>Linking a new control block behind the last one.\<close>

lemma enqueue:
  assumes p: "qpath ths h (xs @ [l]) 0" and d: "distinct (xs @ [l])" and t: "t \<notin> set (xs @ [l])" "t \<noteq> 0"
    and n: "t_next c = 0"
  defines "ths4 \<equiv> ths(t := c)"
  shows "queue_tail ths4 h = Some l"
    "qpath (ths4(l := (ths4 l)\<lparr>t_next := t\<rparr>)) h ((xs @ [l]) @ [t]) 0"
proof -
  have "qpath ths4 h (xs @ [l]) 0 = qpath ths h (xs @ [l]) 0"
    by (rule qpath_cong) (use t in \<open>auto simp: ths4_def\<close>)
  with p show "queue_tail ths4 h = Some l" using queue_tail_last by blast
  have px: "qpath ths h xs l" "l \<noteq> 0" using p by auto
  have "qpath (ths4(l := (ths4 l)\<lparr>t_next := t\<rparr>)) h xs l = qpath ths h xs l"
    by (rule qpath_cong) (use d t in \<open>auto simp: ths4_def\<close>)
  with px t n show "qpath (ths4(l := (ths4 l)\<lparr>t_next := t\<rparr>)) h ((xs @ [l]) @ [t]) 0"
    by (auto simp: ths4_def)
qed

lemma running_on_queue: "sched_ok s \<Longrightarrow> queue s ts \<Longrightarrow> running_thread s \<in> set ts"
  using qpath_unique by (auto simp: sched_ok_def sched_inv_def queue_def)

text \<open>What a returning \<open>kthread_create\<close> has done.\<close>

lemma kthread_create_result:
  assumes ok: "sched_ok s" and q: "queue s ts" and room: "thread_room s"
    and c: "kthread_create e s = Some (t, s')"
  defines "tos \<equiv> t_rsp (threads s' t)"
  shows "queue s' (ts @ [t])" "t \<notin> set ts" "running_thread s' = running_thread s"
    "\<And>u. u \<noteq> t \<Longrightarrow> t_state (threads s' u) = t_state (threads s u)"
    "t_state (threads s' t) = THREAD_STATE_READY" "t_id (threads s' t) = next_thread_id s"
    "next_thread_id s' = next_thread_id s + 1" "sched_ok s'"
    "stack_mem s' (tos + 48) = e" "stack_mem s' (tos + 56) = kthread_exit_addr s"
    "\<And>i. i \<in> {0, 8, 16, 24, 32, 40} \<Longrightarrow> stack_mem s' (tos + i) = 0"
    "\<exists>k \<ge> 16384. (t_stack_bottom (threads s' t), k) \<in> live s' \<and> tos = t_stack_bottom (threads s' t) + stack_size - 64 \<and>
       (\<forall>r \<in> live s. regions_apart (t_stack_bottom (threads s' t), k) r)"
proof -
  have hi: "heap_inv s" and main: "main_kernel_thread s < HEAP_START"
    and mem: "\<And>u. u \<in> set ts \<Longrightarrow> u = main_kernel_thread s \<or> (\<exists>m \<ge> 40. (u, m) \<in> live s)"
    using ok q by (auto simp: sched_ok_def)
  have n: "sizeof_thread \<noteq> 0" "heap_room s sizeof_thread"
    using room by (simp_all add: sizeof_thread_def heap_room_def thread_room_def)
  from c obtain t0 s1 where a: "kmalloc sizeof_thread s = Some (t0, s1)"
    by (auto simp: kthread_create_def bind_eq_Some_conv)
  have t0: "t0 \<noteq> 0" using kheap.alloc_live [OF hi n a] by blast
  with c a obtain st s2 where b: "kmalloc stack_size s1 = Some (st, s2)"
    by (auto simp: kthread_create_def bind_eq_Some_conv)
  note al = thread_allocs [OF hi room a b]
  note sc = heap_more_sched [of s2 s]
  have fr: "threads s2 = threads s" "thread_queue_head s2 = thread_queue_head s"
    "running_thread s2 = running_thread s" "main_kernel_thread s2 = main_kernel_thread s"
    "stack_mem s2 = stack_mem s" "next_thread_id s2 = next_thread_id s"
    "kthread_exit_addr s2 = kthread_exit_addr s" using al heap_more_sched [of s2 s] by simp_all
  define m where "m = (stack_mem s)(st + stack_size - 8 := kthread_exit_addr s, st + stack_size - 16 := e,
       st + stack_size - 24 := 0, st + stack_size - 32 := 0, st + stack_size - 40 := 0,
       st + stack_size - 48 := 0, st + stack_size - 56 := 0, st + stack_size - 64 := 0)"
  define s4 where "s4 = (set_thread t0 (\<lambda>_. \<lparr>t_rsp = st + stack_size - 64, t_id = next_thread_id s,
      t_state = THREAD_STATE_READY, t_stack_bottom = st, t_next = 0\<rparr>) s2)
    \<lparr>next_thread_id := next_thread_id s + 1, stack_mem := m\<rparr>"
  have "st \<noteq> 0" using al by blast
  then obtain cur where cur: "queue_tail (threads s4) (thread_queue_head s4) = Some cur"
    and t: "t = t0" and s': "s' = set_thread cur (\<lambda>c. c\<lparr>t_next := t0\<rparr>) s4"
    using c a b t0
    by (auto simp: kthread_create_def bind_eq_Some_conv prepare_stack_spec s4_def m_def fr Let_def)
  obtain mt k where l: "40 \<le> mt" "16384 \<le> k" "(t, mt) \<in> live s2" "(st, k) \<in> live s2"
    "\<And>r. r \<in> live s \<Longrightarrow> r \<in> live s2 \<and> regions_apart (t, mt) r \<and> regions_apart (st, k) r"
    using al t by blast
  have hi2: "heap_inv s2" using al by blast
  show tts: "t \<notin> set ts"
    by (rule thread_fresh [OF ok q hi2 l(3,1)]) (use l(5) in blast)
  have rq: "running_thread s \<in> set ts" by (rule running_on_queue [OF ok q])
  then obtain xs l where ts: "ts = xs @ [l]" by (cases ts rule: rev_cases) auto
  have th4: "threads s4 = (threads s)(t := threads s4 t)" by (simp add: s4_def t fr)
  have h4: "thread_queue_head s4 = thread_queue_head s" by (simp add: s4_def fr)
  have "t_next (threads s4 t) = 0" by (simp add: s4_def t)
  note enq = enqueue [of "threads s" "thread_queue_head s" xs l t "threads s4 t",
    OF _ _ _ _ this, folded th4, folded ts]
  have enq: "queue_tail (threads s4) (thread_queue_head s) = Some l"
    "qpath ((threads s4)(l := (threads s4 l)\<lparr>t_next := t\<rparr>)) (thread_queue_head s) (ts @ [t]) 0"
    using enq tts t0 t q by (simp_all add: queue_def)
  have cl: "cur = l" using cur enq(1) by (simp add: h4)
  have ct: "cur \<noteq> t" using tts ts cl by auto
  have th': "threads s' = (threads s4)(cur := (threads s4 cur)\<lparr>t_next := t\<rparr>)" by (simp add: s' t)
  have nt: "threads s' t = \<lparr>t_rsp = st + stack_size - 64, t_id = next_thread_id s,
      t_state = THREAD_STATE_READY, t_stack_bottom = st, t_next = 0\<rparr>"
    using ct by (simp add: th') (simp add: s4_def t)
  show st': "t_state (threads s' u) = t_state (threads s u)" if "u \<noteq> t" for u
    using that ct by (simp add: th') (subst (1 2) th4, simp)
  show rt: "running_thread s' = running_thread s" by (simp add: s' s4_def fr)
  show "t_state (threads s' t) = THREAD_STATE_READY" "t_id (threads s' t) = next_thread_id s"
    by (simp_all add: nt)
  show "next_thread_id s' = next_thread_id s + 1" by (simp add: s' s4_def)
  have tos: "tos = st + stack_size - 64" by (simp add: tos_def nt)
  have "stack_mem s' = m" by (simp add: s' s4_def)
  then show "stack_mem s' (tos + 48) = e" "stack_mem s' (tos + 56) = kthread_exit_addr s"
    "\<And>i. i \<in> {0, 8, 16, 24, 32, 40} \<Longrightarrow> stack_mem s' (tos + i) = 0"
    by (auto simp: m_def tos)
  have lv: "live s' = live s2" "heap_inv s' = heap_inv s2"
    using heap_cong [of s' s2] by (simp_all add: s' s4_def)
  then show "\<exists>k \<ge> 16384. (t_stack_bottom (threads s' t), k) \<in> live s' \<and>
      tos = t_stack_bottom (threads s' t) + stack_size - 64 \<and>
      (\<forall>r \<in> live s. regions_apart (t_stack_bottom (threads s' t), k) r)"
    using l by (auto simp: nt tos)
  have h': "thread_queue_head s' = thread_queue_head s" by (simp add: s' h4)
  have "qpath (threads s') (thread_queue_head s') (ts @ [t]) 0"
    using enq(2) by (simp add: th' cl h')
  then show q': "queue s' (ts @ [t])" using q tts by (simp add: queue_def)
  have "t_state (threads s' u) = THREAD_STATE_RUNNING \<Longrightarrow> u = running_thread s" for u
    using st' [of u] nt ok by (cases "u = t") (auto simp: sched_ok_def sched_inv_def)
  then have "sched_inv s'"
    using q' rq rt by (auto simp: sched_inv_def)
  moreover have mk: "main_kernel_thread s' = main_kernel_thread s" by (simp add: s' s4_def fr)
  moreover have "t_state (threads s' (running_thread s')) = THREAD_STATE_RUNNING"
    using ok st' [of "running_thread s"] rq tts rt by (auto simp: sched_ok_def)
  moreover have "us = ts @ [t]" if "queue s' us" for us
    using that q' qpath_unique by (auto simp: queue_def)
  moreover have "u = main_kernel_thread s \<or> (\<exists>m \<ge> 40. (u, m) \<in> live s')" if "u \<in> set (ts @ [t])" for u
  proof (cases "u = t")
    case True
    with l(1,3) lv(1) show ?thesis by blast
  next
    case False
    then have "u \<in> set ts" using that by simp
    from mem [OF this] l(5) lv(1) show ?thesis by blast
  qed
  moreover have "heap_inv s'" using hi2 lv(2) by simp
  ultimately show "sched_ok s'" using main unfolding sched_ok_def mk by blast
qed


subsection \<open>Switching\<close>

text \<open>What a switch keeps: everything but the processor, the stacks and the thread table.\<close>

definition same_kernel :: "'a sched_scheme \<Rightarrow> 'a sched_scheme \<Rightarrow> bool" where
  "same_kernel s s' \<longleftrightarrow> hdrs s' = hdrs s \<and> head s' = head s \<and> heap_end s' = heap_end s \<and>
     main_kernel_thread s' = main_kernel_thread s \<and> next_thread_id s' = next_thread_id s \<and>
     kthread_exit_addr s' = kthread_exit_addr s \<and> ptes s' = ptes s \<and> bitmap s' = bitmap s"

lemma same_kernel_trans: "same_kernel s t \<Longrightarrow> same_kernel t u \<Longrightarrow> same_kernel s u"
  by (simp add: same_kernel_def)

lemma same_kernel_refl [simp]: "same_kernel s s"
  by (simp add: same_kernel_def)

lemma same_kernel_update [simp]:
  "same_kernel s (s'\<lparr>cpu := c\<rparr>) = same_kernel s s'" "same_kernel s (s'\<lparr>threads := a\<rparr>) = same_kernel s s'"
  "same_kernel s (s'\<lparr>stack_mem := m\<rparr>) = same_kernel s s'"
  "same_kernel s (s'\<lparr>running_thread := r\<rparr>) = same_kernel s s'"
  by (simp_all add: same_kernel_def)

lemma fold_push_same: "same_kernel s s' \<Longrightarrow> same_kernel s (fold push vs s')"
  by (induction vs arbitrary: s') (simp_all add: push_def Let_def)

lemma context_switch_same: "same_kernel s s' \<Longrightarrow> same_kernel s (context_switch old r s')"
proof -
  assume "same_kernel s s'"
  define s2 where "s2 = set_thread old (\<lambda>c. c\<lparr>t_rsp := rsp (cpu (fold push (callee_saved (cpu s')) s'))\<rparr>)
    (fold push (callee_saved (cpu s')) s')"
  have "same_kernel s s2" using fold_push_same [OF \<open>same_kernel s s'\<close>] by (simp add: s2_def)
  obtain regs s4 where 4: "pop_regs 6 (s2\<lparr>cpu := (cpu s2)\<lparr>rsp := r\<rparr>\<rparr>) = (regs, s4)" by force
  obtain pc s5 where 5: "pop_word s4 = (pc, s5)" by force
  have "context_switch old r s' = s5\<lparr>cpu := (cpu s5)\<lparr>callee_saved := regs, rip := pc\<rparr>\<rparr>"
    using 4 5 by (simp add: context_switch_def Let_def s2_def)
  with pop_regs_frame [OF 4] pop_word_frame [OF 5] \<open>same_kernel s s2\<close> show ?thesis by auto
qed

lemma schedule_same: "schedule s = Some s' \<Longrightarrow> same_kernel s s'"
  by (auto simp: schedule_def Let_def bind_eq_Some_conv push_def intro!: context_switch_same split: if_splits)

lemma sched_ok_alive: "sched_ok s \<Longrightarrow> alive s (running_thread s)"
  by (simp add: sched_ok_def alive_def)

lemma sched_ok_one: "sched_ok s \<Longrightarrow> \<forall>t. t_state (threads s t) = THREAD_STATE_RUNNING \<longrightarrow> t = running_thread s"
  by (simp add: sched_ok_def sched_inv_def)

text \<open>A switch to a live thread of the queue leaves the scheduler in order.\<close>

lemma switched_ok:
  assumes h: "heap_inv s" "main_kernel_thread s < HEAP_START"
    and m: "\<forall>t \<in> set ts. t = main_kernel_thread s \<or> (\<exists>m \<ge> 40. (t, m) \<in> live s)"
    and q': "queue s' ts" "running_thread s' \<in> set ts"
    and st: "\<forall>t. t_state (threads s' t) = THREAD_STATE_RUNNING \<longrightarrow> t = running_thread s'"
      "t_state (threads s' (running_thread s')) = THREAD_STATE_RUNNING"
    and same: "same_kernel s s'"
  shows "sched_ok s'"
proof -
  have "live s' = live s" "heap_inv s'"
    using heap_cong [of s' s] same h(1) by (simp_all add: same_kernel_def)
  moreover have "main_kernel_thread s' = main_kernel_thread s" using same by (simp add: same_kernel_def)
  moreover have "us = ts" if "queue s' us" for us
    using that q'(1) qpath_unique by (auto simp: queue_def)
  moreover have "sched_inv s'" using q' st(1) unfolding sched_inv_def by blast
  ultimately show ?thesis
    unfolding sched_ok_def using h(2) m st(2) by simp
qed

lemma schedule_ok:
  assumes ok: "sched_ok s" and q: "queue s ts"
  obtains s' ds n es where "schedule s = Some s'" "running_thread s' = n" "queue s' ts" "sched_ok s'"
    "\<forall>t. alive s' t = alive s t" "alive s n" "n \<in> set ts"
    "after (running_thread s) ts = ds @ n # es" "\<forall>t \<in> set ds. \<not> alive s t"
proof -
  define r where "r = running_thread s"
  have rq: "r \<in> set ts" using running_on_queue [OF ok q] by (simp add: r_def)
  then have "r \<in> set (after r ts)" by (simp add: set_after)
  then obtain ds n es where a: "after r ts = ds @ n # es" "\<forall>t \<in> set ds. \<not> alive s t" "alive s n"
    using sched_ok_alive [OF ok] first_alive unfolding r_def by blast
  have n: "n \<in> set ts" using set_after [OF rq] a(1) by auto
  from schedule_step [OF q rq [unfolded r_def] a [unfolded r_def] sched_ok_one [OF ok]]
  obtain s' where s': "schedule s = Some s'" "running_thread s' = n" "queue s' ts"
    "\<forall>t. alive s' t = alive s t" "\<forall>t. t_state (threads s' t) = THREAD_STATE_RUNNING \<longrightarrow> t = n"
    "n \<noteq> r \<longrightarrow> t_state (threads s' n) = THREAD_STATE_RUNNING" "n = r \<longrightarrow> s' = s"
    unfolding r_def by blast
  have "t_state (threads s' n) = THREAD_STATE_RUNNING"
    using s'(6,7) ok by (cases "n = r") (auto simp: r_def sched_ok_def)
  note run = this
  have f: "heap_inv s" "main_kernel_thread s < HEAP_START"
    "\<forall>t \<in> set ts. t = main_kernel_thread s \<or> (\<exists>m \<ge> 40. (t, m) \<in> live s)"
    using ok q unfolding sched_ok_def by blast+
  have "sched_ok s'"
    by (rule switched_ok [OF f s'(3) _ _ _ schedule_same [OF s'(1)]])
      (unfold s'(2), rule n, rule s'(5), rule run)
  with s'(1-4) a n that show thesis unfolding r_def by blast
qed


subsection \<open>Registers and stacks across a switch\<close>

text \<open>The words a suspended thread's frame takes, and those a switch writes.\<close>

definition saved_frame :: "u64 \<Rightarrow> u64 set" where
  "saved_frame p = {p, p + 8, p + 16, p + 24, p + 32, p + 40, p + 48}"

definition spill :: "u64 \<Rightarrow> u64 set" where
  "spill p = {p - 8, p - 16, p - 24, p - 32, p - 40, p - 48}"

lemma list6: "length xs = 6 \<Longrightarrow> \<exists>a b c d e f. xs = [a, b, c, d, e, f]"
  by (simp add: numeral_eq_Suc length_Suc_conv) blast

lemma fold_push_six:
  assumes "length regs = 6"
  shows "rsp (cpu (fold push regs s)) = rsp (cpu s) - 48"
    "stack_mem (fold push regs s) = (stack_mem s)
      (rsp (cpu s) - 8 := regs ! 0, rsp (cpu s) - 16 := regs ! 1, rsp (cpu s) - 24 := regs ! 2,
       rsp (cpu s) - 32 := regs ! 3, rsp (cpu s) - 40 := regs ! 4, rsp (cpu s) - 48 := regs ! 5)"
  using list6 [OF assms] by (auto simp: push_def Let_def diff_diff_eq)

lemma pop_regs_6: "pop_regs 6 s =
  ([stack_mem s (rsp (cpu s) + 40), stack_mem s (rsp (cpu s) + 32), stack_mem s (rsp (cpu s) + 24),
    stack_mem s (rsp (cpu s) + 16), stack_mem s (rsp (cpu s) + 8), stack_mem s (rsp (cpu s))],
   s\<lparr>cpu := (cpu s)\<lparr>rsp := rsp (cpu s) + 48\<rparr>\<rparr>)"
proof -
  have "(6 :: nat) = Suc (Suc (Suc (Suc (Suc (Suc 0)))))" by simp
  then show ?thesis by (simp only: pop_regs.simps) (simp add: pop_word_def Let_def add.assoc)
qed

lemma context_switch_cpu:
  assumes "length (callee_saved (cpu s)) = 6"
  defines "m \<equiv> stack_mem (fold push (callee_saved (cpu s)) s)"
  shows "cpu (context_switch old r s) = \<lparr>callee_saved = [m (r + 40), m (r + 32), m (r + 24),
      m (r + 16), m (r + 8), m r], rsp = r + 56, rip = m (r + 48)\<rparr>"
    "stack_mem (context_switch old r s) = m"
    "t_rsp (threads (context_switch old r s) old) = rsp (cpu s) - 48"
  by (simp_all add: context_switch_def Let_def pop_regs_6 pop_word_def m_def fold_push_six assms(1)
      add.assoc cpu.equality)

lemma fold_push_other:
  "length regs = 6 \<Longrightarrow> a \<notin> spill (rsp (cpu s)) \<Longrightarrow> stack_mem (fold push regs s) a = stack_mem s a"
  by (auto simp: fold_push_six spill_def)

text \<open>Resuming at a frame the switch itself does not overwrite.\<close>

lemma context_switch_resume:
  assumes "length (callee_saved (cpu s)) = 6" "spill (rsp (cpu s)) \<inter> saved_frame r = {}"
  shows "cpu (context_switch old r s) = \<lparr>callee_saved = [stack_mem s (r + 40), stack_mem s (r + 32),
      stack_mem s (r + 24), stack_mem s (r + 16), stack_mem s (r + 8), stack_mem s r],
      rsp = r + 56, rip = stack_mem s (r + 48)\<rparr>"
proof -
  have "stack_mem (fold push (callee_saved (cpu s)) s) a = stack_mem s a" if "a \<in> saved_frame r" for a
    using fold_push_other [OF assms(1)] that assms(2) by blast
  then show ?thesis by (simp add: context_switch_cpu assms(1) saved_frame_def)
qed

lemma frame_distinct:
  fixes p :: u64
  assumes "i < 2 ^ 32" "j < 2 ^ 32"
  shows "p - of_nat i = p - of_nat j \<longleftrightarrow> i = j"
proof -
  have "p - of_nat i = p - of_nat j \<longleftrightarrow> (of_nat i :: u64) = of_nat j" by auto
  then show ?thesis using assms by (simp add: word_unat_eq_iff unat_of_nat)
qed


subsection \<open>Properties\<close>

text \<open>
  C16. \<open>schedule\<close> always returns in a well-formed system and is round robin: going round the
  queue from the running thread it switches to the first thread that is not dead, marks it as
  the one running thread, and loses none.
\<close>

theorem schedule_round_robin:
  assumes "sched_ok s" and "queue s ts"
  shows "\<exists>s' ds n es. schedule s = Some s' \<and> after (running_thread s) ts = ds @ n # es \<and>
    (\<forall>t \<in> set ds. \<not> alive s t) \<and> alive s n \<and> running_thread s' = n \<and>
    sched_ok s' \<and> queue s' ts \<and> (\<forall>t. alive s' t = alive s t)"
  using schedule_ok [OF assms] by metis

text \<open>
  C17. No live thread starves: it runs after at most as many calls of \<open>schedule\<close> as there are
  threads on the queue.
\<close>

theorem schedule_fair:
  assumes "sched_ok s" and "queue s ts" and "t \<in> set ts" and "alive s t"
  shows "\<exists>n s'. n \<le> length ts \<and> yields n s = Some s' \<and> running_thread s' = t"
proof -
  have r: "running_thread s \<in> set ts" by (rule running_on_queue [OF assms(1,2)])
  then obtain us vs where a: "after (running_thread s) ts = us @ t # vs"
    using set_after [OF r] assms(3) by (metis split_list)
  then have "Suc (length us) \<le> length ts" using length_after [OF r] by simp
  moreover obtain n s' where "n \<le> Suc (length us)" "yields n s = Some s'" "running_thread s' = t"
    using yields_reach [OF assms(2) r assms(4) sched_ok_one [OF assms(1)] a] by blast
  ultimately show ?thesis by (intro exI [of _ n] exI [of _ s']) simp
qed

lemma kthread_exit_dead:
  assumes ok: "sched_ok s" and q: "queue s ts"
  defines "d \<equiv> set_thread (running_thread s) (\<lambda>c. c\<lparr>t_state := THREAD_STATE_DEAD\<rparr>) s"
  shows "queue d ts" "running_thread d \<in> set ts" "same_kernel s d"
    "\<forall>t. t_state (threads d t) = THREAD_STATE_RUNNING \<longrightarrow> t = running_thread d"
    "\<And>t. alive d t \<longleftrightarrow> t \<noteq> running_thread s \<and> alive s t"
proof -
  have "qpath (threads d) (thread_queue_head s) ts 0 = qpath (threads s) (thread_queue_head s) ts 0"
    by (rule qpath_cong) (simp add: d_def)
  then show "queue d ts" using q by (simp add: queue_def d_def)
  show "running_thread d \<in> set ts" using running_on_queue [OF ok q] by (simp add: d_def)
  show "same_kernel s d" by (simp add: d_def)
  show "\<forall>t. t_state (threads d t) = THREAD_STATE_RUNNING \<longrightarrow> t = running_thread d"
    using sched_ok_one [OF ok] by (simp add: d_def)
  show "alive d t \<longleftrightarrow> t \<noteq> running_thread s \<and> alive s t" for t by (simp add: alive_def d_def)
qed

lemma kthread_exit_result:
  assumes "sched_ok s" and "queue s ts"
  shows "if \<exists>t \<in> set ts. t \<noteq> running_thread s \<and> alive s t
    then \<exists>s'. kthread_exit s = Some s' \<and> sched_ok s' \<and> queue s' ts \<and>
      running_thread s' \<noteq> running_thread s \<and>
      (\<forall>t. alive s' t \<longleftrightarrow> t \<noteq> running_thread s \<and> alive s t)
    else kthread_exit s = None"
proof -
  define r where "r = running_thread s"
  define d where "d = set_thread r (\<lambda>c. c\<lparr>t_state := THREAD_STATE_DEAD\<rparr>) s"
  note D = kthread_exit_dead [OF assms, folded r_def, folded d_def]
  have ke: "kthread_exit s = Option.bind (schedule d) (\<lambda>s'. if running_thread s' = r then None else Some s')"
    by (simp add: kthread_exit_def d_def r_def)
  have rd: "running_thread d = r" by (simp add: d_def r_def)
  show ?thesis
  proof (cases "\<exists>t \<in> set ts. t \<noteq> r \<and> alive s t")
    case False
    then have "\<forall>t \<in> set ts. \<not> alive d t" by (simp add: D(5))
    with schedule_all_dead [OF D(1,2)] False show ?thesis by (simp add: ke flip: r_def)
  next
    case True
    then obtain t where "t \<in> set (after (running_thread d) ts)" "alive d t"
      using set_after [OF D(2)] D(5) by blast
    then obtain ds n es where a: "after (running_thread d) ts = ds @ n # es"
      "\<forall>t \<in> set ds. \<not> alive d t" "alive d n" using first_alive by blast
    then have n: "n \<in> set ts" "n \<noteq> r" using set_after [OF D(2)] D(5) [of n] by auto
    obtain s' where s': "schedule d = Some s'" "running_thread s' = n" "queue s' ts"
      "\<forall>t. alive s' t = alive d t" "\<forall>t. t_state (threads s' t) = THREAD_STATE_RUNNING \<longrightarrow> t = n"
      "t_state (threads s' n) = THREAD_STATE_RUNNING"
      using schedule_step [OF D(1,2) a D(4)] n(2) unfolding rd by blast
    have f: "heap_inv s" "main_kernel_thread s < HEAP_START"
      "\<forall>t \<in> set ts. t = main_kernel_thread s \<or> (\<exists>m \<ge> 40. (t, m) \<in> live s)"
      using assms unfolding sched_ok_def by blast+
    have "sched_ok s'"
      by (rule switched_ok [OF f s'(3) _ _ _ same_kernel_trans [OF D(3) schedule_same [OF s'(1)]]])
        (unfold s'(2), rule n(1), rule s'(5), rule s'(6))
    moreover have "kthread_exit s = Some s'" using s'(1,2) n(2) by (simp add: ke)
    ultimately show ?thesis using s'(2,3,4) n(2) True D(5) by (simp flip: r_def)
  qed
qed

text \<open>
  C18. \<open>kthread_exit\<close> gives the processor to another live thread when there is one, and the
  exiting thread never runs again; when it was the last live one, control never comes back
  from the search for a successor.
\<close>

theorem kthread_exit_switches:
  assumes "sched_ok s" and "queue s ts"
  shows "if \<exists>t \<in> set ts. t \<noteq> running_thread s \<and> alive s t
    then \<exists>s'. kthread_exit s = Some s' \<and> sched_ok s' \<and> queue s' ts \<and>
      running_thread s' \<noteq> running_thread s \<and>
      (\<forall>t. alive s' t \<longleftrightarrow> t \<noteq> running_thread s \<and> alive s t)
    else kthread_exit s = None"
  by (rule kthread_exit_result [OF assms])

lemma kthread_create_total:
  assumes ok: "sched_ok s" and q: "queue s ts" and room: "thread_room s"
    and wf: "pmm_wf s" and fr: "24 \<le> card (free_frames s)"
  shows "\<exists>t s'. kthread_create e s = Some (t, s')"
proof -
  have n: "sizeof_thread \<noteq> 0" "stack_size \<noteq> 0" "heap_room s sizeof_thread"
    using room by (simp_all add: sizeof_thread_def stack_size_def heap_room_def thread_room_def)
  have pages: "round_page (round16 (unat sizeof_thread) + 24) div 4096 = 1"
    "round_page (round16 (unat stack_size) + 24) div 4096 = 5"
    by (simp_all add: sizeof_thread_def stack_size_def round16_def round_page_def)
  have hi: "heap_inv s" using ok by (simp add: sched_ok_def)
  then obtain bs where "heap_list s bs" by (auto simp: heap_inv_def)
  from kmalloc_total [OF this n(1,3) wf] fr pages obtain t s1 where
    a: "kmalloc sizeof_thread s = Some (t, s1)" "pmm_wf s1" "20 \<le> card (free_frames s1)" by auto
  have "heap_inv s1" "t \<noteq> 0" using kheap.alloc_live [OF hi n(1,3) a(1)] by auto
  have "unat sizeof_thread = 40" "unat stack_size = 16384" by (simp_all add: sizeof_thread_def stack_size_def)
  with kmalloc_end [OF hi n(1,3) a(1)] room have "heap_room s1 stack_size"
    by (simp add: heap_room_def thread_room_def)
  moreover obtain cs where "heap_list s1 cs" using \<open>heap_inv s1\<close> by (auto simp: heap_inv_def)
  ultimately obtain st s2 where b: "kmalloc stack_size s1 = Some (st, s2)"
    using kmalloc_total [of s1 cs stack_size] n(2) a(2,3) pages by auto
  note al = thread_allocs [OF hi room a(1) b]
  obtain mt where m: "40 \<le> mt" "(t, mt) \<in> live s2" "\<And>r. r \<in> live s \<Longrightarrow> regions_apart (t, mt) r"
    using al by blast
  have hi2: "heap_inv s2" "st \<noteq> 0" using al by auto
  have tts: "t \<notin> set ts" by (rule thread_fresh [OF ok q hi2(1) m(2,1,3)])
  obtain xs l where ts: "ts = xs @ [l]"
    using running_on_queue [OF ok q] by (cases ts rule: rev_cases) auto
  have "threads s2 = threads s" "thread_queue_head s2 = thread_queue_head s"
    using al heap_more_sched [of s2 s] by simp_all
  moreover have "queue_tail ((threads s)(t := c)) (thread_queue_head s) = Some l" if "t_next c = 0" for c
    using enqueue(1) [of "threads s" "thread_queue_head s" xs l t c] q tts \<open>t \<noteq> 0\<close> that
    by (simp add: queue_def ts)
  ultimately show ?thesis
    using a(1) b \<open>t \<noteq> 0\<close> hi2(2) by (simp add: kthread_create_def prepare_stack_spec)
qed

text \<open>
  C19. With 24 free frames \<open>kthread_create\<close> returns a new thread at the end of the queue, ready
  to run, without touching another thread's state. Its stack lies in a region of at least
  16 KiB that overlaps no region in use, and its saved frame is six zero registers, the entry
  point and, as return address of the entry point, \<open>kthread_exit\<close>.
\<close>

theorem kthread_create_ready:
  assumes "sched_ok s" and "queue s ts" and "thread_room s" and "pmm_wf s" and "24 \<le> card (free_frames s)"
  shows "\<exists>t s' k. kthread_create e s = Some (t, s') \<and> sched_ok s' \<and> queue s' (ts @ [t]) \<and>
    running_thread s' = running_thread s \<and> t_id (threads s' t) = next_thread_id s \<and>
    t_state (threads s' t) = THREAD_STATE_READY \<and>
    (\<forall>u. u \<noteq> t \<longrightarrow> t_state (threads s' u) = t_state (threads s u)) \<and>
    16384 \<le> k \<and> (t_stack_bottom (threads s' t), k) \<in> live s' \<and>
    (\<forall>r \<in> live s. regions_apart (t_stack_bottom (threads s' t), k) r) \<and>
    t_rsp (threads s' t) = t_stack_bottom (threads s' t) + stack_size - 64 \<and>
    (\<forall>i \<in> {0, 8, 16, 24, 32, 40}. stack_mem s' (t_rsp (threads s' t) + i) = 0) \<and>
    stack_mem s' (t_rsp (threads s' t) + 48) = e \<and>
    stack_mem s' (t_rsp (threads s' t) + 56) = kthread_exit_addr s"
proof -
  obtain t s' where c: "kthread_create e s = Some (t, s')" using kthread_create_total [OF assms] by blast
  note r = kthread_create_result [OF assms(1-3) c]
  from r(12) obtain k where "16384 \<le> k" "(t_stack_bottom (threads s' t), k) \<in> live s'"
    "t_rsp (threads s' t) = t_stack_bottom (threads s' t) + stack_size - 64"
    "\<forall>r \<in> live s. regions_apart (t_stack_bottom (threads s' t), k) r" by blast
  then show ?thesis using c r(1,3-6,8-11) by blast
qed

text \<open>
  C20. A thread that was switched away from and is switched back to goes on with the registers
  and the stack pointer it had, at the return address of its call, provided nobody wrote to
  the seven words of its frame in between.
\<close>

theorem context_switch_back:
  assumes "length (callee_saved (cpu s)) = 6" and "length (callee_saved (cpu u)) = 6"
    and "\<forall>a \<in> saved_frame (rsp (cpu s) - 56). stack_mem u a =
      stack_mem (context_switch old r (push ret s)) a"
    and "spill (rsp (cpu u)) \<inter> saved_frame (rsp (cpu s) - 56) = {}"
  shows "t_rsp (threads (context_switch old r (push ret s)) old) = rsp (cpu s) - 56 \<and>
    cpu (context_switch old' (rsp (cpu s) - 56) u) =
      \<lparr>callee_saved = callee_saved (cpu s), rsp = rsp (cpu s), rip = ret\<rparr>"
proof -
  define p where "p = rsp (cpu s)"
  define s1 where "s1 = push ret s"
  have s1: "cpu s1 = (cpu s)\<lparr>rsp := p - 8\<rparr>" "stack_mem s1 = (stack_mem s)(p - 8 := ret)"
    by (simp_all add: s1_def push_def p_def Let_def)
  obtain a b c d e f where regs: "callee_saved (cpu s) = [a, b, c, d, e, f]" using list6 [OF assms(1)] by blast
  have m: "stack_mem (context_switch old r s1) = (stack_mem s)(p - 8 := ret, p - 16 := a, p - 24 := b,
      p - 32 := c, p - 40 := d, p - 48 := e, p - 56 := f)"
    by (simp add: context_switch_cpu(2) s1 regs push_def Let_def diff_diff_eq)
  have u: "stack_mem u (p - 56 + k) = stack_mem (context_switch old r s1) (p - 56 + k)"
    if "k \<in> {0, 8, 16, 24, 32, 40, 48}" for k
    using assms(3) that by (auto simp: saved_frame_def p_def s1_def)
  have "cpu (context_switch old' (p - 56) u) = \<lparr>callee_saved = [a, b, c, d, e, f], rsp = p, rip = ret\<rparr>"
    using u [of 0] u [of 8] u [of 16] u [of 24] u [of 32] u [of 40] u [of 48]
    by (simp add: context_switch_resume [OF assms(2)] assms(4) [folded p_def] m)
  moreover have "t_rsp (threads (context_switch old r s1) old) = p - 56"
    by (simp add: context_switch_cpu(3) s1 regs)
  ultimately show ?thesis by (simp add: regs p_def s1_def)
qed


subsection \<open>Runs of the scheduler\<close>

text \<open>The ways the thread state changes, in any order.\<close>

inductive sched_step :: "'a sched_scheme \<Rightarrow> 'a sched_scheme \<Rightarrow> bool" where
  yield: "schedule s = Some s' \<Longrightarrow> sched_step s s'"
| exit: "kthread_exit s = Some s' \<Longrightarrow> sched_step s s'"
| create: "thread_room s \<Longrightarrow> kthread_create e s = Some (t, s') \<Longrightarrow> sched_step s s'"

inductive_cases sched_stepE: "sched_step s s'"

text \<open>A boot state: a heap in order, no control block marked running yet.\<close>

definition before_boot :: "'a sched_scheme \<Rightarrow> bool" where
  "before_boot s \<longleftrightarrow> heap_inv s \<and> main_kernel_thread s \<noteq> 0 \<and> main_kernel_thread s < HEAP_START \<and>
     (\<forall>t. t_state (threads s t) \<noteq> THREAD_STATE_RUNNING)"

inductive sched_reach :: "'a sched_scheme \<Rightarrow> bool" where
  boot: "before_boot s \<Longrightarrow> sched_reach (init_scheduler s)"
| step: "sched_reach s \<Longrightarrow> sched_step s s' \<Longrightarrow> sched_reach s'"

lemma init_scheduler_ok:
  assumes "before_boot s"
  shows "sched_ok (init_scheduler s)" "queue (init_scheduler s) [main_kernel_thread s]"
proof -
  define s' where "s' = init_scheduler s"
  have f: "threads s' = (threads s)(main_kernel_thread s := \<lparr>t_rsp = 0, t_id = 0,
      t_state = THREAD_STATE_RUNNING, t_stack_bottom = 0, t_next = 0\<rparr>)"
    "running_thread s' = main_kernel_thread s" "thread_queue_head s' = main_kernel_thread s"
    "main_kernel_thread s' = main_kernel_thread s"
    by (simp_all add: s'_def init_scheduler_def Let_def)
  have h: "heap_inv s'" using assms heap_cong(2) [of s' s]
    by (simp add: before_boot_def s'_def init_scheduler_def Let_def)
  have q: "queue s' [main_kernel_thread s]"
    using assms by (simp add: queue_def f before_boot_def)
  have "us = [main_kernel_thread s]" if "queue s' us" for us
    using that q qpath_unique by (auto simp: queue_def)
  moreover have "sched_inv s'"
    using assms q f by (auto simp: sched_inv_def before_boot_def intro: exI [of _ "[main_kernel_thread s]"])
  moreover have "t_state (threads s' (running_thread s')) = THREAD_STATE_RUNNING" by (simp add: f)
  moreover have "main_kernel_thread s < HEAP_START" using assms by (simp add: before_boot_def)
  ultimately have "sched_ok s'" using h unfolding sched_ok_def f(4) by fastforce
  with q show "sched_ok (init_scheduler s)" "queue (init_scheduler s) [main_kernel_thread s]"
    by (simp_all add: s'_def)
qed

lemma sched_step_ok: "sched_step s s' \<Longrightarrow> sched_ok s \<Longrightarrow> sched_ok s'"
proof (erule sched_stepE)
  assume ok: "sched_ok s"
  then obtain ts where q: "queue s ts" by (auto simp: sched_ok_def sched_inv_def)
  show "sched_ok s'" if "schedule s = Some s'"
    using schedule_ok [OF ok q] that by auto
  show "sched_ok s'" if x: "kthread_exit s = Some s'"
  proof -
    have "kthread_exit s \<noteq> None" using x by simp
    with kthread_exit_result [OF ok q] x show ?thesis by (auto split: if_splits)
  qed
  show "sched_ok s'" if "thread_room s" "kthread_create e s = Some (t, s')" for e t
    by (rule kthread_create_result(8) [OF ok q that])
qed

text \<open>
  C21. However threads are created, yield and exit, the scheduler's state stays in order: the
  queue is a finite list without repetition that holds the running thread, that thread and no
  other is marked running, and every control block but the boot thread's is a live heap region.
\<close>

theorem sched_reach_ok:
  assumes "sched_reach s"
  shows "sched_ok s \<and> (\<forall>t. t_state (threads s t) = THREAD_STATE_RUNNING \<longleftrightarrow> t = running_thread s)"
proof -
  have "sched_ok s"
    using assms by (induction rule: sched_reach.induct) (auto intro: init_scheduler_ok sched_step_ok)
  moreover from this have "t_state (threads s (running_thread s)) = THREAD_STATE_RUNNING"
    by (simp add: sched_ok_def)
  ultimately show ?thesis using sched_ok_one by blast
qed


subsection \<open>Closed instances\<close>

definition sched_zero :: sched where
  "sched_zero = heap.extend heap_boot (sched.fields 0 0 1
     (\<lambda>_. \<lparr>t_rsp = 0, t_id = 0, t_state = THREAD_STATE_READY, t_stack_bottom = 0, t_next = 0\<rparr>)
     (\<lambda>_. 0) \<lparr>callee_saved = [1, 2, 3, 4, 5, 6], rsp = 0x9000, rip = 0x100\<rparr> 0x5000 0x700 0x800)"

lemma sched_zero_boot: "before_boot sched_zero" "thread_room (init_scheduler sched_zero)"
  "pmm_wf (init_scheduler sched_zero)" "24 \<le> card (free_frames (init_scheduler sched_zero))"
proof -
  have e: "hdrs sched_zero = hdrs heap_boot" "head sched_zero = head heap_boot"
    "heap_end sched_zero = heap_end heap_boot"
    "page_count sched_zero = page_count heap_boot" "bitmap sched_zero = bitmap heap_boot"
    by (simp_all add: sched_zero_def heap.defs sched.defs heap_boot_def)
  have "heap_inv sched_zero" using heap_cong(2) [OF e(1-3)] heap_boot_inv(5) by simp
  then show "before_boot sched_zero"
    by (simp add: before_boot_def) (simp add: sched_zero_def heap.defs sched.defs HEAP_START_def)
  show "thread_room (init_scheduler sched_zero)"
    by (simp add: thread_room_def init_scheduler_def Let_def e heap_boot_inv(4)) (simp add: HEAP_START_def)
  have i: "page_count (init_scheduler sched_zero) = page_count heap_boot"
    "bitmap (init_scheduler sched_zero) = bitmap heap_boot"
    by (simp_all add: init_scheduler_def Let_def e)
  then show "pmm_wf (init_scheduler sched_zero)" using heap_boot_wf by (simp add: pmm_wf_def)
  have "free_frames (init_scheduler sched_zero) = free_frames heap_boot"
    by (simp add: free_frames_def page_free_def i)
  then show "24 \<le> card (free_frames (init_scheduler sched_zero))" using heap_boot_free(1) by simp
qed

lemmas zero_ok = init_scheduler_ok [OF sched_zero_boot(1)]

lemma zero_two:
  obtains t and s1 :: sched where "kthread_create 0x1234 (init_scheduler sched_zero) = Some (t, s1)" "sched_ok s1"
    "queue s1 [0x5000, t]" "running_thread s1 = 0x5000" "t \<noteq> 0x5000" "alive s1 t" "alive s1 0x5000"
proof -
  have m: "main_kernel_thread sched_zero = 0x5000" by (simp add: sched_zero_def heap.defs sched.defs)
  note q = zero_ok(2) [unfolded m]
  obtain t s1 where c: "kthread_create 0x1234 (init_scheduler sched_zero) = Some (t, s1)"
    using kthread_create_total [OF zero_ok(1) q sched_zero_boot(2-4)] by blast
  note r = kthread_create_result [OF zero_ok(1) q sched_zero_boot(2) c]
  have run: "running_thread s1 = 0x5000" using r(3) by (simp add: init_scheduler_def Let_def m)
  show thesis
    using that [OF c r(8)] r(1,2,5) run sched_ok_alive [OF r(8)] by (auto simp: alive_def)
qed

theorem schedule_round_robin_witness:
  "\<exists>(s1 :: sched) t s2. kthread_create 0x1234 (init_scheduler sched_zero) = Some (t, s1) \<and>
     schedule s1 = Some s2 \<and> running_thread s2 = t \<and> sched_ok s2"
proof -
  obtain t s1 where s1: "kthread_create 0x1234 (init_scheduler sched_zero) = Some (t, s1)" "sched_ok s1"
    "queue s1 [0x5000, t]" "running_thread s1 = 0x5000" "t \<noteq> 0x5000" "alive s1 t"
    using zero_two by metis
  have a: "after (running_thread s1) [0x5000, t] = [t, 0x5000]" using s1(4,5) by (simp add: after_def)
  obtain s2 ds n es where s2: "schedule s1 = Some s2" "[t, 0x5000] = ds @ n # es"
    "\<forall>t \<in> set ds. \<not> alive s1 t" "running_thread s2 = n" "sched_ok s2"
    using schedule_round_robin [OF s1(2,3)] unfolding a by blast
  have "n = t" using s2(2,3) s1(6) by (cases ds) auto
  with s1(1) s2 show ?thesis by blast
qed

theorem schedule_fair_witness:
  "\<exists>(s1 :: sched) t n s2. kthread_create 0x1234 (init_scheduler sched_zero) = Some (t, s1) \<and>
     n \<le> 2 \<and> yields n s1 = Some s2 \<and> running_thread s2 = t"
proof -
  obtain t s1 where s1: "kthread_create 0x1234 (init_scheduler sched_zero) = Some (t, s1)" "sched_ok s1"
    "queue s1 [0x5000, t]" "alive s1 t" using zero_two by metis
  have "t \<in> set [0x5000, t]" by simp
  from schedule_fair [OF s1(2,3) this s1(4)] obtain n s2 where
    "n \<le> length [0x5000, t]" "yields n s1 = Some s2" "running_thread s2 = t" by blast
  moreover have "length [0x5000, t] = 2" by simp
  ultimately show ?thesis using s1(1) by metis
qed

theorem kthread_exit_switches_witness:
  "\<exists>(s1 :: sched) t s2. kthread_create 0x1234 (init_scheduler sched_zero) = Some (t, s1) \<and>
     kthread_exit s1 = Some s2 \<and> \<not> alive s2 0x5000 \<and> kthread_exit (init_scheduler sched_zero) = None"
proof -
  obtain t s1 where s1: "kthread_create 0x1234 (init_scheduler sched_zero) = Some (t, s1)" "sched_ok s1"
    "queue s1 [0x5000, t]" "running_thread s1 = 0x5000" "t \<noteq> 0x5000" "alive s1 t"
    using zero_two by metis
  have "\<exists>u \<in> set [0x5000, t]. u \<noteq> running_thread s1 \<and> alive s1 u" using s1(4-6) by auto
  with kthread_exit_switches [OF s1(2,3)] s1(4) obtain s2 where
    "kthread_exit s1 = Some s2" "\<not> alive s2 0x5000" by auto
  moreover have "kthread_exit (init_scheduler sched_zero) = None"
    using kthread_exit_switches [OF zero_ok] by (simp add: init_scheduler_def Let_def)
  ultimately show ?thesis using s1(1) by blast
qed

theorem kthread_create_ready_witness:
  "\<exists>t (s' :: sched). kthread_create 0x1234 (init_scheduler sched_zero) = Some (t, s') \<and>
     stack_mem s' (t_rsp (threads s' t) + 48) = 0x1234 \<and> stack_mem s' (t_rsp (threads s' t) + 56) = 0x700"
  using kthread_create_ready [OF zero_ok sched_zero_boot(2-4), of "0x1234"]
  by (auto simp: init_scheduler_def Let_def sched_zero_def heap.defs sched.defs)

theorem context_switch_back_witness:
  "cpu (context_switch 0x6000 (rsp (cpu sched_zero) - 56)
     ((context_switch 0x5000 0x20000 (push 0x800 sched_zero))\<lparr>cpu := \<lparr>callee_saved = [0, 0, 0, 0, 0, 0],
        rsp = 0x20100, rip = 0\<rparr>\<rparr>)) = \<lparr>callee_saved = [1, 2, 3, 4, 5, 6], rsp = 0x9000, rip = 0x800\<rparr>"
proof -
  have z: "cpu sched_zero = \<lparr>callee_saved = [1, 2, 3, 4, 5, 6], rsp = 0x9000, rip = 0x100\<rparr>"
    by (simp add: sched_zero_def heap.defs sched.defs)
  define u where "u = (context_switch 0x5000 0x20000 (push 0x800 sched_zero))\<lparr>cpu :=
    \<lparr>callee_saved = [0, 0, 0, 0, 0, 0], rsp = 0x20100, rip = 0\<rparr>\<rparr>"
  have "spill (rsp (cpu u)) \<inter> saved_frame (rsp (cpu sched_zero) - 56) = {}"
    by (simp add: u_def z spill_def saved_frame_def)
  then show ?thesis
    using context_switch_back [of sched_zero u "0x5000" "0x20000" "0x800" "0x6000"]
    by (simp add: u_def z)
qed

theorem sched_reach_ok_witness:
  "\<exists>(s :: sched) t. sched_reach s \<and> queue s [0x5000, t] \<and> sched_ok s"
proof -
  obtain t s1 where s1: "kthread_create 0x1234 (init_scheduler sched_zero) = Some (t, s1)"
    "queue s1 [0x5000, t]" using zero_two by metis
  have "sched_reach s1"
    by (rule sched_reach.step [OF sched_reach.boot [OF sched_zero_boot(1)]
          sched_step.create [OF sched_zero_boot(2) s1(1)]])
  with sched_reach_ok [OF this] s1(2) show ?thesis by blast
qed

end
