(* ===== verification/Bytes.thy ===== *)
theory Bytes
  imports CString
begin

text \<open>
  Little-endian words in byte-addressed memory, the way x86-64 loads and stores them, and the
  regions of memory a routine may write.
\<close>

definition load16 :: "memory \<Rightarrow> u64 \<Rightarrow> u16" where
  "load16 m a = ucast (m a) OR push_bit 8 (ucast (m (a + 1)))"

definition load32 :: "memory \<Rightarrow> u64 \<Rightarrow> u32" where
  "load32 m a = ucast (load16 m a) OR push_bit 16 (ucast (load16 m (a + 2)))"

definition load64 :: "memory \<Rightarrow> u64 \<Rightarrow> u64" where
  "load64 m a = ucast (load32 m a) OR push_bit 32 (ucast (load32 m (a + 4)))"

definition store16 :: "u64 \<Rightarrow> u16 \<Rightarrow> memory \<Rightarrow> memory" where
  "store16 a v m = m(a := ucast v, a + 1 := ucast (drop_bit 8 v))"

definition store32 :: "u64 \<Rightarrow> u32 \<Rightarrow> memory \<Rightarrow> memory" where
  "store32 a v m = store16 (a + 2) (ucast (drop_bit 16 v)) (store16 a (ucast v) m)"

definition store64 :: "u64 \<Rightarrow> u64 \<Rightarrow> memory \<Rightarrow> memory" where
  "store64 a v m = store32 (a + 4) (ucast (drop_bit 32 v)) (store32 a (ucast v) m)"

lemma load16_store16 [simp]: "load16 (store16 a v m) a = v"
  by (rule bit_word_eqI) (auto simp: load16_def store16_def bit_simps)

lemma load32_store32 [simp]: "load32 (store32 a v m) a = v"
proof -
  have "load16 (store32 a v m) a = ucast v"
    by (simp add: store32_def load16_def store16_def)
      (rule bit_word_eqI, auto simp: bit_simps)
  moreover have "load16 (store32 a v m) (a + 2) = ucast (drop_bit 16 v)"
    by (simp add: store32_def)
  ultimately show ?thesis
    unfolding load32_def by (intro bit_word_eqI) (auto simp: bit_simps)
qed

lemma store16_other: "b \<notin> {a, a + 1} \<Longrightarrow> store16 a v m b = m b"
  by (auto simp: store16_def)

lemma store32_other: "b \<notin> {a, a + 1, a + 2, a + 3} \<Longrightarrow> store32 a v m b = m b"
  by (simp add: store32_def store16_def add.assoc)

lemma store64_other: "b \<notin> {a, a + 1, a + 2, a + 3, a + 4, a + 5, a + 6, a + 7} \<Longrightarrow> store64 a v m b = m b"
  by (simp add: store64_def store32_def store16_def add.assoc)

lemma load64_store64 [simp]: "load64 (store64 a v m) a = v"
proof -
  have "load32 (store64 a v m) a = ucast v"
  proof -
    have "store64 a v m b = store32 a (ucast v) m b" if "b \<in> {a, a + 1, a + 2, a + 3}" for b
      using that by (auto simp: store64_def intro!: store32_other)
    then have "load32 (store64 a v m) a = load32 (store32 a (ucast v) m) a"
      by (simp add: load32_def load16_def add.assoc)
    then show ?thesis by simp
  qed
  moreover have "load32 (store64 a v m) (a + 4) = ucast (drop_bit 32 v)"
    by (simp add: store64_def)
  ultimately show ?thesis
    unfolding load64_def by (intro bit_word_eqI) (auto simp: bit_simps)
qed

text \<open>The two memories agree outside the \<open>n\<close> bytes from \<open>a\<close> on.\<close>

definition same_outside :: "nat \<Rightarrow> nat \<Rightarrow> memory \<Rightarrow> memory \<Rightarrow> bool" where
  "same_outside a n m m' \<longleftrightarrow> (\<forall>b. \<not> (a \<le> unat b \<and> unat b < a + n) \<longrightarrow> m' b = m b)"

lemma same_outside_refl [simp]: "same_outside a n m m"
  by (simp add: same_outside_def)

lemma same_outside_trans: "same_outside a n m m' \<Longrightarrow> same_outside a n m' m'' \<Longrightarrow> same_outside a n m m''"
  by (simp add: same_outside_def)

lemma same_outside_upd: "a \<le> unat b \<Longrightarrow> unat b < a + n \<Longrightarrow> same_outside a n m (m(b := v))"
  by (auto simp: same_outside_def)

lemma same_outside_store32:
  assumes "a \<le> unat b" "unat b + 3 < a + n" "a + n \<le> 2 ^ 64"
  shows "same_outside a n m (store32 b v m)"
proof -
  have "unat (b + of_nat k) = unat b + k" if "k \<le> 3" for k
    using that assms by (simp add: unat_word_ariths unat_of_nat)
  from this [of 1] this [of 2] this [of 3] assms
  have "c \<in> {b, b + 1, b + 2, b + 3} \<Longrightarrow> a \<le> unat c \<and> unat c < a + n" for c by auto
  then show ?thesis unfolding same_outside_def using store32_other by blast
qed

end
