(* ===== verification/Console.thy ===== *)
theory Console
  imports Bytes "HOL-Library.Signed_Division"
begin

text \<open>
  The framebuffer console, \<open>src/drivers/fb.c\<close>, with the lock of \<open>spinlock.h\<close>: the cursor,
  drawing and scrolling in the framebuffer's bytes, and the formatted output of \<open>printf\<close>.
  The font is a table of bytes linked into the kernel.
\<close>


subsection \<open>State\<close>

record console =
  fb_address :: u64
  fb_width :: u64
  fb_height :: u64
  fb_pitch :: u64
  fb_bpp :: u16
  font :: "u64 \<Rightarrow> u8"
  fbmem :: memory
  cursor_x :: u64
  cursor_y :: u64
  cols :: u64
  rows :: u64
  back_color :: u32
  default_fg :: u32
  fb_lock :: bool
  interrupts :: bool  \<comment> \<open>the processor's interrupt flag\<close>
  fb_vfs_node :: bool  \<comment> \<open>the node exists; its \<open>write\<close> is \<open>fb_vfs_write\<close>\<close>

definition FONT_WIDTH :: u64 where "FONT_WIDTH = 8"
definition FONT_HEIGHT :: u64 where "FONT_HEIGHT = 16"


subsection \<open>The lock\<close>

text \<open>With interrupts off and one processor, a lock that is taken is never given back.\<close>

definition spin_lock :: "'a console_scheme \<Rightarrow> 'a console_scheme option" where
  "spin_lock s =
     (let s1 = s\<lparr>interrupts := False\<rparr> in if fb_lock s1 then None else Some (s1\<lparr>fb_lock := True\<rparr>))"

definition spin_unlock :: "'a console_scheme \<Rightarrow> 'a console_scheme" where
  "spin_unlock s = s\<lparr>fb_lock := False, interrupts := True\<rparr>"


subsection \<open>Drawing\<close>

text \<open>The response of the boot loader: address, width, height, pitch and depth, if there is one.\<close>

definition init_fb :: "(u64 \<times> u64 \<times> u64 \<times> u64 \<times> u16) list option \<Rightarrow> 'a console_scheme \<Rightarrow>
    'a console_scheme option" where
  "init_fb response s =
     (case response of
        Some ((a, w, h, p, b) # fbs) \<Rightarrow>
          Some (s\<lparr>fb_address := a, fb_width := w, fb_height := h, fb_pitch := p, fb_bpp := b,
            cols := w div FONT_WIDTH, rows := h div FONT_HEIGHT\<rparr>)
      | _ \<Rightarrow> None)"

definition clear :: "u32 \<Rightarrow> 'a console_scheme \<Rightarrow> 'a console_scheme" where
  "clear color s =
     (let total_pixels = (fb_pitch s div 4) * fb_height s
      in s\<lparr>back_color := color,
           fbmem := for_up 0 total_pixels (\<lambda>i. store32 (fb_address s + i * 4) color) (fbmem s),
           cursor_x := 0, cursor_y := 0\<rparr>)"

definition set_cursor :: "u64 \<Rightarrow> u64 \<Rightarrow> 'a console_scheme \<Rightarrow> 'a console_scheme" where
  "set_cursor x y s =
     (let s1 = (if x < cols s then s\<lparr>cursor_x := x\<rparr> else s)
      in if y < rows s then s1\<lparr>cursor_y := y\<rparr> else s1)"

definition scroll :: "u32 \<Rightarrow> 'a console_scheme \<Rightarrow> 'a console_scheme" where
  "scroll bg s =
     (let base = fb_address s; line_size = fb_pitch s * FONT_HEIGHT;
          m1 = for_up 1 (rows s) (\<lambda>y m.
            for_up 0 line_size (\<lambda>i m. m(base + (y - 1) * line_size + i := m (base + y * line_size + i))) m)
            (fbmem s);
          last_line_pixels = (fb_pitch s div 4) * FONT_HEIGHT
      in s\<lparr>fbmem := for_up 0 last_line_pixels
             (\<lambda>i. store32 (base + (rows s - 1) * line_size + i * 4) bg) m1\<rparr>)"

definition pixel_addr :: "'a console_scheme \<Rightarrow> u64 \<Rightarrow> u64 \<Rightarrow> u64" where
  "pixel_addr s px py = fb_address s + py * fb_pitch s + px * (ucast (fb_bpp s div 8))"

definition glyph_color :: "'a console_scheme \<Rightarrow> u8 \<Rightarrow> u32 \<Rightarrow> u32 \<Rightarrow> u64 \<Rightarrow> u64 \<Rightarrow> u32" where
  "glyph_color s c fg bg row col =
     (if drop_bit (7 - unat col) (font s (ucast c * 16 + row)) AND 1 \<noteq> 0 then fg else bg)"

definition draw_char :: "u8 \<Rightarrow> u64 \<Rightarrow> u64 \<Rightarrow> u32 \<Rightarrow> u32 \<Rightarrow> 'a console_scheme \<Rightarrow> 'a console_scheme" where
  "draw_char c cx cy fg bg s =
     s\<lparr>fbmem := for_up 0 16 (\<lambda>row. for_up 0 8 (\<lambda>col.
          store32 (pixel_addr s (cx * FONT_WIDTH + col) (cy * FONT_HEIGHT + row))
            (glyph_color s c fg bg row col))) (fbmem s)\<rparr>"


subsection \<open>Characters and strings\<close>

definition put_char :: "u8 \<Rightarrow> u32 \<Rightarrow> 'a console_scheme \<Rightarrow> 'a console_scheme" where
  "put_char c color s =
     (let bg = back_color s;
          s1 = (if c = 10 then s\<lparr>cursor_x := 0, cursor_y := cursor_y s + 1\<rparr>
                else if c = 13 then s\<lparr>cursor_x := 0\<rparr>
                else if c = 9 then s\<lparr>cursor_x := (cursor_x s + 4) AND NOT 3\<rparr>
                else if c = 8 then (if cursor_x s > 0 then s\<lparr>cursor_x := cursor_x s - 1\<rparr> else s)
                else (draw_char c (cursor_x s) (cursor_y s) color bg s)\<lparr>cursor_x := cursor_x s + 1\<rparr>);
          s2 = (if cursor_x s1 \<ge> cols s1 then s1\<lparr>cursor_x := 0, cursor_y := cursor_y s1 + 1\<rparr> else s1)
      in if cursor_y s2 \<ge> rows s2 then (scroll bg s2)\<lparr>cursor_y := rows s2 - 1\<rparr> else s2)"

fun puts :: "cstring \<Rightarrow> u32 \<Rightarrow> 'a console_scheme \<Rightarrow> 'a console_scheme" where
  "puts [] color s = s"
| "puts (c # cs) color s = puts cs color (put_char c color s)"

text \<open>The sixteen digits of \<open>print_hex64\<close>, filled in from the last one on.\<close>

fun hex_digits :: "nat \<Rightarrow> u64 \<Rightarrow> cstring" where
  "hex_digits 0 v = []"
| "hex_digits (Suc n) v =
     (let digit = v AND 0xF in
      hex_digits n (drop_bit 4 v) @ [if digit < 10 then 48 + ucast digit else 65 + (ucast digit - 10)])"

definition print_hex64 :: "u64 \<Rightarrow> u32 \<Rightarrow> 'a console_scheme \<Rightarrow> 'a console_scheme" where
  "print_hex64 v color s = puts (hex_digits 16 v) color (puts (str ''0x'') color s)"

definition fb_vfs_write :: "cstring \<Rightarrow> 'a console_scheme \<Rightarrow> (u64 \<times> 'a console_scheme) option" where
  \<comment> \<open>\<open>buffer\<close> holds the \<open>size\<close> bytes written\<close>
  "fb_vfs_write buffer s = do {
     s1 \<leftarrow> spin_lock s;
     let s2 = fold (\<lambda>c s. put_char c (default_fg s) s) buffer s1;
     Some (of_nat (length buffer), spin_unlock s2) }"


subsection \<open>Formatted output\<close>

definition OUT_BUF :: nat where "OUT_BUF = 1024"

text \<open>A store past the end of \<open>out_buf\<close> is undefined, hence \<open>None\<close>.\<close>

definition put_buf :: "u8 \<Rightarrow> cstring \<Rightarrow> cstring option" where
  "put_buf c b = (if length b < OUT_BUF then Some (b @ [c]) else None)"

fun put_all :: "cstring \<Rightarrow> cstring \<Rightarrow> cstring option" where
  "put_all [] b = Some b"
| "put_all (c # cs) b = Option.bind (put_buf c b) (put_all cs)"

text \<open>
  The digit loop; C division and remainder truncate. \<open>tmp\<close> holds the digits found so far,
  the last one first, so its head is the one \<open>buf\<close> gets first.
\<close>

function num_loop :: "int \<Rightarrow> int \<Rightarrow> cstring \<Rightarrow> cstring" where
  "num_loop val base tmp =
     (if val = 0 \<or> base < 2 then tmp
      else
        let d = val smod base
        in num_loop (val sdiv base) base (of_int (if d < 10 then 48 + d else 65 + d - 10) # tmp))"
  by pat_completeness auto
termination
proof (relation "measure (\<lambda>(val, base, tmp). nat \<bar>val\<bar>)")
  fix val base :: int and tmp :: cstring
  assume "\<not> (val = 0 \<or> base < 2)"
  then have "\<bar>val\<bar> div base < \<bar>val\<bar>" "0 \<le> \<bar>val\<bar> div base"
    by (simp_all add: pos_imp_zdiv_nonneg_iff int_div_less_self)
  moreover have "\<bar>val sdiv base\<bar> = \<bar>val\<bar> div base"
    using \<open>\<not> _\<close> calculation by (simp add: signed_divide_int_def abs_mult abs_sgn_eq)
  ultimately show "((val sdiv base, base, of_int (if d < 10 then 48 + d else 65 + d - 10) # tmp), val, base, tmp)
      \<in> measure (\<lambda>(val, base, tmp). nat \<bar>val\<bar>)" for d
    by simp
qed simp

declare num_loop.simps [simp del]

text \<open>\<open>-val\<close> overflows for the smallest \<open>int\<close>.\<close>

definition print_num_to_buf :: "u32 \<Rightarrow> int \<Rightarrow> cstring \<Rightarrow> cstring option" where
  "print_num_to_buf v base b =
     (let val = sint v in
      if val = 0 then put_buf 48 b
      else if base = 10 \<and> val < 0 then
        if val = - (2 ^ 31) then None else put_all (45 # num_loop (- val) base []) b
      else put_all (num_loop val base []) b)"

datatype arg = AStr cstring | AInt u32

text \<open>
  The loop of \<open>printf\<close> over the format, with the arguments still to be taken. A missing or
  mistyped argument is undefined; after a \<open>%\<close> at the very end the loop steps over the
  terminating NUL.
\<close>

fun printf_loop :: "cstring \<Rightarrow> arg list \<Rightarrow> cstring \<Rightarrow> cstring option" where
  "printf_loop [] args b = Some b"
| "printf_loop (c # fmt) args b =
     (if length b \<ge> 1023 then Some b
      else if c \<noteq> 37 then Option.bind (put_buf c b) (printf_loop fmt args)
      else case fmt of
        [] \<Rightarrow> None
      | d # fmt' \<Rightarrow>
          if d = 115 then
            (case args of AStr t # args' \<Rightarrow>
               Option.bind (put_all (take (1023 - length b) t) b) (printf_loop fmt' args')
             | _ \<Rightarrow> None)
          else if d = 99 then
            (case args of AInt v # args' \<Rightarrow>
               Option.bind (put_buf (ucast v) b) (printf_loop fmt' args')
             | _ \<Rightarrow> None)
          else if d = 100 then
            (case args of AInt v # args' \<Rightarrow>
               Option.bind (print_num_to_buf v 10 b) (printf_loop fmt' args')
             | _ \<Rightarrow> None)
          else if d = 120 then
            (case args of AInt v # args' \<Rightarrow>
               Option.bind (print_num_to_buf v 16 b) (printf_loop fmt' args')
             | _ \<Rightarrow> None)
          else if d = 37 then Option.bind (put_buf 37 b) (printf_loop fmt' args)
          else printf_loop fmt' args b)"

definition printf :: "cstring \<Rightarrow> u32 \<Rightarrow> arg list \<Rightarrow> 'a console_scheme \<Rightarrow> 'a console_scheme option" where
  "printf fmt color args s =
     (let s1 = s\<lparr>default_fg := color\<rparr> in do {
        out_buf \<leftarrow> printf_loop fmt args [];
        put_buf 0 out_buf;
        if fb_vfs_node s1 then map_option snd (fb_vfs_write out_buf s1)
        else do {
          s2 \<leftarrow> spin_lock s1;
          Some (spin_unlock (fold (\<lambda>c. put_char c color) out_buf s2)) } })"


subsection \<open>Geometry and cursor\<close>

text \<open>
  A framebuffer \<open>init_fb\<close> can be used with: 32 bits per pixel, rows of pixels within the
  pitch, room for one character, and no wrap-around at the end of its memory.
\<close>

definition fb_ok :: "'a console_scheme \<Rightarrow> bool" where
  "fb_ok s \<longleftrightarrow> fb_bpp s = 32 \<and> unat (fb_width s) * 4 \<le> unat (fb_pitch s) \<and>
     cols s = fb_width s div 8 \<and> rows s = fb_height s div 16 \<and> 0 < cols s \<and> 0 < rows s \<and>
     unat (fb_address s) + unat (fb_pitch s) * unat (fb_height s) < 2 ^ 64"

definition cursor_ok :: "'a console_scheme \<Rightarrow> bool" where
  "cursor_ok s \<longleftrightarrow> cursor_x s < cols s \<and> cursor_y s < rows s"

definition same_fb :: "'a console_scheme \<Rightarrow> 'a console_scheme \<Rightarrow> bool" where
  "same_fb s s' \<longleftrightarrow> fb_address s' = fb_address s \<and> fb_width s' = fb_width s \<and> fb_height s' = fb_height s \<and>
     fb_pitch s' = fb_pitch s \<and> fb_bpp s' = fb_bpp s \<and> font s' = font s \<and> cols s' = cols s \<and>
     rows s' = rows s \<and> back_color s' = back_color s \<and> default_fg s' = default_fg s \<and>
     fb_lock s' = fb_lock s \<and> fb_vfs_node s' = fb_vfs_node s"

lemma same_fb_refl [simp]: "same_fb s s" by (simp add: same_fb_def)

lemma same_fb_trans: "same_fb s t \<Longrightarrow> same_fb t u \<Longrightarrow> same_fb s u"
  by (simp add: same_fb_def)

lemma same_fb_ok: "same_fb s s' \<Longrightarrow> fb_ok s' = fb_ok s"
  by (simp add: same_fb_def fb_ok_def)

lemma put_char_same_fb: "same_fb s (put_char c color s)"
  by (simp add: put_char_def Let_def same_fb_def scroll_def draw_char_def)

lemma put_char_cursor:
  assumes "cursor_ok s"
  shows "cursor_ok (put_char c color s)"
proof -
  have y: "cursor_y s + 1 \<le> rows s" "rows s \<noteq> 0" "0 < cols s" "cursor_x s - 1 < cols s \<or> cursor_x s = 0"
    using assms less_inc_le [of "cursor_y s" "rows s"] unfolding cursor_ok_def
    by (auto, unat_arith+)
  have last: "rows s - 1 < rows s" using y(2) by unat_arith
  show ?thesis
    using assms y last
    by (auto simp: put_char_def Let_def cursor_ok_def scroll_def draw_char_def not_le)
qed

lemma fold_put_char:
  assumes "cursor_ok s"
  shows "cursor_ok (fold (\<lambda>c s. put_char c (f s) s) cs s) \<and>
    same_fb s (fold (\<lambda>c s. put_char c (f s) s) cs s)"
  using assms
proof (induction cs arbitrary: s)
  case (Cons c cs)
  let ?s = "put_char c (f s) s"
  from Cons.IH [OF put_char_cursor [OF Cons.prems]]
  have "cursor_ok (fold (\<lambda>c s. put_char c (f s) s) cs ?s)"
    and "same_fb ?s (fold (\<lambda>c s. put_char c (f s) s) cs ?s)" by simp_all
  with same_fb_trans [OF put_char_same_fb] show ?case by simp
qed simp

lemma puts_fold: "puts cs color s = fold (\<lambda>c. put_char c color) cs s"
  by (induction cs arbitrary: s) simp_all


subsection \<open>Drawing stays inside the framebuffer\<close>

definition drawn_inside :: "'a console_scheme \<Rightarrow> memory \<Rightarrow> memory \<Rightarrow> bool" where
  "drawn_inside s = same_outside (unat (fb_address s)) (unat (fb_pitch s) * unat (fb_height s))"

lemma unat_mult_small: "unat a * unat b < 2 ^ 64 \<Longrightarrow> unat (a * b) = unat a * unat b" for a b :: u64
  by (simp add: unat_mult_lem [symmetric])

lemma unat_add_small: "unat a + unat b < 2 ^ 64 \<Longrightarrow> unat (a + b) = unat a + unat b" for a b :: u64
  by (simp add: unat_add_lem [symmetric])

lemma grid_offset:
  fixes x y w p h :: nat
  assumes "x < w" "y < h" "w * 4 \<le> p"
  shows "y * p + x * 4 + 3 < p * h"
proof -
  have "x * 4 + 3 < p" using assms(1,3) by linarith
  moreover have "(y + 1) * p \<le> h * p" by (rule mult_le_mono1) (use assms(2) in simp)
  ultimately show ?thesis by (simp add: algebra_simps)
qed

lemma unat_pixel_addr:
  assumes ok: "fb_ok s" and p: "px < fb_width s" "py < fb_height s"
  shows "unat (pixel_addr s px py) =
      unat (fb_address s) + unat py * unat (fb_pitch s) + unat px * 4"
    "unat (pixel_addr s px py) + 3 < unat (fb_address s) + unat (fb_pitch s) * unat (fb_height s)"
proof -
  have b: "(ucast (fb_bpp s div 8) :: u64) = 4" using ok by (simp add: fb_ok_def)
  have g: "unat py * unat (fb_pitch s) + unat px * 4 + 3 < unat (fb_pitch s) * unat (fb_height s)"
    using grid_offset [of "unat px" "unat (fb_width s)" "unat py" "unat (fb_height s)" "unat (fb_pitch s)"] ok p
    by (simp add: fb_ok_def word_less_nat_alt)
  have t: "unat (fb_address s) + unat (fb_pitch s) * unat (fb_height s) < 2 ^ 64"
    using ok by (simp add: fb_ok_def)
  have "unat (py * fb_pitch s) = unat py * unat (fb_pitch s)" "unat (px * 4) = unat px * 4"
    using g t by (subst unat_mult_small; simp)+
  moreover from this have "unat (fb_address s + py * fb_pitch s) = unat (fb_address s) + unat py * unat (fb_pitch s)"
    using g t by (subst unat_add_small; simp)
  ultimately show u: "unat (pixel_addr s px py) =
      unat (fb_address s) + unat py * unat (fb_pitch s) + unat px * 4"
    using g t unfolding pixel_addr_def b by (subst unat_add_small; simp)
  show "unat (pixel_addr s px py) + 3 < unat (fb_address s) + unat (fb_pitch s) * unat (fb_height s)"
    using g unfolding u by simp
qed

lemma pixel_store_inside:
  assumes "fb_ok s" "px < fb_width s" "py < fb_height s"
  shows "drawn_inside s m (store32 (pixel_addr s px py) v m)"
proof -
  have "unat (fb_address s) \<le> unat (pixel_addr s px py)"
    using unat_pixel_addr(1) [OF assms] by linarith
  moreover have "unat (fb_address s) + unat (fb_pitch s) * unat (fb_height s) \<le> 2 ^ 64"
    using assms(1) by (simp add: fb_ok_def)
  ultimately show ?thesis
    unfolding drawn_inside_def using same_outside_store32 unat_pixel_addr(2) [OF assms] by blast
qed

lemma cell_pixel:
  assumes "fb_ok s" "cx < cols s" "cy < rows s" "col < 8" "row < 16"
  shows "cx * FONT_WIDTH + col < fb_width s" "cy * FONT_HEIGHT + row < fb_height s"
    "unat (cx * FONT_WIDTH + col) = unat cx * 8 + unat col"
    "unat (cy * FONT_HEIGHT + row) = unat cy * 16 + unat row"
proof -
  have c: "unat cx < unat (fb_width s) div 8" "unat cy < unat (fb_height s) div 16"
    "unat col < 8" "unat row < 16"
    using assms by (simp_all add: fb_ok_def word_less_nat_alt unat_div)
  then have l: "unat cx * 8 + unat col < unat (fb_width s)" "unat cy * 16 + unat row < unat (fb_height s)"
    by linarith+
  show u: "unat (cx * FONT_WIDTH + col) = unat cx * 8 + unat col"
    "unat (cy * FONT_HEIGHT + row) = unat cy * 16 + unat row"
    using l unat_u64 [of "fb_width s"] unat_u64 [of "fb_height s"]
    by (simp_all add: FONT_WIDTH_def FONT_HEIGHT_def unat_word_ariths)
  show "cx * FONT_WIDTH + col < fb_width s" "cy * FONT_HEIGHT + row < fb_height s"
    using l by (simp_all add: word_less_nat_alt u)
qed

lemma draw_char_inside:
  assumes ok: "fb_ok s" and c: "cx < cols s" "cy < rows s"
  shows "drawn_inside s (fbmem s) (fbmem (draw_char ch cx cy fg bg s))"
proof -
  have "drawn_inside s (fbmem s) (for_up 0 16 (\<lambda>row. for_up 0 8 (\<lambda>col.
      store32 (pixel_addr s (cx * FONT_WIDTH + col) (cy * FONT_HEIGHT + row))
        (glyph_color s ch fg bg row col))) (fbmem s))"
  proof (rule for_up_rule [where P = "\<lambda>_. drawn_inside s (fbmem s)"])
    fix row :: u64 and m
    assume row: "row < 16" and m: "drawn_inside s (fbmem s) m"
    show "drawn_inside s (fbmem s) (for_up 0 8 (\<lambda>col.
        store32 (pixel_addr s (cx * FONT_WIDTH + col) (cy * FONT_HEIGHT + row))
          (glyph_color s ch fg bg row col)) m)"
    proof (rule for_up_rule [where P = "\<lambda>_. drawn_inside s (fbmem s)"])
      fix col :: u64 and m
      assume "col < 8" and m: "drawn_inside s (fbmem s) m"
      from pixel_store_inside [OF ok cell_pixel(1,2) [OF ok c this(1) row]] m
      show "drawn_inside s (fbmem s) (store32 (pixel_addr s (cx * FONT_WIDTH + col) (cy * FONT_HEIGHT + row))
          (glyph_color s ch fg bg row col) m)"
        unfolding drawn_inside_def by (rule same_outside_trans [rotated])
    qed (use m in auto)
  qed (auto simp: drawn_inside_def)
  then show ?thesis by (simp add: draw_char_def)
qed
lemma lines_fit: "y < h div 16 \<Longrightarrow> 16 * (y + 1) \<le> h" for y h :: nat
proof -
  assume "y < h div 16"
  then have "y + 1 \<le> h div 16" by simp
  then show ?thesis by (simp only: less_eq_div_iff_mult_less_eq mult.commute zero_less_numeral)
qed

lemma line_offset:
  fixes y r h p i :: nat
  assumes "y < r" "r \<le> h div 16" "i < p * 16"
  shows "y * (p * 16) + i < p * h"
proof -
  have "16 * (y + 1) \<le> h" using assms(1,2) by (intro lines_fit) simp
  then have "p * (16 * (y + 1)) \<le> p * h" by (rule mult_le_mono2)
  with assms(3) show ?thesis by (simp add: algebra_simps)
qed

lemma fb_ok_rows: "fb_ok s \<Longrightarrow> 0 < rows s \<and> unat (rows s) = unat (fb_height s) div 16"
  unfolding fb_ok_def by (auto simp: unat_div)

lemma fb_ok_room: "fb_ok s \<Longrightarrow> unat (fb_address s) + unat (fb_pitch s) * unat (fb_height s) < 2 ^ 64"
  by (simp add: fb_ok_def)

lemma unat_line_size:
  assumes ok: "fb_ok s"
  shows "unat (fb_pitch s * FONT_HEIGHT) = unat (fb_pitch s) * 16"
proof -
  have "0 < unat (fb_height s) div 16"
    using fb_ok_rows [OF ok] by (metis word_less_nat_alt unsigned_0)
  then have "16 \<le> unat (fb_height s)" by simp
  then have "unat (fb_pitch s) * 16 \<le> unat (fb_pitch s) * unat (fb_height s)" by (intro mult_le_mono2)
  then have "unat (fb_pitch s) * 16 < 2 ^ 64" using fb_ok_room [OF ok] by linarith
  then show ?thesis by (subst unat_mult_small) (simp_all add: FONT_HEIGHT_def)
qed

lemma unat_line_addr:
  assumes ok: "fb_ok s" and y: "y < rows s" and i: "i < fb_pitch s * FONT_HEIGHT"
  shows "unat (fb_address s + y * (fb_pitch s * FONT_HEIGHT) + i) =
       unat (fb_address s) + unat y * (unat (fb_pitch s) * 16) + unat i"
    "unat y * (unat (fb_pitch s) * 16) + unat i < unat (fb_pitch s) * unat (fb_height s)"
proof -
  let ?p = "unat (fb_pitch s)" let ?h = "unat (fb_height s)"
  have i': "unat i < ?p * 16" using i unat_line_size [OF ok] by (simp add: word_less_nat_alt)
  have "unat y < unat (rows s)" using y by (simp add: word_less_nat_alt)
  from line_offset [OF this _ i'] fb_ok_rows [OF ok]
  show o: "unat y * (?p * 16) + unat i < ?p * ?h" by simp
  have "unat (y * (fb_pitch s * FONT_HEIGHT)) = unat y * (?p * 16)"
    using o fb_ok_room [OF ok] by (subst unat_mult_small) (simp_all add: unat_line_size [OF ok])
  then show "unat (fb_address s + y * (fb_pitch s * FONT_HEIGHT) + i) =
      unat (fb_address s) + unat y * (?p * 16) + unat i"
    using o fb_ok_room [OF ok] by (subst unat_add_small; (subst unat_add_small)?; simp)
qed

lemma rows_room: "y < rows s \<Longrightarrow> 1 \<le> y \<Longrightarrow> y - 1 < rows s \<and> unat (y - 1) = unat y - 1" for y :: u64
  by unat_arith

text \<open>The bytes of the screen as offsets from its start.\<close>

definition screen :: "'a console_scheme \<Rightarrow> memory \<Rightarrow> nat \<Rightarrow> u8" where
  "screen s m k = m (fb_address s + of_nat k)"

lemma screen_upd:
  assumes "fb_ok s" "unat a = unat (fb_address s) + j" "j < unat (fb_pitch s) * unat (fb_height s)"
    "k < unat (fb_pitch s) * unat (fb_height s)"
  shows "screen s (m(a := v)) k = (if k = j then v else screen s m k)"
proof -
  have t: "unat (fb_address s) + unat (fb_pitch s) * unat (fb_height s) < 2 ^ 64"
    using assms(1) by (simp add: fb_ok_def)
  have "unat (fb_address s + of_nat k) = unat (fb_address s) + k"
    using t assms(4) by (simp add: unat_word_ariths unat_of_nat)
  then have "fb_address s + of_nat k = a \<longleftrightarrow> k = j"
    using assms(2) by (simp add: word_unat_eq_iff)
  then show ?thesis by (simp add: screen_def)
qed

lemma screen_at: "unat a = unat (fb_address s) + j \<Longrightarrow> m a = screen s m j"
proof -
  assume "unat a = unat (fb_address s) + j"
  then have "a = fb_address s + of_nat j"
    by (metis of_nat_add of_nat_unat ucast_id)
  then show ?thesis by (simp add: screen_def)
qed
lemma for_up_inner_rule:
  assumes "P lo lo' s" "lo \<le> hi" "lo' \<le> hi'"
    and "\<And>i j s. lo \<le> i \<Longrightarrow> i < hi \<Longrightarrow> lo' \<le> j \<Longrightarrow> j < hi' \<Longrightarrow> P i j s \<Longrightarrow> P i (j + 1) (f i j s)"
    and "\<And>i s. lo \<le> i \<Longrightarrow> i < hi \<Longrightarrow> P i hi' s \<Longrightarrow> P (i + 1) lo' s"
  shows "P hi lo' (for_up lo hi (\<lambda>i. for_up lo' hi' (f i)) s)"
proof (rule for_up_rule [where P = "\<lambda>i. P i lo'"])
  fix i s
  assume i: "lo \<le> i" "i < hi" and "P i lo' s"
  then have "P i hi' (for_up lo' hi' (f i) s)"
    using assms(3,4) by (intro for_up_rule [where P = "P i"]) auto
  then show "P (i + 1) lo' (for_up lo' hi' (f i) s)" by (rule assms(5) [OF i])
qed (use assms in auto)

text \<open>
  The copying loops of \<open>scroll\<close>: after row \<open>y\<close> up to byte \<open>i\<close>, what lies before is the
  screen one line further down, what lies behind is as it was.
\<close>

definition shifted :: "'a console_scheme \<Rightarrow> memory \<Rightarrow> nat \<Rightarrow> memory \<Rightarrow> bool" where
  "shifted s m0 n m \<longleftrightarrow> drawn_inside s m0 m \<and>
     (\<forall>k < unat (fb_pitch s) * unat (fb_height s).
        screen s m k = (if k < n then screen s m0 (k + unat (fb_pitch s) * 16) else screen s m0 k))"

lemma scroll_copy:
  assumes ok: "fb_ok s"
  defines "L \<equiv> fb_pitch s * FONT_HEIGHT" and "p \<equiv> unat (fb_pitch s) * 16"
  shows "shifted s m0 (unat (rows s - 1) * p)
    (for_up 1 (rows s) (\<lambda>y. for_up 0 L
       (\<lambda>i m. m(fb_address s + (y - 1) * L + i := m (fb_address s + y * L + i)))) m0)"
proof -
  let ?P = "\<lambda>(y :: u64) (i :: u64) m. 1 \<le> y \<and> shifted s m0 (unat (y - 1) * p + unat i) m"
  have pos: "1 \<le> rows s" using fb_ok_rows [OF ok] by (simp add: one_le_iff)
  have L: "unat L = p" using unat_line_size [OF ok] by (simp add: L_def p_def)
  have "?P (rows s) 0 (for_up 1 (rows s) (\<lambda>y. for_up 0 L
       (\<lambda>i m. m(fb_address s + (y - 1) * L + i := m (fb_address s + y * L + i)))) m0)"
  proof (rule for_up_inner_rule [where P = ?P])
    show "?P 1 0 m0" by (simp add: shifted_def drawn_inside_def)
    fix y i :: u64 and m
    assume y: "1 \<le> y" "y < rows s" and i: "0 \<le> i" "i < L" and P: "?P y i m"
    note y1 = rows_room [OF y(2,1)]
    note u = unat_line_addr [OF ok y(2) i(2) [unfolded L_def], folded L_def p_def]
      unat_line_addr [OF ok conjunct1 [OF y1] i(2) [unfolded L_def], folded L_def p_def]
    show "?P y (i + 1) (m(fb_address s + (y - 1) * L + i := m (fb_address s + y * L + i)))"
    proof -
      let ?a = "fb_address s + (y - 1) * L + i" and ?b = "fb_address s + y * L + i"
      let ?j = "unat (y - 1) * p + unat i"
      have j: "unat y * p + unat i = ?j + p" 
        using y1 y(1) by (cases "unat y") (auto simp: word_le_nat_alt)
      have "unat (i + 1) = unat i + 1" using less_inc_le [OF i(2)] by simp
      moreover have "m ?b = screen s m (?j + p)" using u(1) j by (intro screen_at) simp
      then have "m ?b = screen s m0 (?j + p)" using P u(2) j i(2) L by (simp add: shifted_def p_def word_less_nat_alt)
      moreover have "drawn_inside s m0 (m(?a := m ?b))"
        using P same_outside_trans same_outside_upd [of "unat (fb_address s)" ?a _ m "m ?b"] u(3,4)
        unfolding shifted_def drawn_inside_def by fastforce
      ultimately show ?thesis
        using P y(1) screen_upd [OF ok u(3) [unfolded add.assoc [of "unat (fb_address s)"]] u(4)]
        by (auto simp: shifted_def p_def)
    qed
  next
    fix y :: u64 and m
    assume y: "1 \<le> y" "y < rows s" and P: "?P y L m"
    have "unat (y + 1 - 1) * p + unat (0 :: u64) = unat (y - 1) * p + unat L"
      using rows_room [OF y(2,1)] y(1) L by (cases "unat y") (auto simp: word_le_nat_alt)
    with P y less_inc_le [OF y(2)] show "?P (y + 1) 0 m" using le_inc_le [OF y] by simp
  qed (use pos in auto)
  then show ?thesis by simp
qed
text \<open>The loop that clears the last line writes that line only.\<close>

lemma last_line_room:
  assumes ok: "fb_ok s"
  shows "unat (fb_address s) + unat (rows s - 1) * (unat (fb_pitch s) * 16) + unat (fb_pitch s) * 16
    \<le> unat (fb_address s) + unat (fb_pitch s) * unat (fb_height s)"
proof -
  have "rows s - 1 < rows s" using fb_ok_rows [OF ok] by unat_arith
  then have "unat (rows s - 1) < unat (fb_height s) div 16"
    using fb_ok_rows [OF ok] by (metis word_less_nat_alt)
  then have "unat (fb_pitch s) * (16 * (unat (rows s - 1) + 1)) \<le> unat (fb_pitch s) * unat (fb_height s)"
    by (intro mult_le_mono2 lines_fit)
  then show ?thesis by (simp add: algebra_simps)
qed

lemma scroll_clear:
  assumes ok: "fb_ok s" and i: "i < (fb_pitch s div 4) * FONT_HEIGHT"
  defines "a \<equiv> unat (fb_address s) + unat (rows s - 1) * (unat (fb_pitch s) * 16)"
  shows "same_outside a (unat (fb_pitch s) * 16) m
      (store32 (fb_address s + (rows s - 1) * (fb_pitch s * FONT_HEIGHT) + i * 4) v m)"
proof -
  let ?p = "unat (fb_pitch s)"
  note room = last_line_room [OF ok, folded a_def]
  have last: "rows s - 1 < rows s" using fb_ok_rows [OF ok] by unat_arith
  have "unat ((fb_pitch s div 4) * FONT_HEIGHT) \<le> ?p div 4 * 16"
    by (simp add: FONT_HEIGHT_def unat_word_ariths unat_div)
  then have i': "unat i < ?p div 4 * 16" using i by (simp add: word_less_nat_alt)
  then have i4: "unat i * 4 + 3 < ?p * 16" by linarith
  have small: "unat i * 4 < 2 ^ 64" "?p * 16 < 2 ^ 64"
    using i4 room fb_ok_room [OF ok] by (simp_all add: a_def)
  then have ui: "unat (i * 4) = unat i * 4" by (subst unat_mult_small) simp_all
  then have "i * 4 < fb_pitch s * FONT_HEIGHT"
    using i4 unat_line_size [OF ok] by (simp add: word_less_nat_alt)
  from unat_line_addr(1) [OF ok last this] ui
  have "unat (fb_address s + (rows s - 1) * (fb_pitch s * FONT_HEIGHT) + i * 4) = a + unat i * 4"
    by (simp add: a_def)
  moreover have "a + ?p * 16 \<le> 2 ^ 64" using room fb_ok_room [OF ok] by linarith
  ultimately show ?thesis
    using i4 by (intro same_outside_store32) (simp_all only: le_add1 add.assoc add_less_cancel_left)
qed

lemma same_outside_mono: "same_outside a n m m' \<Longrightarrow> b \<le> a \<Longrightarrow> a + n \<le> b + l \<Longrightarrow> same_outside b l m m'"
  by (auto simp: same_outside_def)

text \<open>
  After \<open>scroll\<close> every text line but the last shows what the line below it showed, and
  nothing outside the framebuffer is written.
\<close>

lemma scroll_shifts:
  assumes ok: "fb_ok s"
  shows "drawn_inside s (fbmem s) (fbmem (scroll bg s))"
    "k < unat (rows s - 1) * (unat (fb_pitch s) * 16) \<Longrightarrow>
      screen s (fbmem (scroll bg s)) k = screen s (fbmem s) (k + unat (fb_pitch s) * 16)"
proof -
  let ?p = "unat (fb_pitch s) * 16" and ?n = "unat (rows s - 1) * (unat (fb_pitch s) * 16)"
  obtain m1 where m1: "shifted s (fbmem s) ?n m1"
    and fb: "fbmem (scroll bg s) = for_up 0 ((fb_pitch s div 4) * FONT_HEIGHT)
      (\<lambda>i. store32 (fb_address s + (rows s - 1) * (fb_pitch s * FONT_HEIGHT) + i * 4) bg) m1"
    using scroll_copy [OF ok] by (auto simp: scroll_def Let_def)
  let ?a = "unat (fb_address s) + ?n"
  have out: "same_outside ?a ?p m1 (fbmem (scroll bg s))"
    unfolding fb
    by (rule for_up_rule [where P = "\<lambda>_. same_outside ?a ?p m1"])
      (auto intro: same_outside_trans scroll_clear [OF ok])
  note room = last_line_room [OF ok]
  show "drawn_inside s (fbmem s) (fbmem (scroll bg s))"
    using m1 same_outside_trans [OF _ same_outside_mono [OF out le_add1 room]]
    unfolding shifted_def drawn_inside_def by blast
  assume k: "k < ?n"
  then have "unat (fb_address s + of_nat k) = unat (fb_address s) + k"
    using room fb_ok_room [OF ok] by (simp add: unat_word_ariths unat_of_nat)
  then have "screen s (fbmem (scroll bg s)) k = screen s m1 k"
    using out k by (simp add: same_outside_def screen_def)
  then show "screen s (fbmem (scroll bg s)) k = screen s (fbmem s) (k + ?p)"
    using m1 k room by (simp add: shifted_def)
qed

text \<open>The steps of \<open>put_char\<close>: at most one character drawn, then at most one scroll.\<close>

lemma same_fb_cursor:
  "same_fb s (t\<lparr>cursor_x := x\<rparr>) = same_fb s t"
  "same_fb s (t\<lparr>cursor_x := x, cursor_y := y\<rparr>) = same_fb s t"
  by (simp_all add: same_fb_def)

lemma same_fb_draw: "same_fb s (draw_char ch x y fg bg s)"
  by (simp add: same_fb_def draw_char_def)

lemma put_char_steps:
  obtains t bg where "same_fb s t"
    "fbmem t = fbmem s \<or> fbmem t = fbmem (draw_char ch (cursor_x s) (cursor_y s) color bg s)"
    "fbmem (put_char ch color s) = fbmem t \<or> fbmem (put_char ch color s) = fbmem (scroll bg t)"
proof -
  define s1 where "s1 =
    (if ch = 10 then s\<lparr>cursor_x := 0, cursor_y := cursor_y s + 1\<rparr>
     else if ch = 13 then s\<lparr>cursor_x := 0\<rparr>
     else if ch = 9 then s\<lparr>cursor_x := (cursor_x s + 4) AND NOT 3\<rparr>
     else if ch = 8 then (if cursor_x s > 0 then s\<lparr>cursor_x := cursor_x s - 1\<rparr> else s)
     else (draw_char ch (cursor_x s) (cursor_y s) color (back_color s) s)\<lparr>cursor_x := cursor_x s + 1\<rparr>)"
  define s2 where "s2 =
    (if cursor_x s1 \<ge> cols s1 then s1\<lparr>cursor_x := 0, cursor_y := cursor_y s1 + 1\<rparr> else s1)"
  have "put_char ch color s =
      (if cursor_y s2 \<ge> rows s2 then (scroll (back_color s) s2)\<lparr>cursor_y := rows s2 - 1\<rparr> else s2)"
    unfolding put_char_def Let_def s1_def [symmetric] s2_def [symmetric] ..
  moreover have "same_fb s s1" "fbmem s1 = fbmem s \<or>
      fbmem s1 = fbmem (draw_char ch (cursor_x s) (cursor_y s) color (back_color s) s)"
    unfolding s1_def by (simp_all add: same_fb_cursor same_fb_draw)
  moreover have "same_fb s1 s2" "fbmem s2 = fbmem s1"
    unfolding s2_def by (simp_all add: same_fb_cursor)
  ultimately show thesis
    by (intro that [of s2 "back_color s"]) (auto intro: same_fb_trans)
qed

lemma put_char_inside:
  assumes ok: "fb_ok s" and c: "cursor_ok s"
  shows "drawn_inside s (fbmem s) (fbmem (put_char ch color s))"
proof -
  obtain t bg where t: "same_fb s t"
    "fbmem t = fbmem s \<or> fbmem t = fbmem (draw_char ch (cursor_x s) (cursor_y s) color bg s)"
    "fbmem (put_char ch color s) = fbmem t \<or> fbmem (put_char ch color s) = fbmem (scroll bg t)"
    by (rule put_char_steps)
  have "drawn_inside s (fbmem s) (fbmem (draw_char ch (cursor_x s) (cursor_y s) color bg s))"
    using c by (intro draw_char_inside ok) (simp_all add: cursor_ok_def)
  with t(2) have "drawn_inside s (fbmem s) (fbmem t)" by (auto simp: drawn_inside_def)
  moreover have "drawn_inside s (fbmem t) (fbmem (scroll bg t))"
    using scroll_shifts(1) [of t bg] same_fb_ok [OF t(1)] ok t(1)
    by (simp add: drawn_inside_def same_fb_def)
  ultimately have "drawn_inside s (fbmem s) (fbmem (scroll bg t))"
    unfolding drawn_inside_def by (rule same_outside_trans)
  with t(3) \<open>drawn_inside s (fbmem s) (fbmem t)\<close> show ?thesis by (elim disjE) simp_all
qed
subsection \<open>Numbers as text\<close>

text \<open>Reading a numeral back: digits, then letters from \<open>A\<close> on, most significant first.\<close>

definition digit_value :: "u8 \<Rightarrow> nat" where
  "digit_value c = (if c < 65 then unat c - 48 else unat c - 55)"

definition read_num :: "nat \<Rightarrow> cstring \<Rightarrow> nat" where
  "read_num base t = foldl (\<lambda>n c. n * base + digit_value c) 0 t"

definition read_dec :: "cstring \<Rightarrow> int" where
  "read_dec t = (case t of c # t' \<Rightarrow> if c = 45 then - int (read_num 10 t') else int (read_num 10 t) | [] \<Rightarrow> 0)"

text \<open>The usual way to write a number, for comparison.\<close>

definition digit_char :: "nat \<Rightarrow> u8" where
  "digit_char d = (if d < 10 then of_nat (48 + d) else of_nat (55 + d))"

fun numeral_of :: "nat \<Rightarrow> nat \<Rightarrow> cstring" where
  "numeral_of base n =
     (if n < base \<or> base < 2 then [digit_char n] else numeral_of base (n div base) @ [digit_char (n mod base)])"

declare numeral_of.simps [simp del]

lemma read_num_snoc: "read_num base (t @ [c]) = read_num base t * base + digit_value c"
  by (simp add: read_num_def)

lemma unat_digit_char: "d < 16 \<Longrightarrow> unat (digit_char d) = (if d < 10 then 48 + d else 55 + d)"
  by (simp add: digit_char_def unat_of_nat del: of_nat_add)

lemma digit_value_char: "d < 16 \<Longrightarrow> digit_value (digit_char d) = d"
  by (simp add: digit_value_def word_less_nat_alt unat_digit_char)

lemma read_numeral_of:
  assumes "2 \<le> base" "base \<le> 16"
  shows "read_num base (numeral_of base n) = n"
proof (induction n rule: less_induct)
  case (less n)
  show ?case
  proof (cases "n < base")
    case True
    then have "numeral_of base n = [digit_char n]" by (subst numeral_of.simps) simp
    with True assms show ?thesis using digit_value_char [of n] by (simp add: read_num_def)
  next
    case False
    then have "numeral_of base n = numeral_of base (n div base) @ [digit_char (n mod base)]"
      using assms(1) by (subst numeral_of.simps) simp
    moreover have "n div base < n" using False assms(1) by (intro div_less_dividend) auto
    moreover have "n mod base < 16" using assms by (auto intro: less_le_trans [OF mod_less_divisor])
    ultimately show ?thesis using less.IH [of "n div base"] digit_value_char by (simp add: read_num_snoc)
  qed
qed

lemma numeral_of_head:
  assumes "2 \<le> base" "base \<le> 16"
  shows "\<exists>c t. numeral_of base n = c # t \<and> 48 \<le> unat c"
proof (induction n rule: less_induct)
  case (less n)
  have d: "48 \<le> unat (digit_char d)" if "d < 16" for d
    using that by (simp add: unat_digit_char)
  show ?case
  proof (cases "n < base")
    case True
    with assms d [of n] show ?thesis by (subst numeral_of.simps) simp
  next
    case False
    moreover have "n div base < n" using False assms(1) by (intro div_less_dividend) auto
    ultimately show ?thesis
      using less.IH [of "n div base"] assms(1) by (subst numeral_of.simps) auto
  qed
qed

text \<open>The digit loop writes the usual numeral in front of what it found before.\<close>

lemma num_loop_numeral:
  assumes "0 < n" "2 \<le> base" "base \<le> 16"
  shows "num_loop (int n) (int base) tmp = numeral_of base n @ tmp"
  using assms(1)
proof (induction n arbitrary: tmp rule: less_induct)
  case (less n)
  have d: "n mod base < 16" using assms by (auto intro: less_le_trans [OF mod_less_divisor])
  have c: "(of_int (if int n smod int base < 10 then 48 + int n smod int base else 65 + int n smod int base - 10) :: u8)
      = digit_char (n mod base)"
    by (simp add: digit_char_def signed_modulo_int_def zmod_int [symmetric])
  have q: "int n sdiv int base = int (n div base)"
    using assms less.prems by (simp add: signed_divide_int_def zdiv_int)
  have step: "num_loop (int n) (int base) tmp = num_loop (int (n div base)) (int base) (digit_char (n mod base) # tmp)"
    using less.prems assms by (subst num_loop.simps) (simp add: Let_def c q)
  show ?case
  proof (cases "n < base")
    case True
    with step show ?thesis by (simp add: num_loop.simps [of 0] numeral_of.simps [of base n])
  next
    case False
    then have "n div base < n" "0 < n div base"
      using assms(2) by (auto intro!: div_less_dividend simp: div_greater_zero_iff)
    then show ?thesis using less.IH [of "n div base"] False assms(2)
      by (simp add: step numeral_of.simps [of base n])
  qed
qed

lemma put_all_single [simp]: "put_all [c] b = put_buf c b"
  by (cases "put_buf c b") simp_all

lemma put_all_append: "length b + length t \<le> OUT_BUF \<Longrightarrow> put_all t b = Some (b @ t)"
  by (induction t arbitrary: b) (simp_all add: put_buf_def)

text \<open>The text of an \<open>int\<close> in base ten.\<close>

definition dec_text :: "u32 \<Rightarrow> cstring" where
  "dec_text v = (if sint v < 0 then 45 # numeral_of 10 (nat (- sint v)) else numeral_of 10 (nat (sint v)))"

lemma read_dec_text: "read_dec (dec_text v) = sint v"
proof -
  obtain c t where "numeral_of 10 (nat (sint v)) = c # t" "48 \<le> unat c"
    using numeral_of_head [of 10 "nat (sint v)"] by auto
  then show ?thesis
    using read_numeral_of [of 10 "nat (sint v)"] read_numeral_of [of 10 "nat (- sint v)"]
    by (auto simp: read_dec_def dec_text_def)
qed

lemma length_numeral_of: "n < base ^ Suc k \<Longrightarrow> 2 \<le> base \<Longrightarrow> length (numeral_of base n) \<le> Suc k"
proof (induction k arbitrary: n)
  case 0
  then show ?case by (simp add: numeral_of.simps [of base n])
next
  case (Suc k)
  show ?case
  proof (cases "n < base")
    case False
    have "n div base < base ^ Suc k" using Suc.prems by (intro less_mult_imp_div_less) (simp add: mult.commute)
    with Suc.IH [OF this Suc.prems(2)] False Suc.prems(2) show ?thesis
      by (simp add: numeral_of.simps [of base n])
  qed (simp add: numeral_of.simps [of base n])
qed

lemma length_dec_text: "length (dec_text v) \<le> 11"
proof -
  have "- (2 ^ 31) \<le> sint v" "sint v < 2 ^ 31"
    using sint_ge [of v] sint_lt [of v] by simp_all
  then have "nat (- sint v) < 10 ^ Suc 9" "nat (sint v) < 10 ^ Suc 9" by simp_all
  then show ?thesis
    using length_numeral_of [of "nat (- sint v)" 10 9] length_numeral_of [of "nat (sint v)" 10 9]
    by (simp add: dec_text_def)
qed

lemma print_dec:
  assumes "sint v \<noteq> - (2 ^ 31)"
  shows "print_num_to_buf v 10 b = put_all (dec_text v) b"
proof -
  consider "sint v = 0" | "sint v < 0" | "0 < sint v" by linarith
  then show ?thesis
  proof cases
    case 1
    then show ?thesis
      by (simp add: print_num_to_buf_def dec_text_def numeral_of.simps digit_char_def del: put_all.simps)
  next
    case 2
    then show ?thesis
      using assms num_loop_numeral [of "nat (- sint v)" 10 "[]"]
      by (simp add: print_num_to_buf_def dec_text_def)
  next
    case 3
    then show ?thesis
      using num_loop_numeral [of "nat (sint v)" 10 "[]"]
      by (simp add: print_num_to_buf_def dec_text_def)
  qed
qed

lemma print_hex:
  assumes "0 \<le> sint v"
  shows "print_num_to_buf v 16 b = put_all (numeral_of 16 (nat (sint v))) b"
proof (cases "sint v = 0")
  case True
  then show ?thesis by (simp add: print_num_to_buf_def numeral_of.simps digit_char_def del: put_all.simps)
next
  case False
  then show ?thesis
    using assms num_loop_numeral [of "nat (sint v)" 16 "[]"] by (simp add: print_num_to_buf_def)
qed
lemma hex_digit_char:
  fixes v :: u64
  shows "(if v AND 0xF < 10 then 48 + ucast (v AND 0xF) else 65 + (ucast (v AND 0xF) - 10)) = digit_char (unat v mod 16)"
proof -
  define d where "d = unat v mod 16"
  have "v AND 0xF = take_bit 4 v" by (simp add: take_bit_eq_mask mask_eq_exp_minus_1)
  then have u: "unat (v AND 0xF) = d"
    by (simp add: d_def take_bit_eq_mod unat_mod)
  then have "(ucast (v AND 0xF) :: u8) = of_nat d" by (metis of_nat_unat)
  moreover have "v AND 0xF < 10 \<longleftrightarrow> d < 10" using u by (simp add: word_less_nat_alt)
  ultimately show ?thesis by (simp add: digit_char_def d_def)
qed

lemma length_hex_digits: "length (hex_digits n v) = n"
  by (induction n v rule: hex_digits.induct) (simp_all add: Let_def)

lemma read_hex_digits: "unat v < 16 ^ n \<Longrightarrow> read_num 16 (hex_digits n v) = unat v"
proof (induction n v rule: hex_digits.induct)
  case (1 v)
  then show ?case by (simp add: read_num_def)
next
  case (2 n v)
  have "unat (drop_bit 4 v) = unat v div 16" by (simp add: drop_bit_eq_div unat_div)
  moreover from this 2 have "unat (drop_bit 4 v) < 16 ^ n" by (simp add: div_less_iff_less_mult mult.commute)
  ultimately show ?case
    using 2 by (simp add: Let_def hex_digit_char read_num_snoc digit_value_char del: hex_digits.simps(1))
qed


subsection \<open>What \<open>printf\<close> prints\<close>

text \<open>The text a format and its arguments stand for, when every conversion has its argument.\<close>

fun render :: "cstring \<Rightarrow> arg list \<Rightarrow> cstring option" where
  "render [] args = Some []"
| "render (c # fmt) args =
     (if c \<noteq> 37 then map_option ((#) c) (render fmt args)
      else case fmt of
        [] \<Rightarrow> None
      | d # fmt' \<Rightarrow>
          if d = 37 then map_option ((#) 37) (render fmt' args)
          else if d \<notin> {115, 99, 100, 120} then render fmt' args
          else (case args of
            [] \<Rightarrow> None
          | AStr t # args' \<Rightarrow> if d = 115 then map_option ((@) t) (render fmt' args') else None
          | AInt v # args' \<Rightarrow>
              if d = 99 then map_option ((#) (ucast v)) (render fmt' args')
              else if d = 100 \<and> sint v \<noteq> - (2 ^ 31) then map_option ((@) (dec_text v)) (render fmt' args')
              else if d = 120 \<and> 0 \<le> sint v then
                map_option ((@) (numeral_of 16 (nat (sint v)))) (render fmt' args')
              else None))"

lemma bind_put_buf: "length b < OUT_BUF \<Longrightarrow> Option.bind (put_buf c b) f = f (b @ [c])"
  by (simp add: put_buf_def)

lemma bind_put_all: "length b + length t \<le> OUT_BUF \<Longrightarrow> Option.bind (put_all t b) f = f (b @ t)"
  by (simp add: put_all_append)

lemma printf_loop_render:
  assumes "render fmt args = Some t" "length b + length t \<le> 1023"
  shows "printf_loop fmt args b = Some (b @ t)"
  using assms
proof (induction fmt args arbitrary: b t rule: render.induct)
  case (2 c fmt args)
  show ?case
  proof (cases "1023 \<le> length b")
    case True
    then show ?thesis using 2(9) by (cases t) simp_all
  next
    case False
    then have room: "length b < OUT_BUF" by (simp add: OUT_BUF_def)
    have all: "length b + length u \<le> 1023 \<Longrightarrow> length b + length u \<le> OUT_BUF" for u :: cstring
      by (simp add: OUT_BUF_def)
    show ?thesis
    proof (cases "c = 37")
      case c: False
      then obtain t' where "render fmt args = Some t'" "t = c # t'" using 2(8) by auto
      then show ?thesis using 2(1) [of t' "b @ [c]"] 2(9) c False
        by (simp add: bind_put_buf [OF room])
    next
      case c: True
      then obtain d fmt' where fmt: "fmt = d # fmt'"
        using 2(8) by (cases fmt) auto
      consider (pct) "d = 37" | (other) "d \<notin> {37, 115, 99, 100, 120}"
        | (strg) u args' where "d = 115" "args = AStr u # args'"
        | (chr1) v args' where "d = 99" "args = AInt v # args'"
        | (dec) v args' where "d = 100" "args = AInt v # args'" "sint v \<noteq> - (2 ^ 31)"
        | (hexa) v args' where "d = 120" "args = AInt v # args'" "0 \<le> sint v"
        using 2(8) c fmt
        by (auto split: if_splits list.splits arg.splits)
      then show ?thesis
      proof cases
        case pct
        then obtain t' where "render fmt' args = Some t'" "t = 37 # t'" using 2(8) c fmt by auto
        then show ?thesis using 2(2) [OF _ fmt, of t' "b @ [37]"] 2(9) c fmt False pct
          by (simp add: bind_put_buf [OF room])
      next
        case other
        then have "render fmt' args = Some t" using 2(8) c fmt by auto
        then show ?thesis using 2(3) [OF _ fmt, of t b] 2(9) c fmt False \<open>d \<notin> _\<close> by simp
      next
        case strg
        then obtain t' where "render fmt' args' = Some t'" "t = u @ t'" using 2(8) c fmt by auto
        then show ?thesis using 2(4) [OF _ fmt, of _ args' u t' "b @ u"] 2(9) c fmt False strg all [of u]
          by (simp add: bind_put_all)
      next
        case chr1
        then obtain t' where "render fmt' args' = Some t'" "t = ucast v # t'" using 2(8) c fmt by auto
        then show ?thesis using 2(5) [OF _ fmt, of _ args' v t' "b @ [ucast v]"] 2(9) c fmt False chr1
          by (simp add: bind_put_buf [OF room])
      next
        case dec
        then obtain t' where "render fmt' args' = Some t'" "t = dec_text v @ t'" using 2(8) c fmt by auto
        then show ?thesis using 2(6) [OF _ fmt, of _ args' v t' "b @ dec_text v"] 2(9) c fmt False dec
            all [of "dec_text v"]
          by (simp add: print_dec bind_put_all)
      next
        case hexa
        then obtain t' where "render fmt' args' = Some t'" "t = numeral_of 16 (nat (sint v)) @ t'"
          using 2(8) c fmt by auto
        then show ?thesis
          using 2(7) [OF _ fmt, of _ args' v t' "b @ numeral_of 16 (nat (sint v))"] 2(9) c fmt False hexa
            all [of "numeral_of 16 (nat (sint v))"]
          by (simp add: print_hex bind_put_all)
      qed
    qed
  qed
qed simp
subsection \<open>\<open>printf\<close> as a whole\<close>

lemma put_char_flags:
  "put_char c color (s\<lparr>fb_lock := l, interrupts := i\<rparr>) = (put_char c color s)\<lparr>fb_lock := l, interrupts := i\<rparr>"
proof -
  have dr: "draw_char c x y fg bg (s\<lparr>fb_lock := l, interrupts := i\<rparr>) = (draw_char c x y fg bg s)\<lparr>fb_lock := l, interrupts := i\<rparr>" for x y fg bg
    by (simp add: draw_char_def pixel_addr_def glyph_color_def)
  have cx: "t\<lparr>fb_lock := l, interrupts := i, cursor_x := x\<rparr> = t\<lparr>cursor_x := x, fb_lock := l, interrupts := i\<rparr>"
    "t\<lparr>fb_lock := l, interrupts := i, cursor_y := x\<rparr> = t\<lparr>cursor_y := x, fb_lock := l, interrupts := i\<rparr>" for x and t :: "'a console_scheme"
    by simp_all
  consider "c = 10" | "c = 13" | "c = 9" | "c = 8" | "c \<notin> {10, 13, 9, 8}" by blast
  then show ?thesis
    by cases (simp_all only: put_char_def Let_def dr cx simp_thms if_True if_False insert_iff empty_iff, simp_all add: scroll_def Let_def dr [simplified])
qed

lemma puts_flags:
  "puts cs color (s\<lparr>fb_lock := l, interrupts := i\<rparr>) = (puts cs color s)\<lparr>fb_lock := l, interrupts := i\<rparr>"
  by (induction cs arbitrary: s) (simp_all add: put_char_flags)

lemma put_char_default: "default_fg (put_char c color s) = default_fg s"
  using put_char_same_fb [of s c color] by (simp add: same_fb_def)

lemma fold_default: "fold (\<lambda>c s. put_char c (default_fg s) s) cs s = puts cs (default_fg s) s"
  by (induction cs arbitrary: s) (simp_all add: put_char_default)

lemma puts_same_fb: "same_fb s (puts cs color s)"
  by (induction cs arbitrary: s) (auto intro: same_fb_trans put_char_same_fb)

lemma puts_cursor: "cursor_ok s \<Longrightarrow> cursor_ok (puts cs color s)"
  by (induction cs arbitrary: s) (simp_all add: put_char_cursor)

lemma puts_inside:
  "fb_ok s \<Longrightarrow> cursor_ok s \<Longrightarrow> drawn_inside s (fbmem s) (fbmem (puts cs color s))"
proof (induction cs arbitrary: s)
  case (Cons c cs)
  let ?t = "put_char c color s"
  have t: "same_fb s ?t" by (rule put_char_same_fb)
  then have "drawn_inside ?t = (drawn_inside s :: memory \<Rightarrow> memory \<Rightarrow> bool)"
    by (simp add: drawn_inside_def same_fb_def)
  with Cons.IH [of ?t] Cons.prems t put_char_inside [OF Cons.prems, of c color]
  show ?case by (simp add: same_fb_ok put_char_cursor drawn_inside_def) (blast intro: same_outside_trans)
qed (simp add: drawn_inside_def)

lemma ok_flags:
  "fb_ok (s\<lparr>default_fg := c\<rparr>) = fb_ok s" "cursor_ok (s\<lparr>default_fg := c\<rparr>) = cursor_ok s"
  "fb_ok (s\<lparr>fb_lock := l, interrupts := i\<rparr>) = fb_ok s"
  "cursor_ok (s\<lparr>fb_lock := l, interrupts := i\<rparr>) = cursor_ok s"
  by (simp_all add: fb_ok_def cursor_ok_def)

text \<open>Once the buffer is filled, both ways of printing it come to the same.\<close>

lemma printf_puts:
  assumes "\<not> fb_lock s" "printf_loop fmt args [] = Some t" "length t < OUT_BUF"
  shows "printf fmt color args s = Some ((puts t color (s\<lparr>default_fg := color\<rparr>))\<lparr>fb_lock := False, interrupts := True\<rparr>)"
proof -
  let ?s = "s\<lparr>default_fg := color\<rparr>"
  have lock: "spin_lock ?s = Some (?s\<lparr>fb_lock := True, interrupts := False\<rparr>)"
    using assms(1) by (simp add: spin_lock_def)
  show ?thesis
    using assms(2,3) by (simp add: printf_def Let_def lock [simplified] put_buf_def fb_vfs_write_def fold_default puts_fold [symmetric]
      puts_flags spin_unlock_def lock)
qed

text \<open>
  C22. \<open>printf\<close> prints the text its format stands for: when that text fits the 1023 characters
  of the buffer, the call returns and has the effect of \<open>puts\<close> on exactly that text, in the
  given colour, with the lock given back and interrupts enabled.
\<close>

theorem printf_renders:
  assumes "\<not> fb_lock s" "render fmt args = Some t" "length t \<le> 1023"
  shows "printf fmt color args s =
    Some ((puts t color (s\<lparr>default_fg := color\<rparr>))\<lparr>fb_lock := False, interrupts := True\<rparr>)"
  using printf_puts [OF assms(1)] printf_loop_render [OF assms(2)] assms(3)
  by (simp add: OUT_BUF_def)

text \<open>A console of 2 by 2 characters on a 16 by 32 framebuffer.\<close>

definition small_console :: console where
  "small_console = \<lparr>fb_address = 0x1000, fb_width = 16, fb_height = 32, fb_pitch = 64, fb_bpp = 32,
     font = (\<lambda>_. 0), fbmem = (\<lambda>_. 0), cursor_x = 0, cursor_y = 0, cols = 2, rows = 2,
     back_color = 0, default_fg = 0xFFFFFF, fb_lock = False, interrupts = True, fb_vfs_node = True\<rparr>"

lemma small_console_ok: "fb_ok small_console" "cursor_ok small_console" "\<not> fb_lock small_console"
  by (simp_all add: small_console_def fb_ok_def cursor_ok_def)

lemma printf_renders_witness:
  "printf (str ''%d'') 5 [AInt 0xFFFFFFFF] small_console =
    Some ((puts (str ''-1'') 5 (small_console\<lparr>default_fg := 5\<rparr>))\<lparr>fb_lock := False, interrupts := True\<rparr>)"
  by (rule printf_renders [OF small_console_ok(3)])
    (simp_all add: str_def dec_text_def numeral_of.simps digit_char_def)

text \<open>
  C23. Nothing \<open>printf\<close> prints leaves the framebuffer: on a usable framebuffer with the cursor
  on the screen, every byte outside is as before, and the cursor is on the screen again.
\<close>

theorem printf_stays_on_screen:
  assumes "fb_ok s" "cursor_ok s" "\<not> fb_lock s" "render fmt args = Some t" "length t \<le> 1023"
  shows "\<exists>s'. printf fmt color args s = Some s' \<and> fb_ok s' \<and> cursor_ok s' \<and>
    same_outside (unat (fb_address s)) (unat (fb_pitch s) * unat (fb_height s)) (fbmem s) (fbmem s')"
proof -
  let ?s = "s\<lparr>default_fg := color\<rparr>"
  have ok: "fb_ok ?s" "cursor_ok ?s" using assms(1,2) by (simp_all only: ok_flags)
  have "printf fmt color args s = Some ((puts t color ?s)\<lparr>fb_lock := False, interrupts := True\<rparr>)"
    using printf_puts [OF assms(3)] printf_loop_render [OF assms(4)] assms(5) by (simp add: OUT_BUF_def)
  moreover have "fb_ok (puts t color ?s)" using same_fb_ok [OF puts_same_fb] ok by blast
  ultimately show ?thesis
    using puts_cursor [OF ok(2), of t color] puts_inside [OF ok, of t color]
    by (simp add: drawn_inside_def ok_flags)
qed

lemma printf_stays_on_screen_witness:
  "\<exists>s'. printf (str ''hi'') 5 [] small_console = Some s' \<and> fb_ok s' \<and> cursor_ok s' \<and>
    same_outside (unat (fb_address small_console)) (unat (fb_pitch small_console) * unat (fb_height small_console))
      (fbmem small_console) (fbmem s')"
  by (rule printf_stays_on_screen [OF small_console_ok, where t = "str ''hi''"]) (simp_all add: str_def)

text \<open>
  Numbers are printed faithfully: what \<open>%d\<close> puts into the buffer reads back as the number,
  for every \<open>int\<close> but the smallest, and \<open>print_hex64\<close> prints sixteen digits that read back
  as the value.
\<close>

theorem numbers_read_back:
  "map_option read_dec (print_num_to_buf v 10 []) = (if sint v = - (2 ^ 31) then None else Some (sint v)) \<and>
   (\<exists>h. print_hex64 x color s = puts h color (puts (str ''0x'') color s) \<and>
     length h = 16 \<and> read_num 16 h = unat x)"
proof (rule conjI)
  show "map_option read_dec (print_num_to_buf v 10 []) = (if sint v = - (2 ^ 31) then None else Some (sint v))"
    using print_dec [of v "[]"] put_all_append [of "[]" "dec_text v"] length_dec_text [of v] read_dec_text [of v]
    by (simp add: OUT_BUF_def) (simp add: print_num_to_buf_def)
  have "unat x < 16 ^ 16" using unat_u64 [of x] by simp
  then show "\<exists>h. print_hex64 x color s = puts h color (puts (str ''0x'') color s) \<and>
      length h = 16 \<and> read_num 16 h = unat x"
    by (intro exI [of _ "hex_digits 16 x"]) (simp add: print_hex64_def length_hex_digits read_hex_digits)
qed

text \<open>A \<open>%d\<close> near the end of the buffer is written past it.\<close>

lemma printf_loop_plain:
  "c \<noteq> 37 \<Longrightarrow> length b + n \<le> 1023 \<Longrightarrow>
    printf_loop (replicate n c @ fmt) args b = printf_loop fmt args (b @ replicate n c)"
  by (induction n arbitrary: b) (simp_all add: put_buf_def OUT_BUF_def)

lemma printf_overflow:
  "printf (replicate 1020 65 @ str ''%d'') color [AInt 12345] s = None"
  using printf_loop_plain [of 65 "[]" 1020 "str ''%d''" "[AInt 12345]"] print_dec [of 12345]
  by (simp add: printf_def str_def dec_text_def numeral_of.simps digit_char_def put_buf_def OUT_BUF_def)

lemma print_hex_negative: "print_num_to_buf 0xFFFFFFFF 16 [] = Some [47]"
  by (simp add: print_num_to_buf_def num_loop.simps signed_divide_int_def signed_modulo_int_def put_buf_def OUT_BUF_def)

end
