(* ===== verification/Machine.thy ===== *)
theory Machine
  imports Scheduler Console
begin

text \<open>
  The kernel's state as the drivers and file systems see it: the scheduler's state with the
  console, the bytes of data memory (file data, buffers) and the I/O ports. What a device
  answers to a read of a port is a function \<open>io_in\<close> of everything done on the ports so far;
  it is a parameter, the hardware's.
\<close>

datatype io_event =
    Outb u16 u8 | Outl u16 u32 | Inb u16 | Inw u16 | Inl u16

record machine = sched +
  con :: console
  ram :: memory
  io_in :: "io_event list \<Rightarrow> io_event \<Rightarrow> u32"
  io_log :: "io_event list"  \<comment> \<open>the latest access first\<close>


subsection \<open>Ports\<close>

definition outb :: "u16 \<Rightarrow> u8 \<Rightarrow> 'a machine_scheme \<Rightarrow> 'a machine_scheme" where
  "outb port val s = s\<lparr>io_log := Outb port val # io_log s\<rparr>"

definition inb :: "u16 \<Rightarrow> 'a machine_scheme \<Rightarrow> u8 \<times> 'a machine_scheme" where
  "inb port s = (ucast (io_in s (io_log s) (Inb port)), s\<lparr>io_log := Inb port # io_log s\<rparr>)"

definition inw :: "u16 \<Rightarrow> 'a machine_scheme \<Rightarrow> u16 \<times> 'a machine_scheme" where
  "inw port s = (ucast (io_in s (io_log s) (Inw port)), s\<lparr>io_log := Inw port # io_log s\<rparr>)"

definition outl :: "u16 \<Rightarrow> u32 \<Rightarrow> 'a machine_scheme \<Rightarrow> 'a machine_scheme" where
  "outl port val s = s\<lparr>io_log := Outl port val # io_log s\<rparr>"

definition inl :: "u16 \<Rightarrow> 'a machine_scheme \<Rightarrow> u32 \<times> 'a machine_scheme" where
  "inl port s = (io_in s (io_log s) (Inl port), s\<lparr>io_log := Inl port # io_log s\<rparr>)"


subsection \<open>Output\<close>

definition kprintf :: "string \<Rightarrow> u32 \<Rightarrow> arg list \<Rightarrow> 'a machine_scheme \<Rightarrow> 'a machine_scheme option" where
  "kprintf fmt color args s = map_option (\<lambda>c. s\<lparr>con := c\<rparr>) (printf (str fmt) color args (con s))"

text \<open>Messages whose text fits the buffer are printed, and change nothing but the console.\<close>

definition prints :: "string \<Rightarrow> arg list \<Rightarrow> bool" where
  "prints fmt args \<longleftrightarrow> (\<exists>t. render (str fmt) args = Some t \<and> length t \<le> 1023)"

lemma kprintf_prints:
  assumes "prints fmt args" "\<not> fb_lock (con s)"
  obtains c where "kprintf fmt color args s = Some (s\<lparr>con := c\<rparr>)" "\<not> fb_lock c"
    "same_fb (con s) (c\<lparr>default_fg := default_fg (con s)\<rparr>)"
proof -
  obtain t where t: "render (str fmt) args = Some t" "length t \<le> 1023"
    using assms(1) by (auto simp: prints_def)
  let ?c = "con s\<lparr>default_fg := color\<rparr>"
  have "printf (str fmt) color args (con s) =
      Some ((puts t color ?c)\<lparr>fb_lock := False, interrupts := True\<rparr>)"
    using printf_puts [OF assms(2)] printf_loop_render [OF t(1), of "[]"] t(2) by (simp add: OUT_BUF_def)
  then have "kprintf fmt color args s =
      Some (s\<lparr>con := (puts t color ?c)\<lparr>fb_lock := False, interrupts := True\<rparr>\<rparr>)"
    by (simp add: kprintf_def)
  moreover have "same_fb ?c (puts t color ?c)" by (rule puts_same_fb)
  ultimately show thesis
    using assms(2) by (intro that [of "(puts t color ?c)\<lparr>fb_lock := False, interrupts := True\<rparr>"])
      (simp_all add: same_fb_def)
qed

text \<open>Two machines that differ in their console only.\<close>

definition upto_con :: "'a machine_scheme \<Rightarrow> 'a machine_scheme \<Rightarrow> bool" where
  "upto_con s t \<longleftrightarrow> (\<exists>c. t = s\<lparr>con := c\<rparr> \<and> (\<not> fb_lock (con s) \<longrightarrow> \<not> fb_lock c))"

lemma upto_con_refl [simp]: "upto_con s s"
  by (auto simp: upto_con_def intro: exI [of _ "con s"])

lemma upto_con_trans: "upto_con s t \<Longrightarrow> upto_con t u \<Longrightarrow> upto_con s u"
proof -
  assume "upto_con s t" "upto_con t u"
  then obtain c d where c: "t = s\<lparr>con := c\<rparr>" "\<not> fb_lock (con s) \<longrightarrow> \<not> fb_lock c"
    and d: "u = t\<lparr>con := d\<rparr>" "\<not> fb_lock (con t) \<longrightarrow> \<not> fb_lock d"
    unfolding upto_con_def by blast
  then have "u = s\<lparr>con := d\<rparr>" "\<not> fb_lock (con s) \<longrightarrow> \<not> fb_lock d" by simp_all
  then show ?thesis unfolding upto_con_def by blast
qed

lemma kprintf_upto:
  assumes "prints fmt args" "\<not> fb_lock (con s)"
  shows "\<exists>t. kprintf fmt color args s = Some t \<and> upto_con s t \<and> \<not> fb_lock (con t)"
proof -
  obtain c where c: "kprintf fmt color args s = Some (s\<lparr>con := c\<rparr>)" "\<not> fb_lock c"
    by (rule kprintf_prints [OF assms])
  then have "upto_con s (s\<lparr>con := c\<rparr>)" unfolding upto_con_def by blast
  with c show ?thesis by simp
qed

text \<open>Consecutive calls of \<open>printf\<close>: format, colour and arguments of each.\<close>

fun say :: "(string \<times> u32 \<times> arg list) list \<Rightarrow> 'a machine_scheme \<Rightarrow> 'a machine_scheme option" where
  "say [] s = Some s"
| "say ((fmt, color, args) # ms) s = do { s1 \<leftarrow> kprintf fmt color args s; say ms s1 }"

lemma say_upto:
  assumes "\<forall>(fmt, color, args) \<in> set ms. prints fmt args" "\<not> fb_lock (con s)"
  shows "\<exists>t. say ms s = Some t \<and> upto_con s t \<and> \<not> fb_lock (con t)"
  using assms
proof (induction ms arbitrary: s)
  case (Cons m ms)
  obtain fmt color args where m: "m = (fmt, color, args)" by (cases m)
  obtain s1 where s1: "kprintf fmt color args s = Some s1" "upto_con s s1" "\<not> fb_lock (con s1)"
    using kprintf_upto [of fmt args s color] Cons.prems m by auto
  with Cons.IH [OF _ s1(3)] Cons.prems(1) obtain t where "say ms s1 = Some t" "upto_con s1 t" "\<not> fb_lock (con t)"
    by auto
  with s1 upto_con_trans m show ?case by (intro exI [of _ t]) auto
qed simp

text \<open>How long the text of a message can get, from its format and the strings in it.\<close>

fun msg_bound :: "cstring \<Rightarrow> arg list \<Rightarrow> int option" where
  "msg_bound [] args = Some 0"
| "msg_bound (c # fmt) args =
     (if c \<noteq> 37 then map_option ((+) 1) (msg_bound fmt args)
      else case fmt of
        [] \<Rightarrow> None
      | d # fmt' \<Rightarrow>
          if d = 37 then map_option ((+) 1) (msg_bound fmt' args)
          else if d \<notin> {115, 99, 100, 120} then msg_bound fmt' args
          else (case args of
            [] \<Rightarrow> None
          | AStr t # args' \<Rightarrow> if d = 115 then map_option ((+) (int (length t))) (msg_bound fmt' args') else None
          | AInt v # args' \<Rightarrow>
              if d = 99 then map_option ((+) 1) (msg_bound fmt' args')
              else if d = 100 \<and> sint v \<noteq> - (2 ^ 31) then map_option ((+) 11) (msg_bound fmt' args')
              else if d = 120 \<and> 0 \<le> sint v then map_option ((+) 8) (msg_bound fmt' args')
              else None))"

lemma length_hex_text: "length (numeral_of 16 (nat (sint (v :: u32)))) \<le> 8"
proof -
  have "nat (sint v) < 16 ^ Suc 7" using sint_lt [of v] by simp
  from length_numeral_of [OF this] show ?thesis by simp
qed

lemma msg_bound_render:
  "msg_bound fmt args = Some n \<Longrightarrow> \<exists>t. render fmt args = Some t \<and> int (length t) \<le> n"
proof (induction fmt args arbitrary: n rule: msg_bound.induct)
  case (2 c fmt args)
  show ?case
  proof (cases "c = 37")
    case False
    with 2(1) [OF False] 2(8) show ?thesis by fastforce
  next
    case c: True
    then obtain d fmt' where fmt: "fmt = d # fmt'" using 2(8) by (cases fmt) auto
    note len = length_dec_text length_hex_text
    show ?thesis
    proof (cases "d \<in> {115, 99, 100, 120}")
      case other: False
      show ?thesis
      proof (cases "d = 37")
        case True
        then obtain k where "msg_bound fmt' args = Some k" "n = 1 + k" using 2(8) c fmt by auto
        with 2(2) [OF _ fmt True, of k] c obtain t where "render fmt' args = Some t" "int (length t) \<le> k" by auto
        with \<open>n = 1 + k\<close> True c fmt show ?thesis by auto
      next
        case False
        with other 2(8) c fmt have "msg_bound fmt' args = Some n" by simp
        with 2(3) [OF _ fmt False, of n] c other False obtain t where "render fmt' args = Some t" "int (length t) \<le> n" by auto
        with other False c fmt show ?thesis by auto
      qed
    next
      case d: True
      then obtain a args' where args: "args = a # args'" using 2(8) c fmt by (cases args) auto
      show ?thesis
      proof (cases a)
        case (AStr t)
        then obtain k where k: "msg_bound fmt' args' = Some k" "n = int (length t) + k" "d = 115"
          using 2(8) c d fmt args by (auto split: if_splits)
        with 2(4) [OF _ fmt _ _ args AStr, of k] c obtain u where "render fmt' args' = Some u" "int (length u) \<le> k" by auto
        with k c fmt args AStr show ?thesis by auto
      next
        case (AInt v)
        from 2(8) c d fmt args AInt obtain k m where k: "msg_bound fmt' args' = Some k" "n = m + k"
          "m = 1 \<and> d = 99 \<or> m = 11 \<and> d = 100 \<and> sint v \<noteq> - (2 ^ 31) \<or> m = 8 \<and> d = 120 \<and> 0 \<le> sint v"
          by (auto split: if_splits)
        have "\<exists>t. render fmt' args' = Some t \<and> int (length t) \<le> k"
          using k(3)
        proof (elim disjE conjE)
          assume "d = 99"
          with 2(5) [OF _ fmt _ _ args AInt _ k(1)] c show ?thesis by simp
        next
          assume "d = 100" "sint v \<noteq> - (2 ^ 31)"
          with 2(6) [OF _ fmt _ _ args AInt _ _ k(1)] c show ?thesis by simp
        next
          assume "d = 120" "0 \<le> sint v"
          with 2(7) [OF _ fmt _ _ args AInt _ _ _ k(1)] c show ?thesis by simp
        qed
        then obtain t where "render fmt' args' = Some t" "int (length t) \<le> k" by blast
        with k(2,3) c fmt args AInt len [of v] show ?thesis by (elim disjE) auto
      qed
    qed
  qed
qed simp

lemma printsI: "msg_bound (str fmt) args = Some n \<Longrightarrow> n \<le> 1023 \<Longrightarrow> prints fmt args"
  using msg_bound_render [of "str fmt" args n] by (fastforce simp: prints_def)

text \<open>A concrete machine, for examples: nothing mapped, one thread, quiet devices.\<close>

definition machine_zero :: machine where
  "machine_zero = sched.extend sched_zero (machine.fields small_console (\<lambda>_. 0) (\<lambda>_ _. 0) [])"

lemmas zero_defs = sched.defs heap.defs machine.defs

lemma machine_zero_heap:
  "hdrs machine_zero = hdrs heap_boot" "head machine_zero = head heap_boot"
  "heap_end machine_zero = heap_end heap_boot" "page_count machine_zero = page_count heap_boot"
  "bitmap machine_zero = bitmap heap_boot" "bitmap_bytes machine_zero = bitmap_bytes heap_boot"
  "con machine_zero = small_console"
  by (simp_all add: machine_zero_def sched_zero_def zero_defs heap_boot_def)

end
