(* ===== verification/Vnode.thy ===== *)
theory Vnode
  imports Machine
begin

text \<open>
  The nodes of the virtual file system, \<open>fs/vfs.h\<close>, and how they are allocated. Nodes lie
  on the kernel heap; \<open>nodes\<close> maps the address of a node to its contents. The function
  pointers of a node are named by the functions of the kernel that are ever stored in them.
\<close>

definition FS_FILE :: u32 where "FS_FILE = 0x01"
definition FS_DIRECTORY :: u32 where "FS_DIRECTORY = 0x02"
definition FS_CHARDEVICE :: u32 where "FS_CHARDEVICE = 0x04"
definition FS_MOUNTPOINT :: u32 where "FS_MOUNTPOINT = 0x40"
definition VFS_FLAG_WRITE :: u32 where "VFS_FLAG_WRITE = 0x02"

datatype node_fn = NULL_FN | RAMFS_READ | RAMFS_FINDDIR | DEVFS_FINDDIR | FB_VFS_WRITE

text \<open>\<open>name\<close> is an array of 128 characters, the terminating NUL included.\<close>

record vfs_node =
  vname :: cstring
  mask :: u32
  uid :: u32
  gid :: u32
  flags :: u32
  inode :: u32
  flen :: u32  \<comment> \<open>\<open>length\<close>\<close>
  impl :: u32
  fread :: node_fn
  fwrite :: node_fn
  fopen :: node_fn
  fclose :: node_fn
  readdir :: node_fn
  finddir :: node_fn
  ptr :: u64

definition sizeof_vfs_node :: u64 where "sizeof_vfs_node = 216"

definition zero_node :: vfs_node where
  "zero_node = \<lparr>vname = [], mask = 0, uid = 0, gid = 0, flags = 0, inode = 0, flen = 0, impl = 0,
     fread = NULL_FN, fwrite = NULL_FN, fopen = NULL_FN, fclose = NULL_FN, readdir = NULL_FN,
     finddir = NULL_FN, ptr = 0\<rparr>"

record vnodes = machine +
  nodes :: "u64 \<Rightarrow> vfs_node"

abbreviation set_node :: "u64 \<Rightarrow> vfs_node \<Rightarrow> 'a vnodes_scheme \<Rightarrow> 'a vnodes_scheme" where
  "set_node p v s \<equiv> s\<lparr>nodes := (nodes s)(p := v)\<rparr>"

definition is_dir :: "vfs_node \<Rightarrow> bool" where
  "is_dir v \<longleftrightarrow> flags v AND FS_DIRECTORY \<noteq> 0"

definition is_mountpoint :: "vfs_node \<Rightarrow> bool" where
  "is_mountpoint v \<longleftrightarrow> flags v AND FS_MOUNTPOINT \<noteq> 0"


subsection \<open>The node of the framebuffer\<close>

text \<open>\<open>kmalloc\<close> and the loop that clears every byte of the new node; NULL is not checked for.\<close>

definition fb_create_vfs_node :: "'a vnodes_scheme \<Rightarrow> (u64 \<times> 'a vnodes_scheme) option" where
  "fb_create_vfs_node s = do {
     (node, s1) \<leftarrow> kmalloc sizeof_vfs_node s;
     if node = 0 then None
     else
       let s2 = set_node node (zero_node\<lparr>flags := FS_CHARDEVICE, vname := str ''fb0'',
         fwrite := FB_VFS_WRITE\<rparr>) s1
       in Some (node, s2\<lparr>con := (con s2)\<lparr>fb_vfs_node := True\<rparr>\<rparr>) }"


subsection \<open>Allocating nodes\<close>

text \<open>
  There is room for \<open>n\<close> more nodes: each takes at most one more page of heap, and that page
  at most four frames.
\<close>

definition node_room :: "nat \<Rightarrow> 'a heap_scheme \<Rightarrow> bool" where
  "node_room n s \<longleftrightarrow> heap_inv s \<and> pmm_wf s \<and> 4 * n \<le> card (free_frames s) \<and>
     unat (heap_end s) + 4096 * n + 8192 < 2 ^ 64"

lemma node_room_le: "node_room n s \<Longrightarrow> m \<le> n \<Longrightarrow> node_room m s"
  by (auto simp: node_room_def)

lemma node_size: "sizeof_vfs_node \<noteq> 0" "unat sizeof_vfs_node = 216" "round16 (unat sizeof_vfs_node) = 224"
  "round_page (224 + 24) = 4096"
  by (simp_all add: sizeof_vfs_node_def round16_def round_page_def)

lemma kmalloc_heap_end:
  fixes s :: "'a heap_scheme"
  assumes hl: "heap_list s bs" and he: "heap_end s \<noteq> 0" and sz: "sz \<noteq> 0" "heap_room s sz"
    and k: "kmalloc sz s = Some (p, s')"
  shows "unat (heap_end s') \<le> unat (heap_end s) + round_page (round16 (unat sz) + 24)"
proof (cases "first_fit (round16 (unat sz)) bs")
  case None
  have "unat (heap_end s) + unat sz + 8192 < 2 ^ 64" using sz(2) by (simp add: heap_room_def)
  from kmalloc_grow [OF hl he sz(1) this None k] show ?thesis by simp
next
  case (Some r)
  obtain a cs where r: "r = (a, cs)" by (cases r)
  have "unat sz + 64 < 2 ^ 64" using sz(2) by (simp add: heap_room_def)
  from kmalloc_reuse [OF hl sz(1) this Some [unfolded r]] k show ?thesis by auto
qed

text \<open>A pointer has one live region at most.\<close>

lemma live_length:
  assumes "heap_inv s" "(p, m) \<in> live s" "(p, k) \<in> live s"
  shows "m = k"
proof -
  obtain bs where bs: "heap_list s bs" using assms(1) by (auto simp: heap_inv_def)
  with assms(2,3) obtain a where "(a, m, False) \<in> set bs" "(a, k, False) \<in> set bs"
    by (auto simp: live_heap_list used_def)
  with layout_apart [of "unat HEAP_START" bs "unat (heap_end s)"] bs show ?thesis
    by (fastforce simp: heap_list_def)
qed

lemma node_alloc:
  fixes s :: "'a heap_scheme"
  assumes r: "node_room (Suc n) s"
  obtains p s' where "kmalloc sizeof_vfs_node s = Some (p, s')" "node_room n s'" "p \<noteq> 0"
    "heap.more s' = heap.more s" "\<And>m. (p, m) \<notin> live s" "live s \<subseteq> live s'" "\<exists>m. (p, m) \<in> live s'"
proof -
  have inv: "heap_inv s" and wf: "pmm_wf s" and fr: "4 * Suc n \<le> card (free_frames s)"
    and he: "unat (heap_end s) + 4096 * Suc n + 8192 < 2 ^ 64"
    using r by (auto simp: node_room_def)
  obtain bs where bs: "heap_list s bs" "heap_end s \<noteq> 0" using inv by (auto simp: heap_inv_def)
  have room: "heap_room s sizeof_vfs_node" using he by (simp add: heap_room_def node_size)
  have "4 * (round_page (round16 (unat sizeof_vfs_node) + 24) div 4096) \<le> card (free_frames s)"
    using fr unfolding node_size(3,4) by simp
  from kmalloc_total [OF bs(1) node_size(1) room wf this] obtain p s' where
    k: "kmalloc sizeof_vfs_node s = Some (p, s')" and wf': "pmm_wf s'"
    and fr': "card (free_frames s) \<le> card (free_frames s') + 4"
    unfolding node_size(3,4) by auto
  from kheap.alloc_live [OF inv node_size(1) room k] obtain m where
    l: "heap_inv s'" "p \<noteq> 0" "(p, m) \<notin> live s" "live s' = insert (p, m) (live s)" "216 \<le> m"
    by (auto simp: node_size)
  have "node_room n s'"
    using kmalloc_heap_end [OF bs node_size(1) room k] l(1) wf' fr fr' he
    unfolding node_room_def node_size(3,4) by auto
  moreover have "(p, k) \<notin> live s" for k
  proof
    assume a: "(p, k) \<in> live s"
    then have "m = k" using live_length [OF l(1), of p m k] l(4) by simp
    with a l(3) show False by simp
  qed
  ultimately show thesis using that k l kmalloc_more [OF k] by blast
qed
text \<open>Everything the heap does not own is as before.\<close>

lemma heap_more_fields:
  assumes "heap.more s' = heap.more (s :: 'a vnodes_scheme)"
  shows "nodes s' = nodes s" "con s' = con s" "ram s' = ram s" "vnodes.more s' = vnodes.more s"
    "io_in s' = io_in s" "io_log s' = io_log s"
  using assms by (cases s, cases s', simp)+

lemma node_room_cong:
  fixes s :: "'a heap_scheme" and s' :: "'b heap_scheme"
  assumes "hdrs s' = hdrs s" "head s' = head s" "heap_end s' = heap_end s" "bitmap s' = bitmap s"
    "page_count s' = page_count s" "bitmap_bytes s' = bitmap_bytes s" 
  shows "node_room n s' = node_room n s"
  using assms heap_cong(2) [OF assms(1-3)]
  by (simp add: node_room_def pmm_wf_def free_frames_def page_free_def)


definition vnodes_zero :: vnodes where
  "vnodes_zero = machine.extend machine_zero (vnodes.fields (\<lambda>_. zero_node))"

lemma heap_boot_node_room: "n \<le> 4000 \<Longrightarrow> node_room n heap_boot"
  using heap_boot_inv(5) heap_boot_wf heap_boot_free(1)
  by (simp add: node_room_def heap_boot_inv(4)) (simp add: HEAP_START_def)

lemma vnodes_zero_heap:
  "hdrs vnodes_zero = hdrs heap_boot" "head vnodes_zero = head heap_boot"
  "heap_end vnodes_zero = heap_end heap_boot" "page_count vnodes_zero = page_count heap_boot"
  "bitmap vnodes_zero = bitmap heap_boot" "bitmap_bytes vnodes_zero = bitmap_bytes heap_boot"
  "con vnodes_zero = small_console"
  using machine_zero_heap by (simp_all add: vnodes_zero_def machine.defs)

end
