(* ===== verification/Devfs.thy ===== *)
theory Devfs
  imports Vnode
begin

text \<open>
  The directory of devices, \<open>fs/devfs/devfs.c\<close>: a table of at most 32 nodes, looked up by
  name. It is mounted at \<open>/dev\<close>.
\<close>

definition MAX_DEVFS_DEVICES :: nat where "MAX_DEVFS_DEVICES = 32"

record devfs = vnodes +
  devfs_root :: u64
  devices :: "u64 list"  \<comment> \<open>the first \<open>device_count\<close> entries\<close>

function devfs_strcmp :: "cstring \<Rightarrow> cstring \<Rightarrow> int" where
  "devfs_strcmp s1 s2 =
     (if cget s1 0 \<noteq> 0 \<and> cget s1 0 = cget s2 0 then devfs_strcmp (tl s1) (tl s2)
      else uint (cget s1 0) - uint (cget s2 0))"
  by pat_completeness auto
termination by (relation "measure (\<lambda>(s1, s2). length s1)") (auto simp: cget_def split: if_splits)

declare devfs_strcmp.simps [simp del]

text \<open>The name of an entry that is NULL is read all the same, which faults.\<close>

fun devfs_scan :: "(u64 \<Rightarrow> vfs_node) \<Rightarrow> u64 list \<Rightarrow> cstring \<Rightarrow> u64 option" where
  "devfs_scan ns [] name = Some 0"
| "devfs_scan ns (d # ds) name =
     (if d = 0 then None
      else if devfs_strcmp (vname (ns d)) name = 0 then Some d else devfs_scan ns ds name)"

definition devfs_finddir :: "cstring \<Rightarrow> 'a devfs_scheme \<Rightarrow> u64 option" where
  "devfs_finddir name s = devfs_scan (nodes s) (devices s) name"

text \<open>\<open>device_count\<close> is not reset, so the cleared slots are the ones looked up later.\<close>

definition init_devfs :: "'a devfs_scheme \<Rightarrow> (u64 \<times> 'a devfs_scheme) option" where
  "init_devfs s = do {
     (root, s1) \<leftarrow> kmalloc sizeof_vfs_node s;
     if root = 0 then None
     else
       let s2 = set_node root (zero_node\<lparr>flags := FS_DIRECTORY, vname := str ''dev'',
         finddir := DEVFS_FINDDIR\<rparr>) s1
       in Some (root, s2\<lparr>devfs_root := root, devices := List.map (\<lambda>_. 0) (devices s2)\<rparr>) }"

definition devfs_register :: "u64 \<Rightarrow> 'a devfs_scheme \<Rightarrow> 'a devfs_scheme" where
  "devfs_register device s =
     (if length (devices s) \<ge> MAX_DEVFS_DEVICES then s else s\<lparr>devices := devices s @ [device]\<rparr>)"


subsection \<open>Lookup by name\<close>

lemma kmalloc_devices: "kmalloc n s = Some (p, t) \<Longrightarrow> devices t = devices (s :: 'a devfs_scheme)"
  using kmalloc_more [of n s p t] by (cases s; cases t) simp

lemma devfs_strcmp_str_cmp: "devfs_strcmp s t = str_cmp s t"
proof (induction s t rule: str_cmp.induct)
  case (1 c s d t)
  then show ?case by (subst devfs_strcmp.simps) simp
qed (subst devfs_strcmp.simps; simp)+

interpretation dev: name_compare devfs_strcmp
  by unfold_locales (simp add: devfs_strcmp_str_cmp str_cmp_eq)

lemma devfs_scan_find:
  "0 \<notin> set ds \<Longrightarrow> devfs_scan ns ds name =
     Some (case List.find (\<lambda>d. devfs_strcmp (vname (ns d)) name = 0) ds of None \<Rightarrow> 0 | Some d \<Rightarrow> d)"
  by (induction ds) auto

text \<open>A lookup among entries cleared by \<open>init_devfs\<close> faults.\<close>

lemma devfs_cleared_faults: "init_devfs s = Some (r, t) \<Longrightarrow> devices s \<noteq> [] \<Longrightarrow> devfs_finddir name t = None"
  by (cases "devices t") (auto simp: init_devfs_def devfs_finddir_def bind_eq_Some_conv Let_def
      kmalloc_devices split: if_splits)

lemma devfs_finddir_first:
  assumes "\<forall>d \<in> set (devices s). no_nul (vname (nodes s d))" "no_nul name" "0 \<notin> set (devices s)"
  shows "devfs_finddir name s =
    Some (case List.find (\<lambda>d. vname (nodes s d) = name) (devices s) of None \<Rightarrow> 0 | Some d \<Rightarrow> d)"
  unfolding devfs_finddir_def devfs_scan_find [OF assms(3)] dev.find_by_name [OF assms(1,2)] by simp

text \<open>A registered device is found under its name unless an earlier one has that name.\<close>

lemma devfs_register_find:
  assumes "\<forall>d \<in> set (devices s). no_nul (vname (nodes s d))" "no_nul (vname (nodes s v))"
    and "length (devices s) < MAX_DEVFS_DEVICES"
    and "vname (nodes s v) \<notin> vname ` nodes s ` set (devices s)" "0 \<notin> set (devices s)" "v \<noteq> 0"
  shows "devfs_finddir (vname (nodes s v)) (devfs_register v s) = Some v"
    "name \<noteq> vname (nodes s v) \<Longrightarrow> no_nul name \<Longrightarrow> devfs_finddir name (devfs_register v s) = devfs_finddir name s"
proof -
  have r: "devices (devfs_register v s) = devices s @ [v]" "nodes (devfs_register v s) = nodes s"
    using assms(3) by (auto simp: devfs_register_def)
  have names: "\<forall>d \<in> set (devices (devfs_register v s)). no_nul (vname (nodes (devfs_register v s) d))"
    using assms(1,2) by (simp add: r)
  have "List.find (\<lambda>d. vname (nodes s d) = vname (nodes s v)) (devices s) = None"
    using assms(4) unfolding find_None_iff by (metis imageI)
  moreover have null: "0 \<notin> set (devices (devfs_register v s))" using assms(5,6) by (simp add: r)
  ultimately show "devfs_finddir (vname (nodes s v)) (devfs_register v s) = Some v"
    unfolding devfs_finddir_first [OF names assms(2) null] r by (simp add: find_append)
  assume "name \<noteq> vname (nodes s v)" "no_nul name"
  then show "devfs_finddir name (devfs_register v s) = devfs_finddir name s"
    unfolding devfs_finddir_first [OF names \<open>no_nul name\<close> null] devfs_finddir_first [OF assms(1) \<open>no_nul name\<close> assms(5)] r
    by (simp add: find_append split: option.split)
qed


definition devfs_zero :: devfs where
  "devfs_zero = vnodes.extend vnodes_zero (devfs.fields 0 [])"

end
