(* ===== verification/Initramfs.thy ===== *)
theory Initramfs
  imports Devfs
begin

text \<open>
  The initial file system, \<open>fs/initramfs.c\<close>: a tar archive in memory is unpacked into a
  table of at most 128 nodes, whose names are paths from the root.
\<close>

definition MAX_RAMFS_NODES :: nat where "MAX_RAMFS_NODES = 128"

record ramfs = devfs +
  ramfs_nodes :: "u64 list"  \<comment> \<open>the first \<open>ramfs_node_count\<close> entries\<close>
  ramfs_root :: u64


subsection \<open>Parsing\<close>

text \<open>\<open>oct2bin\<close> on the \<open>size\<close> bytes of a field: leading spaces and NULs, then octal digits.\<close>

fun oct_skip :: "u8 list \<Rightarrow> u8 list" where
  "oct_skip [] = []"
| "oct_skip (c # cs) = (if c = SPACE \<or> c = 0 then oct_skip cs else c # cs)"

fun oct_digits :: "u8 list \<Rightarrow> u64 \<Rightarrow> u64" where
  "oct_digits [] n = n"
| "oct_digits (c # cs) n =
     (if 0x30 \<le> c \<and> c \<le> 0x37 then oct_digits cs (push_bit 3 n + ucast (c - 0x30)) else n)"

definition oct2bin :: "u8 list \<Rightarrow> u64" where
  "oct2bin cs = oct_digits (oct_skip cs) 0"

fun sanitize_path :: "cstring \<Rightarrow> cstring" where
  "sanitize_path [] = []"
| "sanitize_path (c # cs) = (if c = DOT \<or> c = SLASH then sanitize_path cs else c # cs)"

fun tar_match_loop :: "cstring \<Rightarrow> cstring \<Rightarrow> bool" where
  "tar_match_loop (c # t) (d # u) = (if c \<noteq> d then False else tar_match_loop t u)"
| "tar_match_loop [] [] = True"
| "tar_match_loop (c # t) [] = (c = SLASH \<and> t = [])"
| "tar_match_loop [] (d # u) = (d = SLASH \<and> u = [])"

definition tar_match_name :: "cstring \<Rightarrow> cstring \<Rightarrow> bool" where
  "tar_match_name tar_name search_name =
     tar_match_loop (sanitize_path tar_name) (sanitize_path search_name)"


subsection \<open>Lookup and reading\<close>

text \<open>The names of nodes have at most 127 characters, so a name and a slash fit the buffer.\<close>

definition expected_path :: "u64 \<Rightarrow> cstring \<Rightarrow> 'a ramfs_scheme \<Rightarrow> cstring" where
  "expected_path node name s =
     (let prefix =
        (if node \<noteq> ramfs_root s then
           let p = take 255 (vname (nodes s node)) in if p \<noteq> [] \<and> last p \<noteq> SLASH then p @ [SLASH] else p
         else [])
      in prefix @ take (255 - length prefix) name)"

fun ramfs_scan :: "(u64 \<Rightarrow> vfs_node) \<Rightarrow> u64 list \<Rightarrow> cstring \<Rightarrow> u64" where
  "ramfs_scan ns [] path = 0"
| "ramfs_scan ns (p # ps) path =
     (if p \<noteq> 0 \<and> tar_match_name (vname (ns p)) path then p else ramfs_scan ns ps path)"

definition ramfs_finddir :: "u64 \<Rightarrow> cstring \<Rightarrow> 'a ramfs_scheme \<Rightarrow> u64" where
  "ramfs_finddir node name s = ramfs_scan (nodes s) (ramfs_nodes s) (expected_path node name s)"

definition ramfs_read :: "u64 \<Rightarrow> u64 \<Rightarrow> u64 \<Rightarrow> u64 \<Rightarrow> 'a ramfs_scheme \<Rightarrow> u64 \<times> 'a ramfs_scheme" where
  "ramfs_read node buffer size0 offset s =
     (if node = 0 \<or> buffer = 0 then (0, s)
      else let len = ucast (flen (nodes s node)) in
        if offset \<ge> len then (0, s)
        else
          let n = (if offset + size0 > len then len - offset else size0);
              file_data = ptr (nodes s node)
          in (n, s\<lparr>ram := for_up 0 n (\<lambda>i m. m(buffer + i := m (file_data + (offset + i)))) (ram s)\<rparr>))"


subsection \<open>Unpacking\<close>

text \<open>
  The loop of \<open>ensure_parent_dirs_exist\<close> over the rest of the path, with the part before it
  in \<open>dir_path\<close>. Running over \<open>dir_path\<close> or the node's \<open>name\<close> is undefined.
\<close>

fun ensure_dirs :: "cstring \<Rightarrow> cstring \<Rightarrow> 'a ramfs_scheme \<Rightarrow> 'a ramfs_scheme option" where
  "ensure_dirs [] dir_path s = Some s"
| "ensure_dirs (c # cs) dir_path s =
     (if length dir_path \<ge> 256 then None
      else if c = SLASH \<and> dir_path \<noteq> [] \<and>
        \<not> list_ex (\<lambda>p. p \<noteq> 0 \<and> tar_match_name (vname (nodes s p)) dir_path) (ramfs_nodes s)
      then
        if length (ramfs_nodes s) \<ge> MAX_RAMFS_NODES then Some s
        else do {
          (dir_node, s1) \<leftarrow> kmalloc sizeof_vfs_node s;
          if dir_node = 0 then Some s1
          else if length dir_path \<ge> 128 then None
          else
            let s2 = set_node dir_node (zero_node\<lparr>vname := dir_path, flags := FS_DIRECTORY,
              finddir := RAMFS_FINDDIR\<rparr>) s1
            in ensure_dirs cs (dir_path @ [c]) (s2\<lparr>ramfs_nodes := ramfs_nodes s2 @ [dir_node]\<rparr>) }
      else ensure_dirs cs (dir_path @ [c]) s)"

definition ensure_parent_dirs_exist :: "cstring \<Rightarrow> 'a ramfs_scheme \<Rightarrow> 'a ramfs_scheme option" where
  "ensure_parent_dirs_exist raw_path s = ensure_dirs (sanitize_path raw_path) [] s"

text \<open>The bytes of memory from an address on, and a C string read from there.\<close>

definition bytes_at :: "memory \<Rightarrow> u64 \<Rightarrow> nat \<Rightarrow> u8 list" where
  "bytes_at m a n = List.map (\<lambda>i. m (a + of_nat i)) [0..<n]"

partial_function (option) cstr_at :: "memory \<Rightarrow> u64 \<Rightarrow> cstring option" where
  "cstr_at m a = (if m a = 0 then Some [] else do { t \<leftarrow> cstr_at m (a + 1); Some (m a # t) })"

text \<open>The fields of a tar header the code reads: \<open>size\<close> (eleven digits) and \<open>typeflag\<close>.\<close>

definition tar_size :: "memory \<Rightarrow> u64 \<Rightarrow> u64" where
  "tar_size m header = oct2bin (bytes_at m (header + 124) 11)"

definition tar_typeflag :: "memory \<Rightarrow> u64 \<Rightarrow> u8" where
  "tar_typeflag m header = m (header + 156)"

definition tar_next :: "memory \<Rightarrow> u64 \<Rightarrow> u64" where
  "tar_next m header =
     (let size0 = tar_size m header; blocks = size0 div 512 + (if size0 mod 512 \<noteq> 0 then 1 else 0)
      in header + 512 + blocks * 512)"

definition tar_extension :: "u8 \<Rightarrow> bool" where
  "tar_extension t \<longleftrightarrow> t \<in> {0x78, 0x67, 0x4B, 0x4C}"

definition tar_node :: "cstring \<Rightarrow> u8 \<Rightarrow> u64 \<Rightarrow> u64 \<Rightarrow> vfs_node" where
  "tar_node clean_filename typeflag size0 header =
     (let v = zero_node\<lparr>vname := take 99 clean_filename\<rparr>
      in if typeflag = 0x35 then v\<lparr>flags := FS_DIRECTORY, finddir := RAMFS_FINDDIR\<rparr>
         else v\<lparr>flags := FS_FILE, flen := ucast size0, fread := RAMFS_READ, ptr := header + 512\<rparr>)"

partial_function (option) tar_loop :: "u64 \<Rightarrow> 'a ramfs_scheme \<Rightarrow> 'a ramfs_scheme option" where
  "tar_loop header s =
     (if ram s header = 0 then Some s
      else do {
        filename \<leftarrow> cstr_at (ram s) header;
        let clean_filename = sanitize_path filename;
        let size0 = tar_size (ram s) header;
        if tar_extension (tar_typeflag (ram s) header) then tar_loop (tar_next (ram s) header) s
        else do {
          s1 \<leftarrow> ensure_parent_dirs_exist clean_filename s;
          if length (ramfs_nodes s1) \<ge> MAX_RAMFS_NODES then Some s1
          else do {
            (node, s2) \<leftarrow> kmalloc sizeof_vfs_node s1;
            if node = 0 then Some s2
            else
              let s3 = set_node node (tar_node clean_filename (tar_typeflag (ram s) header) size0 header) s2
              in tar_loop (tar_next (ram s) header) (s3\<lparr>ramfs_nodes := ramfs_nodes s3 @ [node]\<rparr>) } } })"

definition init_initramfs :: "u64 \<Rightarrow> 'a ramfs_scheme \<Rightarrow> (u64 \<times> 'a ramfs_scheme) option" where
  "init_initramfs ramfs_addr s = do {
     (root, s1) \<leftarrow> kmalloc sizeof_vfs_node s;
     if root = 0 then Some (0, s1\<lparr>ramfs_root := 0\<rparr>)
     else do {
       let s2 = set_node root (zero_node\<lparr>flags := FS_DIRECTORY, vname := [SLASH],
         finddir := RAMFS_FINDDIR\<rparr>) (s1\<lparr>ramfs_root := root\<rparr>);
       s3 \<leftarrow> tar_loop ramfs_addr s2;
       Some (ramfs_root s3, s3) } }"
declare cstr_at.simps [code] tar_loop.simps [code]


subsection \<open>Names\<close>

lemma tar_match_loop_iff: "tar_match_loop t u \<longleftrightarrow> t = u \<or> t = u @ [SLASH] \<or> u = t @ [SLASH]"
  by (induction t u rule: tar_match_loop.induct) auto

text \<open>Names match when they are equal but for leading dots and slashes and one final slash.\<close>

lemma tar_match_name_iff:
  "tar_match_name t u \<longleftrightarrow> sanitize_path t = sanitize_path u \<or>
     sanitize_path t = sanitize_path u @ [SLASH] \<or> sanitize_path u = sanitize_path t @ [SLASH]"
  by (simp add: tar_match_name_def tar_match_loop_iff)

lemma sanitize_dropWhile: "sanitize_path t = dropWhile (\<lambda>c. c = DOT \<or> c = SLASH) t"
  by (induction t) auto

lemma sanitize_idem [simp]: "sanitize_path (sanitize_path t) = sanitize_path t"
  by (induction t) auto

lemma no_nul_sanitize: "no_nul t \<Longrightarrow> no_nul (sanitize_path t)"
  by (induction t) auto

lemma length_sanitize: "length (sanitize_path t) \<le> length t"
  by (induction t) auto

lemma sanitize_take: "sanitize_path t = t \<Longrightarrow> sanitize_path (take n t) = take n t"
proof (cases t)
  case (Cons c u)
  assume t: "sanitize_path t = t"
  have "sanitize_path u \<noteq> c # u" using length_sanitize [of u] by auto
  with t Cons have "\<not> (c = DOT \<or> c = SLASH)" by auto
  with Cons show ?thesis by (cases n) simp_all
qed simp

text \<open>A dot file cannot be told from the file without the dot.\<close>

lemma dotfiles_collide: "tar_match_name (str ''.profile'') (str ''profile'')"
  by (simp add: tar_match_name_def str_def)

lemma cstr_at_spells: "spells m a t \<Longrightarrow> cstr_at m a = Some t"
proof (induction t arbitrary: a)
  case Nil
  then show ?case by (subst cstr_at.simps) simp
next
  case (Cons c t)
  then show ?case by (subst cstr_at.simps) simp
qed


subsection \<open>The table of nodes\<close>

definition live_at :: "'a heap_scheme \<Rightarrow> u64 \<Rightarrow> bool" where
  "live_at s p \<longleftrightarrow> p \<noteq> 0 \<and> (\<exists>m. (p, m) \<in> live s)"

text \<open>There is heap for as many nodes as the table has free places, and its entries are nodes.\<close>

definition ramfs_ok :: "'a ramfs_scheme \<Rightarrow> bool" where
  "ramfs_ok s \<longleftrightarrow> length (ramfs_nodes s) \<le> MAX_RAMFS_NODES \<and>
     node_room (MAX_RAMFS_NODES - length (ramfs_nodes s)) s \<and>
     (\<forall>p \<in> set (ramfs_nodes s). live_at s p) \<and>
     live_at s (ramfs_root s) \<and> ramfs_root s \<notin> set (ramfs_nodes s)"

definition grows :: "'a ramfs_scheme \<Rightarrow> 'a ramfs_scheme \<Rightarrow> bool" where
  "grows s s' \<longleftrightarrow> (\<exists>ps. ramfs_nodes s' = ramfs_nodes s @ ps) \<and> ram s' = ram s \<and>
     ramfs_root s' = ramfs_root s \<and> con s' = con s \<and> devfs_root s' = devfs_root s \<and>
     devices s' = devices s \<and> io_in s' = io_in s \<and> ramfs.more s' = ramfs.more s \<and> (\<forall>p. live_at s p \<longrightarrow> live_at s' p \<and> nodes s' p = nodes s p)"

lemma grows_refl [simp]: "grows s s" by (simp add: grows_def)

lemma grows_trans: "grows s t \<Longrightarrow> grows t u \<Longrightarrow> grows s u"
  unfolding grows_def by (elim conjE exE) (auto)

lemma grows_nodes: "grows s t \<Longrightarrow> p \<in> set (ramfs_nodes s) \<Longrightarrow> p \<in> set (ramfs_nodes t)"
  by (auto simp: grows_def)

lemma live_at_upd: "live_at (s\<lparr>nodes := n, ramfs_nodes := r\<rparr>) q = live_at (s :: 'a ramfs_scheme) q"
  by (simp add: live_at_def heap_cong(1) [of "s\<lparr>nodes := n, ramfs_nodes := r\<rparr>" s])

text \<open>Allocating and filling in one more node.\<close>

lemma ramfs_add_node:
  assumes ok: "ramfs_ok s" and room: "length (ramfs_nodes s) < MAX_RAMFS_NODES"
  obtains p s1 where "kmalloc sizeof_vfs_node s = Some (p, s1)" "p \<noteq> 0" "ramfs_nodes s1 = ramfs_nodes s"
    "\<And>v. ramfs_ok ((set_node p v s1)\<lparr>ramfs_nodes := ramfs_nodes s1 @ [p]\<rparr>)"
    "\<And>v. grows s ((set_node p v s1)\<lparr>ramfs_nodes := ramfs_nodes s1 @ [p]\<rparr>)"
proof -
  have "node_room (Suc (MAX_RAMFS_NODES - Suc (length (ramfs_nodes s)))) s"
    using ok room by (simp add: ramfs_ok_def Suc_diff_Suc)
  then obtain p s1 where k: "kmalloc sizeof_vfs_node s = Some (p, s1)" "p \<noteq> 0"
    "node_room (MAX_RAMFS_NODES - Suc (length (ramfs_nodes s))) s1"
    "heap.more s1 = heap.more s" and p: "\<And>m. (p, m) \<notin> live s" "live s \<subseteq> live s1" "\<exists>m. (p, m) \<in> live s1"
    by (rule node_alloc) blast
  have f: "nodes s1 = nodes s" "con s1 = con s" "ram s1 = ram s" "ramfs_nodes s1 = ramfs_nodes s"
    "ramfs_root s1 = ramfs_root s" "devfs_root s1 = devfs_root s" "devices s1 = devices s" "io_in s1 = io_in s"
    "ramfs.more s1 = ramfs.more s"
    using k(4) by (cases s, cases s1, simp)+
  let ?s = "\<lambda>v. (set_node p v s1)\<lparr>ramfs_nodes := ramfs_nodes s1 @ [p]\<rparr>"
  note live = live_at_upd
  have mono: "live_at s q \<Longrightarrow> live_at s1 q" for q using p(2) by (auto simp: live_at_def)
  have "live_at s1 p" using k(2) p(3) by (auto simp: live_at_def)
  moreover have "node_room n (?s v) = node_room n s1" for n v by (rule node_room_cong) simp_all
  moreover have np: "\<not> live_at s p" using p(1) by (auto simp: live_at_def)
  moreover have "ramfs_root s \<noteq> p" using np ok by (auto simp: ramfs_ok_def)
  ultimately have "ramfs_ok (?s v)" for v
    using ok room k(3) mono unfolding ramfs_ok_def by (auto simp: f live simp del: vfs_node.update_convs)
  moreover have "grows s (?s v)" for v using np unfolding grows_def live using mono by (auto simp: f)
  ultimately show thesis using that [OF k(1,2)] f(4) by simp
qed
subsection \<open>Parent directories\<close>

definition has_entry :: "'a ramfs_scheme \<Rightarrow> cstring \<Rightarrow> bool" where
  "has_entry s d \<longleftrightarrow> (\<exists>p \<in> set (ramfs_nodes s). tar_match_name (vname (nodes s p)) d)"

definition table_full :: "'a ramfs_scheme \<Rightarrow> bool" where
  "table_full s \<longleftrightarrow> length (ramfs_nodes s) \<ge> MAX_RAMFS_NODES"

text \<open>The directories on the way to a path: what lies before one of its slashes.\<close>

definition parent_dirs :: "cstring \<Rightarrow> cstring set" where
  "parent_dirs path = {d. d \<noteq> [] \<and> (\<exists>r. path = d @ SLASH # r)}"

lemma grows_has_entry: "ramfs_ok s \<Longrightarrow> grows s t \<Longrightarrow> has_entry s d \<Longrightarrow> has_entry t d"
  unfolding has_entry_def ramfs_ok_def by (metis grows_def grows_nodes)

lemma grows_full: "grows s t \<Longrightarrow> table_full s \<Longrightarrow> table_full t"
  by (auto simp: grows_def table_full_def)

lemma tar_match_refl [simp]: "tar_match_name d d" by (simp add: tar_match_name_iff)

text \<open>The nodes added on the way are directories, each named by a part of the path.\<close>

definition dir_node :: "cstring \<Rightarrow> vfs_node" where
  "dir_node d = zero_node\<lparr>vname := d, flags := FS_DIRECTORY, finddir := RAMFS_FINDDIR\<rparr>"

definition adds :: "(vfs_node \<Rightarrow> bool) \<Rightarrow> 'a ramfs_scheme \<Rightarrow> 'a ramfs_scheme \<Rightarrow> bool" where
  "adds Q s s' \<longleftrightarrow> (\<forall>p \<in> set (ramfs_nodes s'). p \<in> set (ramfs_nodes s) \<or> Q (nodes s' p))"

lemma adds_refl [simp]: "adds Q s s" by (simp add: adds_def)

lemma adds_trans: "ramfs_ok t \<Longrightarrow> adds Q s t \<Longrightarrow> grows t u \<Longrightarrow> adds Q t u \<Longrightarrow> adds Q s u"
  unfolding adds_def ramfs_ok_def grows_def by metis

lemma adds_mono: "adds Q s t \<Longrightarrow> (\<And>v. Q v \<Longrightarrow> R v) \<Longrightarrow> adds R s t"
  by (auto simp: adds_def)

definition added :: "cstring \<Rightarrow> cstring \<Rightarrow> vfs_node \<Rightarrow> bool" where
  "added cs d v \<longleftrightarrow> (\<exists>xs ys. cs = xs @ SLASH # ys \<and> d @ xs \<noteq> [] \<and> v = dir_node (d @ xs))"

lemma added_Cons: "added (c # cs) d v \<longleftrightarrow> c = SLASH \<and> d \<noteq> [] \<and> v = dir_node d \<or> added cs (d @ [c]) v"
proof
  assume "added (c # cs) d v"
  then obtain xs ys where x: "c # cs = xs @ SLASH # ys" "d @ xs \<noteq> []" "v = dir_node (d @ xs)"
    by (auto simp: added_def)
  then show "c = SLASH \<and> d \<noteq> [] \<and> v = dir_node d \<or> added cs (d @ [c]) v"
    by (cases xs) (auto simp: added_def)
next
  assume "c = SLASH \<and> d \<noteq> [] \<and> v = dir_node d \<or> added cs (d @ [c]) v"
  then show "added (c # cs) d v"
  proof
    assume "added cs (d @ [c]) v"
    then obtain xs ys where "cs = xs @ SLASH # ys" "v = dir_node (d @ c # xs)" by (auto simp: added_def)
    then show ?thesis unfolding added_def by (intro exI [of _ "c # xs"] exI [of _ ys]) simp
  qed (auto simp: added_def intro: exI [of _ "[]"])
qed

lemma ensure_dirs_spec:
  assumes "ramfs_ok s" "length d + length cs \<le> 127"
  shows "\<exists>s'. ensure_dirs cs d s = Some s' \<and> ramfs_ok s' \<and> grows s s' \<and>
    adds (added cs d) s s' \<and>
    (table_full s' \<or> (\<forall>xs ys. cs = xs @ SLASH # ys \<longrightarrow> d @ xs \<noteq> [] \<longrightarrow> has_entry s' (d @ xs)))"
  using assms
proof (induction cs d s rule: ensure_dirs.induct)
  case (1 d s)
  then show ?case by simp
next
  case (2 c cs d s)
  let ?found = "list_ex (\<lambda>p. p \<noteq> 0 \<and> tar_match_name (vname (nodes s p)) d) (ramfs_nodes s)"
  have more: "adds (added cs (d @ [c])) u w \<Longrightarrow> adds (added (c # cs) d) u w" for u w :: "'a ramfs_scheme"
    by (erule adds_mono) (simp add: added_Cons)
  have len: "length d < 128" "\<not> 256 \<le> length d" using 2(4) by simp_all
  have split: "(\<forall>xs ys. c # cs = xs @ SLASH # ys \<longrightarrow> d @ xs \<noteq> [] \<longrightarrow> P (d @ xs)) \<longleftrightarrow>
      (c = SLASH \<longrightarrow> d \<noteq> [] \<longrightarrow> P d) \<and>
      (\<forall>xs ys. cs = xs @ SLASH # ys \<longrightarrow> (d @ [c]) @ xs \<noteq> [] \<longrightarrow> P ((d @ [c]) @ xs))" for P
    by (force simp: Cons_eq_append_conv)
  show ?case
  proof (cases "c = SLASH \<and> d \<noteq> [] \<and> \<not> ?found")
    case False
    have e: "ensure_dirs (c # cs) d s = ensure_dirs cs (d @ [c]) s"
      unfolding ensure_dirs.simps if_not_P [OF len(2)] if_not_P [OF False] ..
    have "c = SLASH \<Longrightarrow> d \<noteq> [] \<Longrightarrow> has_entry s d"
      using False by (auto simp: list_ex_iff has_entry_def)
    moreover obtain s' where "ensure_dirs cs (d @ [c]) s = Some s'" "ramfs_ok s'" "grows s s'"
      "adds (added cs (d @ [c])) s s'"
      "table_full s' \<or> (\<forall>xs ys. cs = xs @ SLASH # ys \<longrightarrow> (d @ [c]) @ xs \<noteq> [] \<longrightarrow> has_entry s' ((d @ [c]) @ xs))"
      using 2(2) [OF len(2) False 2(3)] 2(4) by auto
    ultimately show ?thesis
      unfolding split e using grows_has_entry [OF 2(3)] more by blast
  next
    case new: True
    show ?thesis
    proof (cases "length (ramfs_nodes s) < MAX_RAMFS_NODES")
      case False
      then have "ensure_dirs (c # cs) d s = Some s"
        unfolding ensure_dirs.simps if_not_P [OF len(2)] if_P [OF new] by simp
      with False 2(3) show ?thesis by (auto simp: table_full_def)
    next
      case True
      from ramfs_add_node [OF 2(3) True] obtain p s1 where
        k: "kmalloc sizeof_vfs_node s = Some (p, s1)" "p \<noteq> 0" "ramfs_nodes s1 = ramfs_nodes s"
        and ok: "\<And>v. ramfs_ok ((set_node p v s1)\<lparr>ramfs_nodes := ramfs_nodes s1 @ [p]\<rparr>)"
        and g: "\<And>v. grows s ((set_node p v s1)\<lparr>ramfs_nodes := ramfs_nodes s1 @ [p]\<rparr>)" by blast
      define v where "v = zero_node\<lparr>vname := d, flags := FS_DIRECTORY, finddir := RAMFS_FINDDIR\<rparr>"
      define t where "t = (set_node p v s1)\<lparr>ramfs_nodes := ramfs_nodes s1 @ [p]\<rparr>"
      have e: "ensure_dirs (c # cs) d s = ensure_dirs cs (d @ [c]) t"
        unfolding ensure_dirs.simps if_not_P [OF len(2)] if_P [OF new]
        using True len(1) k(1,2) by (simp add: t_def v_def not_le)
      have "has_entry t d" by (simp add: has_entry_def t_def v_def)
      moreover have "adds (added (c # cs) d) s t"
        using new unfolding adds_def t_def v_def added_Cons dir_node_def by (simp add: k(3))
      moreover obtain s' where "ensure_dirs cs (d @ [c]) t = Some s'" "ramfs_ok s'" "grows t s'"
        "adds (added cs (d @ [c])) t s'"
        "table_full s' \<or> (\<forall>xs ys. cs = xs @ SLASH # ys \<longrightarrow> (d @ [c]) @ xs \<noteq> [] \<longrightarrow> has_entry s' ((d @ [c]) @ xs))"
        using 2(1) [OF len(2) new _ k(1) refl k(2) _ refl, folded v_def, simplified, folded t_def] ok [of v, folded t_def] 2(4) len(1) True
        by (auto simp: not_le)
      ultimately show ?thesis unfolding split e
        using grows_has_entry [of t s' d] ok [of v, folded t_def] grows_trans [OF g [of v, folded t_def]]
          adds_trans [of t "added (c # cs) d" s s'] more [of t s'] by blast
    qed
  qed
qed

lemma ensure_parents_spec:
  assumes "ramfs_ok s" "length path \<le> 127"
  obtains s' where "ensure_parent_dirs_exist path s = Some s'" "ramfs_ok s'" "grows s s'"
    "adds (\<lambda>v. \<exists>d \<in> parent_dirs (sanitize_path path). v = dir_node d) s s'"
    "table_full s' \<or> (\<forall>d \<in> parent_dirs (sanitize_path path). has_entry s' d)"
proof -
  have "length ([] :: cstring) + length (sanitize_path path) \<le> 127"
    using length_sanitize [of path] assms(2) by simp
  from ensure_dirs_spec [OF assms(1) this] obtain s' where s':
    "ensure_parent_dirs_exist path s = Some s'" "ramfs_ok s'" "grows s s'"
    "adds (added (sanitize_path path) []) s s'"
    "table_full s' \<or> (\<forall>d \<in> parent_dirs (sanitize_path path). has_entry s' d)"
    by (auto simp: ensure_parent_dirs_exist_def parent_dirs_def)
  have "adds (\<lambda>v. \<exists>d \<in> parent_dirs (sanitize_path path). v = dir_node d) s s'"
    by (rule adds_mono [OF s'(4)]) (auto simp: added_def parent_dirs_def)
  with s' that show thesis by blast
qed
subsection \<open>Archives\<close>

text \<open>
  An archive in memory: from \<open>a\<close> on, a header for each entry with its name, type and size,
  followed by its data, and a zero byte where the next name would start.
\<close>

record tar_entry =
  te_name :: cstring
  te_type :: u8
  te_data :: "u8 list"

fun tar_at :: "memory \<Rightarrow> u64 \<Rightarrow> tar_entry list \<Rightarrow> bool" where
  "tar_at m a [] \<longleftrightarrow> m a = 0"
| "tar_at m a (e # es) \<longleftrightarrow>
     te_name e \<noteq> [] \<and> length (te_name e) < 100 \<and> spells m a (te_name e) \<and>
     tar_typeflag m a = te_type e \<and> length (te_data e) < 2 ^ 32 \<and>
     tar_size m a = of_nat (length (te_data e)) \<and>
     (\<forall>i < length (te_data e). m (a + 512 + of_nat i) = te_data e ! i) \<and>
     tar_at m (tar_next m a) es"

text \<open>The node of an entry: a directory, or a file whose bytes are those of the archive.\<close>

definition entry_node :: "memory \<Rightarrow> tar_entry \<Rightarrow> vfs_node \<Rightarrow> bool" where
  "entry_node m e v \<longleftrightarrow> vname v = sanitize_path (te_name e) \<and> fopen v = NULL_FN \<and>
     (if te_type e = 0x35 then flags v = FS_DIRECTORY \<and> finddir v = RAMFS_FINDDIR
      else flags v = FS_FILE \<and> fread v = RAMFS_READ \<and> unat (flen v) = length (te_data e) \<and>
        (\<forall>i < length (te_data e). m (ptr v + of_nat i) = te_data e ! i))"

definition unpacked :: "tar_entry \<Rightarrow> 'a ramfs_scheme \<Rightarrow> bool" where
  "unpacked e s \<longleftrightarrow> tar_extension (te_type e) \<or>
     (\<exists>p \<in> set (ramfs_nodes s). entry_node (ram s) e (nodes s p)) \<and>
     (\<forall>d \<in> parent_dirs (sanitize_path (te_name e)). has_entry s d)"

lemma grows_unpacked: "ramfs_ok s \<Longrightarrow> grows s t \<Longrightarrow> unpacked e s \<Longrightarrow> unpacked e t"
proof -
  assume ok: "ramfs_ok s" and g: "grows s t" and u: "unpacked e s"
  have "nodes t p = nodes s p" if "p \<in> set (ramfs_nodes s)" for p
    using ok g that by (auto simp: ramfs_ok_def grows_def)
  moreover have "ram t = ram s" using g by (simp add: grows_def)
  ultimately show ?thesis
    using u grows_nodes [OF g] grows_has_entry [OF ok g] unfolding unpacked_def by metis
qed

lemma tar_node_entry:
  assumes "tar_at m a (e # es)"
  shows "entry_node m e (tar_node (sanitize_path (te_name e)) (tar_typeflag m a) (tar_size m a) a)"
proof -
  have "length (sanitize_path (te_name e)) \<le> 99" using assms length_sanitize [of "te_name e"] by simp
  moreover have "unat (ucast (of_nat (length (te_data e)) :: u64) :: u32) = length (te_data e)"
    using assms by (simp add: unsigned_ucast_eq unsigned_of_nat take_bit_nat_eq_self)
  ultimately show ?thesis
    using assms by (simp add: entry_node_def tar_node_def Let_def zero_node_def)
qed

text \<open>A node of the table comes from an entry: its own, or a directory on the way to it.\<close>

definition sourced :: "memory \<Rightarrow> tar_entry list \<Rightarrow> vfs_node \<Rightarrow> bool" where
  "sourced m es v \<longleftrightarrow> (\<exists>e \<in> set es. \<not> tar_extension (te_type e) \<and>
     (entry_node m e v \<or> (\<exists>d \<in> parent_dirs (sanitize_path (te_name e)). v = dir_node d)))"

lemma tar_loop_spec:
  assumes "tar_at (ram s) a es" "ramfs_ok s"
  shows "\<exists>s'. tar_loop a s = Some s' \<and> ramfs_ok s' \<and> grows s s' \<and>
    adds (sourced (ram s) es) s s' \<and>
    (table_full s' \<or> (\<forall>e \<in> set es. unpacked e s'))"
  using assms
proof (induction es arbitrary: a s)
  case Nil
  then show ?case by (subst tar_loop.simps) simp
next
  case (Cons e es)
  let ?m = "ram s" and ?c = "sanitize_path (te_name e)"
  have more: "adds (sourced ?m es) u w \<Longrightarrow> adds (sourced ?m (e # es)) u w" for u w :: "'a ramfs_scheme"
    by (erule adds_mono) (simp add: sourced_def)
  have at: "te_name e \<noteq> []" "length (te_name e) < 100" "spells ?m a (te_name e)"
    "tar_typeflag ?m a = te_type e" "tar_at ?m (tar_next ?m a) es"
    using Cons.prems(1) by simp_all
  have head: "?m a \<noteq> 0" using at(1,3) by (cases "te_name e") simp_all
  note name = cstr_at_spells [OF at(3)]
  show ?case
  proof (cases "tar_extension (te_type e)")
    case True
    have "tar_loop a s = tar_loop (tar_next ?m a) s"
      using head name True at(4) by (subst tar_loop.simps) simp
    with Cons.IH [OF at(5) Cons.prems(2)] True more show ?thesis by (auto simp: unpacked_def)
  next
    case False
    have "length ?c \<le> 127" using length_sanitize [of "te_name e"] at(2) by simp
    then obtain s1 where s1: "ensure_parent_dirs_exist ?c s = Some s1" "ramfs_ok s1" "grows s s1"
      "adds (\<lambda>v. \<exists>d \<in> parent_dirs ?c. v = dir_node d) s s1"
      "table_full s1 \<or> (\<forall>d \<in> parent_dirs ?c. has_entry s1 d)"
      using ensure_parents_spec [OF Cons.prems(2), of ?c] unfolding sanitize_idem by blast
    have a1: "adds (sourced ?m (e # es)) s s1"
      by (rule adds_mono [OF s1(4)]) (use False in \<open>auto simp: sourced_def\<close>)
    have m1: "ram s1 = ?m" using s1(3) by (simp add: grows_def)
    show ?thesis
    proof (cases "table_full s1")
      case True
      then have "tar_loop a s = Some s1"
        using head name False at(4) s1(1) by (subst tar_loop.simps) (simp add: table_full_def)
      with s1 a1 True show ?thesis by blast
    next
      case room: False
      then have room': "length (ramfs_nodes s1) < MAX_RAMFS_NODES" by (simp add: table_full_def)
      from ramfs_add_node [OF s1(2) this] obtain p s2 where
        k: "kmalloc sizeof_vfs_node s1 = Some (p, s2)" "p \<noteq> 0" "ramfs_nodes s2 = ramfs_nodes s1"
        and ok: "\<And>v. ramfs_ok ((set_node p v s2)\<lparr>ramfs_nodes := ramfs_nodes s2 @ [p]\<rparr>)"
        and g: "\<And>v. grows s1 ((set_node p v s2)\<lparr>ramfs_nodes := ramfs_nodes s2 @ [p]\<rparr>)" by blast
      define v where "v = tar_node ?c (te_type e) (tar_size ?m a) a"
      define t where "t = (set_node p v s2)\<lparr>ramfs_nodes := ramfs_nodes s2 @ [p]\<rparr>"
      note tok = ok [of v, folded t_def] and tg = g [of v, folded t_def]
      have e: "tar_loop a s = tar_loop (tar_next ?m a) t"
        using head name False at(4) s1(1) room' k
        by (subst tar_loop.simps) (simp add: t_def v_def)
      have mt: "ram t = ?m" using tg m1 by (simp add: grows_def)
      have "entry_node ?m e v" using tar_node_entry [OF Cons.prems(1)] at(4) by (simp add: v_def)
      then have sv: "sourced ?m (e # es) v" using False by (simp add: sourced_def)
      have a2: "adds (sourced ?m (e # es)) s1 t"
        unfolding adds_def t_def using sv by (simp add: k(3))
      from \<open>entry_node ?m e v\<close> have "\<exists>p \<in> set (ramfs_nodes t). entry_node (ram t) e (nodes t p)"
        unfolding mt by (simp add: t_def)
      moreover have "\<forall>d \<in> parent_dirs ?c. has_entry t d"
        using s1(5) room grows_has_entry [OF s1(2) tg] by blast
      ultimately have "unpacked e t" by (simp add: unpacked_def)
      moreover obtain s' where s': "tar_loop (tar_next ?m a) t = Some s'" "ramfs_ok s'" "grows t s'"
        "adds (sourced ?m es) t s'"
        "table_full s' \<or> (\<forall>e \<in> set es. unpacked e s')"
        using Cons.IH [of t "tar_next ?m a"] tok at(5) unfolding mt by blast
      moreover have "adds (sourced ?m (e # es)) s s'"
        using adds_trans [OF tok adds_trans [OF s1(2) a1 tg a2] s'(3)] more [OF s'(4)] by blast
      ultimately show ?thesis
        unfolding e using grows_unpacked [OF tok] grows_trans [OF grows_trans [OF s1(3) tg]] by auto
    qed
  qed
qed


text \<open>An archive fills at most as many places of the table as it has entries and slashes in names.\<close>

definition archive_size :: "tar_entry list \<Rightarrow> nat" where
  "archive_size es = (\<Sum>e \<leftarrow> es. Suc (count_list (te_name e) SLASH))"

lemma kmalloc_ramfs: "kmalloc n s = Some (p, s') \<Longrightarrow> ramfs_nodes s' = ramfs_nodes (s :: 'a ramfs_scheme) \<and> ram s' = ram s"
  using kmalloc_more [of n s p s'] by (cases s, cases s', simp)

lemma ensure_dirs_length:
  "ensure_dirs cs d s = Some s' \<Longrightarrow>
     length (ramfs_nodes s') \<le> length (ramfs_nodes s) + count_list cs SLASH \<and> ram s' = ram s"
proof (induction cs d s rule: ensure_dirs.induct)
  case (2 c cs d s)
  show ?case
  proof (cases "c = SLASH \<and> d \<noteq> [] \<and>
      \<not> list_ex (\<lambda>p. p \<noteq> 0 \<and> tar_match_name (vname (nodes s p)) d) (ramfs_nodes s)")
    case False
    with 2(3) have "length d < 256" "ensure_dirs cs (d @ [c]) s = Some s'"
      unfolding ensure_dirs.simps if_not_P [OF False] by (auto split: if_splits)
    with 2(2) [OF _ False] show ?thesis by auto
  next
    case True
    show ?thesis
    proof (cases "length (ramfs_nodes s) \<ge> MAX_RAMFS_NODES")
      case full: True
      with 2(3) show ?thesis unfolding ensure_dirs.simps if_P [OF True] by (auto split: if_splits)
    next
      case room: False
      from 2(3) obtain p s1 where k: "kmalloc sizeof_vfs_node s = Some (p, s1)" "\<not> 256 \<le> length d"
        unfolding ensure_dirs.simps if_P [OF True] using room by (auto split: if_splits bind_splits)
      note m = kmalloc_ramfs [OF k(1)]
      show ?thesis
      proof (cases "p = 0")
        case null: True
        with 2(3) k m room show ?thesis
          unfolding ensure_dirs.simps if_P [OF True] by (auto split: if_splits)
      next
        case p: False
        with 2(3) k room have l: "\<not> 128 \<le> length d"
          unfolding ensure_dirs.simps if_P [OF True] by (auto split: if_splits)
        have "ensure_dirs cs (d @ [c]) ((set_node p (zero_node\<lparr>vname := d, flags := FS_DIRECTORY,
            finddir := RAMFS_FINDDIR\<rparr>) s1)\<lparr>ramfs_nodes := ramfs_nodes s1 @ [p]\<rparr>) = Some s'"
          using 2(3) k room p l unfolding ensure_dirs.simps if_P [OF True] by simp
        with 2(1) [OF k(2) True room k(1) refl p l refl] m True show ?thesis by auto
      qed
    qed
  qed
qed simp

lemma count_sanitize: "count_list (sanitize_path t) SLASH \<le> count_list t SLASH"
  by (induction t) auto

lemma tar_loop_length:
  "tar_at (ram s) a es \<Longrightarrow> tar_loop a s = Some s' \<Longrightarrow>
     length (ramfs_nodes s') \<le> length (ramfs_nodes s) + archive_size es"
proof (induction es arbitrary: a s)
  case Nil
  then show ?case by (subst (asm) tar_loop.simps) simp
next
  case (Cons e es)
  let ?m = "ram s" and ?c = "sanitize_path (te_name e)"
  have at: "te_name e \<noteq> []" "spells ?m a (te_name e)" "tar_at ?m (tar_next ?m a) es"
    using Cons.prems(1) by simp_all
  have head: "?m a \<noteq> 0" using at(1,2) by (cases "te_name e") simp_all
  have size: "archive_size (e # es) = Suc (count_list (te_name e) SLASH) + archive_size es"
    by (simp add: archive_size_def)
  from Cons.prems(2) head cstr_at_spells [OF at(2)] have
    l: "(if tar_extension (tar_typeflag ?m a) then tar_loop (tar_next ?m a) s
      else do {
        s1 \<leftarrow> ensure_parent_dirs_exist ?c s;
        if length (ramfs_nodes s1) \<ge> MAX_RAMFS_NODES then Some s1
        else do {
          (node, s2) \<leftarrow> kmalloc sizeof_vfs_node s1;
          if node = 0 then Some s2
          else
            let s3 = set_node node (tar_node ?c (tar_typeflag ?m a) (tar_size ?m a) a) s2
            in tar_loop (tar_next ?m a) (s3\<lparr>ramfs_nodes := ramfs_nodes s3 @ [node]\<rparr>) } }) = Some s'"
    by (subst (asm) tar_loop.simps) (simp add: Let_def)
  show ?case
  proof (cases "tar_extension (tar_typeflag ?m a)")
    case True
    with l Cons.IH [OF at(3)] size show ?thesis by simp
  next
    case False
    with l obtain s1 where s1: "ensure_dirs ?c [] s = Some s1"
      by (auto simp: ensure_parent_dirs_exist_def split: bind_splits)
    have e: "length (ramfs_nodes s1) \<le> length (ramfs_nodes s) + count_list (te_name e) SLASH" "ram s1 = ?m"
      using ensure_dirs_length [OF s1] count_sanitize [of "te_name e"] by simp_all
    show ?thesis
    proof (cases "length (ramfs_nodes s1) \<ge> MAX_RAMFS_NODES")
      case True
      with False l s1 e size show ?thesis by (simp add: ensure_parent_dirs_exist_def)
    next
      case room: False
      with False l s1 obtain p s2 where k: "kmalloc sizeof_vfs_node s1 = Some (p, s2)"
        by (auto simp: ensure_parent_dirs_exist_def split: bind_splits)
      note m = kmalloc_ramfs [OF k]
      define s3 where "s3 = (set_node p (tar_node ?c (tar_typeflag ?m a) (tar_size ?m a) a) s2)\<lparr>ramfs_nodes := ramfs_nodes s2 @ [p]\<rparr>"
      have s3: "ram s3 = ?m" "length (ramfs_nodes s3) = Suc (length (ramfs_nodes s1))"
        by (simp_all add: s3_def m e(2))
      have "p = 0 \<and> s' = s2 \<or> tar_loop (tar_next ?m a) s3 = Some s'"
        using False room l s1 k by (auto simp: ensure_parent_dirs_exist_def s3_def split: if_splits)
      then show ?thesis
        using Cons.IH [of s3 "tar_next ?m a"] at(3) e(1) size m s3 by auto
    qed
  qed
qed

lemma init_initramfs_length:
  assumes "tar_at (ram s) a es" "ramfs_nodes s = []" "init_initramfs a s = Some (root, s')"
  shows "length (ramfs_nodes s') \<le> archive_size es"
proof -
  from assms(3) obtain r s1 where k: "kmalloc sizeof_vfs_node s = Some (r, s1)"
    by (auto simp: init_initramfs_def split: bind_splits)
  note m = kmalloc_ramfs [OF k]
  let ?s2 = "set_node r (zero_node\<lparr>flags := FS_DIRECTORY, vname := [SLASH], finddir := RAMFS_FINDDIR\<rparr>) (s1\<lparr>ramfs_root := r\<rparr>)"
  have "tar_at (ram ?s2) a es" "length (ramfs_nodes ?s2) = 0" using m assms(1,2) by simp_all
  moreover have "r = 0 \<and> s' = s1\<lparr>ramfs_root := 0\<rparr> \<or> tar_loop a ?s2 = Some s'"
    using assms(3) k by (auto simp: init_initramfs_def Let_def split: if_splits bind_splits)
  ultimately show ?thesis using tar_loop_length [of ?s2 a es s'] m assms(2) by auto
qed


lemma init_initramfs_spec:
  fixes s :: "'a ramfs_scheme"
  assumes at: "tar_at (ram s) a es" and room: "node_room (Suc MAX_RAMFS_NODES) s" and empty: "ramfs_nodes s = []"
  shows "\<exists>root s'. init_initramfs a s = Some (root, s') \<and> root \<noteq> 0 \<and> ramfs_root s' = root \<and>
    nodes s' root = zero_node\<lparr>flags := FS_DIRECTORY, vname := [SLASH], finddir := RAMFS_FINDDIR\<rparr> \<and>
    ramfs_ok s' \<and> ram s' = ram s \<and> (\<forall>p \<in> set (ramfs_nodes s'). sourced (ram s) es (nodes s' p)) \<and>
    (table_full s' \<or> (\<forall>e \<in> set es. unpacked e s')) \<and> con s' = con s \<and> devices s' = devices s \<and>
    io_in s' = io_in s \<and> ramfs.more s' = ramfs.more s \<and> (\<forall>p. live_at s p \<longrightarrow> live_at s' p \<and> nodes s' p = nodes s p)"
proof -
  obtain r s1 where k: "kmalloc sizeof_vfs_node s = Some (r, s1)" "node_room MAX_RAMFS_NODES s1" "r \<noteq> 0"
    "heap.more s1 = heap.more s" "\<exists>m. (r, m) \<in> live s1" "\<And>m. (r, m) \<notin> live s" "live s \<subseteq> live s1"
    by (rule node_alloc [OF room]) blast
  have f: "ram s1 = ram s" "ramfs_nodes s1 = ramfs_nodes s" "con s1 = con s" "devices s1 = devices s" "nodes s1 = nodes s"
    "io_in s1 = io_in s" "ramfs.more s1 = ramfs.more s"
    using k(4) by (cases s, cases s1, simp)+
  define v where "v = zero_node\<lparr>flags := FS_DIRECTORY, vname := [SLASH], finddir := RAMFS_FINDDIR\<rparr>"
  define s2 where "s2 = set_node r v (s1\<lparr>ramfs_root := r\<rparr>)"
  have s2_upd: "s2 = s1\<lparr>ramfs_root := r, nodes := (nodes s1)(r := v)\<rparr>" by (simp add: s2_def)
  have s2: "ram s2 = ram s" "ramfs_nodes s2 = []" "ramfs_root s2 = r" "nodes s2 r = v" "con s2 = con s"
    "devices s2 = devices s" "io_in s2 = io_in s" "ramfs.more s2 = ramfs.more s"
    using f empty by (simp_all add: s2_def)
  have "node_room n s2 = node_room n s1" for n unfolding s2_def by (rule node_room_cong) simp_all
  moreover have l: "live_at s2 r"
    using k(3,5) heap_cong(1) [of s2 s1] by (simp add: live_at_def s2_def)
  ultimately have ok: "ramfs_ok s2" using k(2) s2 by (simp add: ramfs_ok_def)
  from tar_loop_spec [OF at [folded s2(1)] ok] obtain s' where s': "tar_loop a s2 = Some s'" "ramfs_ok s'"
    "grows s2 s'" "adds (sourced (ram s2) es) s2 s'" "table_full s' \<or> (\<forall>e \<in> set es. unpacked e s')" by blast
  have "init_initramfs a s = Some (ramfs_root s', s')"
    using k(1,3) s'(1) by (simp add: init_initramfs_def Let_def v_def [symmetric] s2_upd [symmetric])
  moreover have "ramfs_root s' = r" "nodes s' r = v" "ram s' = ram s"
    using s'(3) l s2 by (auto simp: grows_def)
  moreover have "live_at s2 q \<and> nodes s2 q = nodes s q" if "live_at s q" for q
  proof -
    have "live_at s1 q" "q \<noteq> r" using that k(6,7) by (auto simp: live_at_def)
    then show ?thesis using heap_cong(1) [of s2 s1] f(5) by (simp add: live_at_def s2_def)
  qed
  then have "con s' = con s \<and> devices s' = devices s \<and> io_in s' = io_in s \<and> ramfs.more s' = ramfs.more s \<and> (\<forall>q. live_at s q \<longrightarrow> live_at s' q \<and> nodes s' q = nodes s q)"
    using s'(3) s2(5-8) unfolding grows_def by auto
  ultimately show ?thesis
    using s' k(3) s2 by (auto simp: adds_def v_def)
qed


subsection \<open>An example\<close>

text \<open>An archive at \<open>0x1000\<close> with one file, \<open>a/b\<close>, that holds two bytes.\<close>

definition sample_ram :: memory where
  "sample_ram = (\<lambda>_. 0)(0x1000 := 0x61, 0x1001 := 0x2F, 0x1002 := 0x62, 0x1086 := 0x32,
     0x109C := 0x30, 0x1200 := 104, 0x1201 := 105)"

definition sample_entry :: tar_entry where
  "sample_entry = \<lparr>te_name = str ''a/b'', te_type = 0x30, te_data = [104, 105]\<rparr>"

definition ramfs_zero :: ramfs where
  "ramfs_zero = devfs.extend devfs_zero (ramfs.fields [] 0)\<lparr>ram := sample_ram\<rparr>"

lemma all_less_2: "(\<forall>i < Suc (Suc 0). P i) \<longleftrightarrow> P 0 \<and> P (Suc 0)"
  by (auto simp: less_Suc_eq)

lemma sample_tar: "tar_at sample_ram 0x1000 [sample_entry]"
proof -
  have u: "[0..<11] = [0, 1, 2, 3, 4, 5, 6, 7, 8, 9, 10]" by (simp add: upt_rec)
  have sz: "tar_size sample_ram 0x1000 = 2"
    by (simp add: tar_size_def bytes_at_def u oct2bin_def sample_ram_def)
  then have nx: "tar_next sample_ram 0x1000 = 0x1400" by (simp add: tar_next_def)
  show ?thesis
    by (simp add: sz nx sample_entry_def str_def tar_typeflag_def all_less_2)
      (simp add: sample_ram_def)
qed

lemma ramfs_zero_heap:
  "hdrs ramfs_zero = hdrs heap_boot" "head ramfs_zero = head heap_boot"
  "heap_end ramfs_zero = heap_end heap_boot" "page_count ramfs_zero = page_count heap_boot"
  "bitmap ramfs_zero = bitmap heap_boot" "bitmap_bytes ramfs_zero = bitmap_bytes heap_boot"
  "con ramfs_zero = small_console" "ram ramfs_zero = sample_ram" "ramfs_nodes ramfs_zero = []"
  using vnodes_zero_heap by (simp_all add: ramfs_zero_def devfs_zero_def devfs.defs vnodes.defs ramfs.defs)

lemma ramfs_zero_room: "n \<le> 4000 \<Longrightarrow> node_room n ramfs_zero"
  using heap_boot_node_room [of n] node_room_cong [of ramfs_zero heap_boot n]
  by (simp add: ramfs_zero_heap)


subsection \<open>Properties\<close>

lemma init_initramfs_fits:
  assumes "tar_at (ram s) a es" "node_room (Suc MAX_RAMFS_NODES) s" "ramfs_nodes s = []"
    and "archive_size es < MAX_RAMFS_NODES"
  shows "\<exists>root s'. init_initramfs a s = Some (root, s') \<and> (\<forall>e \<in> set es. unpacked e s')"
proof -
  from init_initramfs_spec [OF assms(1-3)] obtain root s' where i: "init_initramfs a s = Some (root, s')"
    "table_full s' \<or> (\<forall>e \<in> set es. unpacked e s')" by blast
  moreover have "\<not> table_full s'"
    using init_initramfs_length [OF assms(1,3) i(1)] assms(4) by (simp add: table_full_def)
  ultimately show ?thesis by blast
qed

text \<open>
  C24. Unpacking an archive with room for 129 nodes on the heap returns the root directory,
  and unless the table of 128 nodes is full at the end, every entry of the archive has its
  node, a directory or a file with the entry's name, size and bytes, and every directory on
  the way to it has a node as well. When the names of the archive have fewer than 128
  components together, the table is not full, and so every entry has its node. Nothing else
  is in the table.
\<close>

theorem init_initramfs_unpacks:
  assumes "tar_at (ram s) a es" and "node_room (Suc MAX_RAMFS_NODES) s" and "ramfs_nodes s = []"
  shows "\<exists>root s'. init_initramfs a s = Some (root, s') \<and> is_dir (nodes s' root) \<and> ram s' = ram s \<and>
    (table_full s' \<or> (\<forall>e \<in> set es. unpacked e s')) \<and>
    (archive_size es < MAX_RAMFS_NODES \<longrightarrow> (\<forall>e \<in> set es. unpacked e s')) \<and>
    (\<forall>p \<in> set (ramfs_nodes s'). sourced (ram s) es (nodes s' p))"
proof -
  from init_initramfs_spec [OF assms] obtain root s' where i: "init_initramfs a s = Some (root, s')"
    "nodes s' root = zero_node\<lparr>flags := FS_DIRECTORY, vname := [SLASH], finddir := RAMFS_FINDDIR\<rparr>"
    "ram s' = ram s" "\<forall>p \<in> set (ramfs_nodes s'). sourced (ram s) es (nodes s' p)"
    "table_full s' \<or> (\<forall>e \<in> set es. unpacked e s')" by blast
  moreover have "is_dir (nodes s' root)" using i(2) by (simp add: is_dir_def FS_DIRECTORY_def)
  moreover have "archive_size es < MAX_RAMFS_NODES \<longrightarrow> (\<forall>e \<in> set es. unpacked e s')"
    using init_initramfs_fits [OF assms] i(1) by auto
  ultimately show ?thesis by blast
qed

lemma init_initramfs_unpacks_witness:
  "\<exists>root s'. init_initramfs 0x1000 ramfs_zero = Some (root, s') \<and> unpacked sample_entry s'"
proof -
  have "tar_at (ram ramfs_zero) 0x1000 [sample_entry]" "node_room (Suc MAX_RAMFS_NODES) ramfs_zero"
    using sample_tar ramfs_zero_room [of "Suc MAX_RAMFS_NODES"] by (simp_all add: ramfs_zero_heap MAX_RAMFS_NODES_def)
  moreover have "archive_size [sample_entry] < MAX_RAMFS_NODES"
    by (simp add: archive_size_def sample_entry_def MAX_RAMFS_NODES_def str_def)
  ultimately show ?thesis using init_initramfs_unpacks [of ramfs_zero "0x1000" "[sample_entry]"] ramfs_zero_heap(9) by auto
qed


subsection \<open>Numbers in headers\<close>

fun octal :: "nat \<Rightarrow> nat \<Rightarrow> u8 list" where
  "octal 0 n = []"
| "octal (Suc k) n = octal k (n div 8) @ [of_nat (48 + n mod 8)]"

lemma oct_digit: "d < 8 \<Longrightarrow> (0x30 :: u8) \<le> of_nat (48 + d) \<and> (of_nat (48 + d) :: u8) \<le> 0x37 \<and>
    (ucast (of_nat (48 + d) - 0x30 :: u8) :: u64) = of_nat d"
proof -
  assume "d < 8"
  then have "d \<in> {0, 1, 2, 3, 4, 5, 6, 7}" by auto
  then show ?thesis by (elim insertE emptyE) simp_all
qed

lemma oct_digits_append:
  "\<forall>c \<in> set cs. 0x30 \<le> c \<and> c \<le> 0x37 \<Longrightarrow> oct_digits (cs @ ds) n = oct_digits ds (oct_digits cs n)"
  by (induction cs arbitrary: n) auto

lemma octal_digits: "c \<in> set (octal k n) \<Longrightarrow> 0x30 \<le> c \<and> c \<le> 0x37"
proof (induction k arbitrary: n)
  case (Suc k)
  then show ?case using oct_digit [of "n mod 8"] by auto
qed simp

lemma oct_digits_octal: "n < 8 ^ k \<Longrightarrow> oct_digits (octal k n) 0 = of_nat n"
proof (induction k arbitrary: n)
  case (Suc k)
  have "n div 8 < 8 ^ k" using Suc.prems by (simp add: div_less_iff_less_mult mult.commute)
  from Suc.IH [OF this] have "oct_digits (octal (Suc k) n) 0 = push_bit 3 (of_nat (n div 8)) + of_nat (n mod 8)"
    using octal_digits oct_digit [of "n mod 8"] by (simp add: oct_digits_append)
  also have "\<dots> = of_nat (n div 8 * 8 + n mod 8)"
    by (simp only: of_nat_add of_nat_mult push_bit_eq_mult) simp
  finally show ?case by (simp only: div_mult_mod_eq)
qed simp

lemma oct_skip_digits: "\<forall>c \<in> set cs. 0x30 \<le> c \<and> c \<le> 0x37 \<Longrightarrow> oct_skip cs = cs"
  by (cases cs) auto

text \<open>
  A number written in octal, with any number of spaces before it and anything that is
  not an octal digit behind it, is read back.
\<close>

theorem oct2bin_octal:
  assumes "n < 8 ^ k" "0 < k" "set pad \<subseteq> {SPACE, 0}" "rest = [] \<or> hd rest < 0x30 \<or> 0x37 < hd rest"
  shows "oct2bin (pad @ octal k n @ rest) = of_nat n"
proof -
  have "oct_skip (pad @ octal k n @ rest) = octal k n @ rest"
  proof -
    have "octal k n \<noteq> []" using assms(2) by (cases k) auto
    then obtain c cs where c: "octal k n = c # cs" by (cases "octal k n") auto
    then have "0x30 \<le> c" using octal_digits [of c k n] by simp
    then have "oct_skip (octal k n @ rest) = octal k n @ rest" by (auto simp: c)
    then show ?thesis using assms(3) by (induction pad) auto
  qed
  moreover have "oct_digits rest m = m" for m
    using assms(4) by (cases rest) (auto simp: not_le)
  ultimately show ?thesis
    using oct_digits_append octal_digits oct_digits_octal [OF assms(1)] by (simp add: oct2bin_def)
qed


lemma oct2bin_octal_witness: "oct2bin (replicate 3 SPACE @ octal 8 511 @ [SPACE]) = 511"
proof -
  have "oct2bin (replicate 3 SPACE @ octal 8 511 @ [SPACE]) = of_nat 511"
    by (rule oct2bin_octal) auto
  then show ?thesis by simp
qed


subsection \<open>Reading files\<close>

text \<open>The bytes of a file, when its data does not overlap the buffer.\<close>

definition file_at :: "memory \<Rightarrow> vfs_node \<Rightarrow> u8 list \<Rightarrow> bool" where
  "file_at m v cs \<longleftrightarrow> unat (flen v) = length cs \<and> (\<forall>i < length cs. m (ptr v + of_nat i) = cs ! i)"

definition apart :: "u64 \<Rightarrow> nat \<Rightarrow> u64 \<Rightarrow> nat \<Rightarrow> bool" where
  "apart a n b k \<longleftrightarrow> span a n \<inter> span b k = {}"

lemma unat_span: "unat a + n \<le> 2 ^ 64 \<Longrightarrow> x \<in> span a n \<Longrightarrow> unat a \<le> unat x \<and> unat x < unat a + n"
  by (auto simp: span_def unat_word_ariths unat_of_nat)

lemma apartI:
  assumes "unat a + n \<le> unat b" "unat b + k \<le> 2 ^ 64"
  shows "apart a n b k"
proof -
  have "unat a + n \<le> 2 ^ 64" using assms by linarith
  from unat_span [OF this] unat_span [OF assms(2)] assms(1) show ?thesis
    unfolding apart_def by fastforce
qed

lemma ramfs_read_data:
  assumes "node \<noteq> 0" "buffer \<noteq> 0" and f: "file_at (ram s) (nodes s node) cs"
    and wrap: "unat offset + unat size0 < 2 ^ 64"
    and ap: "apart (ptr (nodes s node)) (length cs) buffer (unat size0)"
  defines "n \<equiv> length (take (unat size0) (drop (unat offset) cs))"
  shows "\<exists>m. ramfs_read node buffer size0 offset s = (of_nat n, s\<lparr>ram := m\<rparr>) \<and>
    bytes_at m buffer n = take (unat size0) (drop (unat offset) cs) \<and>
    (\<forall>a. a \<notin> span buffer n \<longrightarrow> m a = ram s a)"
proof -
  let ?f = "ptr (nodes s node)" and ?len = "ucast (flen (nodes s node)) :: u64"
  have len: "unat ?len = length cs" using f by (simp add: file_at_def)
  show ?thesis
  proof (cases "offset \<ge> ?len")
    case True
    then have "length cs \<le> unat offset" using len by (simp add: word_le_nat_alt)
    then have "n = 0" by (simp add: n_def)
    with True assms(1,2) show ?thesis
      by (intro exI [of _ "ram s"]) (simp add: ramfs_read_def bytes_at_def \<open>length cs \<le> _\<close>)
  next
    case False
    define k where "k = (if offset + size0 > ?len then ?len - offset else size0)"
    have o: "unat offset < length cs" using False len by (simp add: word_le_nat_alt)
    have "unat (offset + size0) = unat offset + unat size0"
      using wrap by (rule unat_add_small)
    then have k: "unat k = n"
      using o len by (auto simp: k_def n_def word_less_nat_alt unat_sub word_le_nat_alt)
    have n: "unat offset + n \<le> length cs" "n \<le> unat size0" using o by (simp_all add: n_def)
    let ?m = "memcpy buffer (?f + offset) k (ram s)"
    have ne: "buffer + i \<noteq> (?f + offset) + j" if "i < k" "j < k" for i j
    proof -
      have "buffer + i \<in> span buffer (unat size0)"
        using that(1) k n(2) unfolding span_def by (intro image_eqI [of _ _ "unat i"]) (auto simp: word_less_nat_alt)
      moreover have "(?f + offset) + j \<in> span ?f (length cs)"
        using that(2) k n(1) unfolding span_def
        by (intro image_eqI [of _ _ "unat offset + unat j"]) (auto simp: word_less_nat_alt)
      ultimately show ?thesis using ap unfolding apart_def by (metis disjoint_iff)
    qed
    have m: "?m a = (if a - buffer < k then ram s (?f + offset + (a - buffer)) else ram s a)" for a
      by (rule memcpy_spec [OF ne])
    have "n < 2 ^ 64" using k unat_u64 by metis
    then have idx: "(of_nat i :: u64) < k \<longleftrightarrow> i < n" if "i < 2 ^ 64" for i
      using that k by (simp add: word_less_nat_alt unat_of_nat)
    have "bytes_at ?m buffer n = take (unat size0) (drop (unat offset) cs)"
    proof (rule nth_equalityI)
      show "length (bytes_at ?m buffer n) = length (take (unat size0) (drop (unat offset) cs))"
        by (simp add: bytes_at_def n_def)
      fix i
      assume "i < length (bytes_at ?m buffer n)"
      then have i: "i < n" by (simp add: bytes_at_def)
      then have "(of_nat i :: u64) < k" using idx [of i] \<open>n < 2 ^ 64\<close> by simp
      then have "?m (buffer + of_nat i) = ram s (?f + of_nat (unat offset + i))"
        unfolding m by (simp add: add.assoc)
      also have "\<dots> = cs ! (unat offset + i)" 
        using i n(1) by (intro f [unfolded file_at_def, THEN conjunct2, rule_format]) simp
      finally show "bytes_at ?m buffer n ! i = take (unat size0) (drop (unat offset) cs) ! i"
        using i o n by (simp add: bytes_at_def n_def)
    qed
    moreover have "?m a = ram s a" if "a \<notin> span buffer n" for a
    proof -
      have "\<not> a - buffer < k"
      proof
        assume "a - buffer < k"
        then have "a \<in> span buffer n" using k
          unfolding span_def by (intro image_eqI [of _ _ "unat (a - buffer)"]) (auto simp: word_less_nat_alt)
        with that show False ..
      qed
      then show ?thesis unfolding m by simp
    qed
    moreover have "ramfs_read node buffer size0 offset s = (of_nat n, s\<lparr>ram := ?m\<rparr>)"
      using False assms(1,2) k by (simp add: ramfs_read_def Let_def k_def [symmetric] memcpy_def add.assoc flip: k)
    ultimately show ?thesis by blast
  qed
qed


text \<open>When it wraps, the test against the length of the file is passed.\<close>

lemma ramfs_read_wraps:
  assumes "node \<noteq> 0" "buffer \<noteq> 0" "offset < ucast (flen (nodes s node))"
    and "offset + size0 \<le> ucast (flen (nodes s node))"
  shows "fst (ramfs_read node buffer size0 offset s) = size0"
  using assms by (auto simp: ramfs_read_def Let_def dest: leD)

lemma ramfs_read_overrun:
  "fst (ramfs_read 8 8 (-1) 2 (ramfs_zero\<lparr>nodes := (\<lambda>_. zero_node\<lparr>flen := 4\<rparr>)\<rparr>)) = - 1"
  by (rule ramfs_read_wraps) simp_all

end
