(* ===== verification/Ata.thy ===== *)
theory Ata
  imports Machine
begin

text \<open>
  The ATA driver, \<open>drivers/storage/ata.c\<close>: programmed I/O on the primary bus, one sector
  of 512 bytes at a time with 28-bit addresses. What the drive answers is described in a
  section of its own, as a predicate on the port's behaviour.
\<close>

definition ATA_PRIMARY_DATA :: u16 where "ATA_PRIMARY_DATA = 0x1F0"
definition ATA_PRIMARY_ERR_FEATURES :: u16 where "ATA_PRIMARY_ERR_FEATURES = 0x1F1"
definition ATA_PRIMARY_SECT_COUNT :: u16 where "ATA_PRIMARY_SECT_COUNT = 0x1F2"
definition ATA_PRIMARY_LBA_LOW :: u16 where "ATA_PRIMARY_LBA_LOW = 0x1F3"
definition ATA_PRIMARY_LBA_MID :: u16 where "ATA_PRIMARY_LBA_MID = 0x1F4"
definition ATA_PRIMARY_LBA_HIGH :: u16 where "ATA_PRIMARY_LBA_HIGH = 0x1F5"
definition ATA_PRIMARY_DRIVE_SEL :: u16 where "ATA_PRIMARY_DRIVE_SEL = 0x1F6"
definition ATA_PRIMARY_COMMAND_STAT :: u16 where "ATA_PRIMARY_COMMAND_STAT = 0x1F7"
definition ATA_PRIMARY_ALT_STAT :: u16 where "ATA_PRIMARY_ALT_STAT = 0x3F6"
definition ATA_SR_ERR :: u8 where "ATA_SR_ERR = 0x01"
definition ATA_SR_DRQ :: u8 where "ATA_SR_DRQ = 0x08"
definition ATA_SR_DF :: u8 where "ATA_SR_DF = 0x20"
definition ATA_SR_BSY :: u8 where "ATA_SR_BSY = 0x80"
definition ATA_CMD_READ_SECTORS :: u8 where "ATA_CMD_READ_SECTORS = 0x20"
definition ATA_POLL_LIMIT :: nat where "ATA_POLL_LIMIT = 1000000"

lemmas ata_ports = ATA_PRIMARY_DATA_def ATA_PRIMARY_ERR_FEATURES_def ATA_PRIMARY_SECT_COUNT_def
  ATA_PRIMARY_LBA_LOW_def ATA_PRIMARY_LBA_MID_def ATA_PRIMARY_LBA_HIGH_def ATA_PRIMARY_DRIVE_SEL_def
  ATA_PRIMARY_COMMAND_STAT_def ATA_PRIMARY_ALT_STAT_def ATA_CMD_READ_SECTORS_def
lemmas ata_bits = ATA_SR_ERR_def ATA_SR_DRQ_def ATA_SR_DF_def ATA_SR_BSY_def


subsection \<open>The driver\<close>

definition ata_io_wait :: "'a machine_scheme \<Rightarrow> 'a machine_scheme" where
  "ata_io_wait s =
     (let (_, s1) = inb ATA_PRIMARY_ALT_STAT s; (_, s2) = inb ATA_PRIMARY_ALT_STAT s1;
          (_, s3) = inb ATA_PRIMARY_ALT_STAT s2; (_, s4) = inb ATA_PRIMARY_ALT_STAT s3 in s4)"

text \<open>The polling loops, with the number of rounds left.\<close>

fun ready_loop :: "nat \<Rightarrow> 'a machine_scheme \<Rightarrow> bool \<times> 'a machine_scheme" where
  "ready_loop 0 s = (False, s)"
| "ready_loop (Suc n) s =
     (let (status, s1) = inb ATA_PRIMARY_COMMAND_STAT s in
      if status = 0 \<or> status AND (ATA_SR_ERR OR ATA_SR_DF) \<noteq> 0 then (False, s1)
      else if status AND ATA_SR_BSY = 0 then (True, s1)
      else ready_loop n s1)"

definition ata_wait_ready :: "'a machine_scheme \<Rightarrow> bool \<times> 'a machine_scheme" where
  "ata_wait_ready s = ready_loop ATA_POLL_LIMIT s"

fun drq_loop :: "nat \<Rightarrow> 'a machine_scheme \<Rightarrow> bool \<times> 'a machine_scheme" where
  "drq_loop 0 s = (False, s)"
| "drq_loop (Suc n) s =
     (let (status, s1) = inb ATA_PRIMARY_COMMAND_STAT s in
      if status = 0 \<or> status AND (ATA_SR_ERR OR ATA_SR_DF) \<noteq> 0 then (False, s1)
      else if status AND ATA_SR_DRQ \<noteq> 0 then (True, s1)
      else drq_loop n s1)"

definition ata_wait_drq :: "'a machine_scheme \<Rightarrow> bool \<times> 'a machine_scheme" where
  "ata_wait_drq s = drq_loop ATA_POLL_LIMIT s"

text \<open>Selecting the sector and sending the command.\<close>

definition ata_command :: "u32 \<Rightarrow> 'a machine_scheme \<Rightarrow> 'a machine_scheme" where
  "ata_command lba s =
     (let s1 = outb ATA_PRIMARY_DRIVE_SEL (ucast (0xE0 OR (drop_bit 24 lba AND 0x0F))) s;
          s2 = ata_io_wait s1;
          s3 = outb ATA_PRIMARY_ERR_FEATURES 0 s2;
          s4 = outb ATA_PRIMARY_SECT_COUNT 1 s3;
          s5 = outb ATA_PRIMARY_LBA_LOW (ucast (lba AND 0xFF)) s4;
          s6 = outb ATA_PRIMARY_LBA_MID (ucast (drop_bit 8 lba AND 0xFF)) s5;
          s7 = outb ATA_PRIMARY_LBA_HIGH (ucast (drop_bit 16 lba AND 0xFF)) s6;
          s8 = outb ATA_PRIMARY_COMMAND_STAT ATA_CMD_READ_SECTORS s7
      in ata_io_wait s8)"

definition read_word :: "u64 \<Rightarrow> u64 \<Rightarrow> 'a machine_scheme \<Rightarrow> 'a machine_scheme" where
  "read_word buffer i s =
     (let (w, s1) = inw ATA_PRIMARY_DATA s in s1\<lparr>ram := store16 (buffer + 2 * i) w (ram s1)\<rparr>)"

definition ata_read_sector28 :: "u32 \<Rightarrow> u64 \<Rightarrow> 'a machine_scheme \<Rightarrow> (bool \<times> 'a machine_scheme) option" where
  "ata_read_sector28 lba buffer s =
     (if buffer = 0 then Some (False, s)
      else case ata_wait_ready s of
        (False, s1) \<Rightarrow> Some (False, s1)
      | (True, s1) \<Rightarrow>
          (case ata_wait_drq (ata_command lba s1) of
             (False, s2) \<Rightarrow> do {
               s3 \<leftarrow> kprintf ''ATA: Error reading sector %d\<newline>'' 0xFF0000 [AInt lba] s2;
               Some (False, s3) }
           | (True, s2) \<Rightarrow> Some (True, for_up 0 256 (read_word buffer) s2)))"

text \<open>The loop over the sectors of a request, with those still to be read.\<close>

fun sectors_loop :: "nat \<Rightarrow> u64 \<Rightarrow> u32 \<Rightarrow> u64 \<Rightarrow> 'a machine_scheme \<Rightarrow> (bool \<times> 'a machine_scheme) option" where
  "sectors_loop 0 lba i p s = Some (True, s)"
| "sectors_loop (Suc n) lba i p s = do {
     (ok, s1) \<leftarrow> ata_read_sector28 (ucast (lba + ucast i)) (p + ucast (i * 512)) s;
     if ok then sectors_loop n lba (i + 1) p s1 else Some (False, s1) }"

definition ata_block_read :: "u64 \<Rightarrow> u32 \<Rightarrow> u64 \<Rightarrow> 'a machine_scheme \<Rightarrow> (bool \<times> 'a machine_scheme) option" where
  "ata_block_read lba count buf s = sectors_loop (unat count) lba 0 buf s"


subsection \<open>The drive\<close>

text \<open>
  A drive on the primary bus as the ATA standard has its PIO data-in protocol (the host and
  device states of reading sectors). Its phase is a function of the accesses so far, the
  latest first, and of what it answered to the status reads among them.

  \<^item> \<open>Idle\<close>: no command is pending; the drive may still be busy. \<open>Ready\<close>: the status read last
    had \<open>BSY\<close> clear, so that registers and commands may be written.
  \<^item> \<open>Preparing n\<close>: a read of one sector, \<open>n\<close>, was accepted. \<open>Data n k\<close>: a status with
    \<open>DRQ\<close> set and \<open>BSY\<close> clear was read since, and \<open>k\<close> words.
  \<^item> \<open>Undefined\<close>: the protocol was left; nothing is known of the answers any more.

  A read command is accepted in the phase \<open>Ready\<close>, for a count of one sector, with the bits of
  the drive register that select LBA mode and drive 0.
\<close>

datatype ata_phase = Idle | Ready | Preparing nat | Data nat nat | Undefined

fun reg_value :: "io_event list \<Rightarrow> u16 \<Rightarrow> u8" where
  "reg_value [] q = 0"
| "reg_value (e # l) q = (case e of Outb p v \<Rightarrow> if p = q then v else reg_value l q | _ \<Rightarrow> reg_value l q)"

definition selected_lba :: "io_event list \<Rightarrow> nat" where
  "selected_lba l = unat (reg_value l ATA_PRIMARY_DRIVE_SEL AND 0x0F) * 2 ^ 24 +
     unat (reg_value l ATA_PRIMARY_LBA_HIGH) * 2 ^ 16 + unat (reg_value l ATA_PRIMARY_LBA_MID) * 2 ^ 8 +
     unat (reg_value l ATA_PRIMARY_LBA_LOW)"

definition ata_register :: "u16 \<Rightarrow> bool" where
  "ata_register p \<longleftrightarrow> p \<in> {ATA_PRIMARY_DATA, ATA_PRIMARY_ERR_FEATURES, ATA_PRIMARY_SECT_COUNT,
     ATA_PRIMARY_LBA_LOW, ATA_PRIMARY_LBA_MID, ATA_PRIMARY_LBA_HIGH, ATA_PRIMARY_DRIVE_SEL,
     ATA_PRIMARY_COMMAND_STAT, ATA_PRIMARY_ALT_STAT}"

fun drive_step :: "ata_phase \<Rightarrow> io_event list \<Rightarrow> io_event \<Rightarrow> u32 \<Rightarrow> ata_phase" where
  "drive_step ph l (Inb p) answer =
     (let v = ucast answer :: u8 in
      if p \<noteq> ATA_PRIMARY_COMMAND_STAT then ph
      else case ph of
        Idle \<Rightarrow> if v AND ATA_SR_BSY = 0 then Ready else Idle
      | Preparing n \<Rightarrow> if v AND ATA_SR_DRQ \<noteq> 0 \<and> v AND ATA_SR_BSY = 0 then Data n 0 else Preparing n
      | _ \<Rightarrow> ph)"
| "drive_step ph l (Inw p) answer =
     (if p \<noteq> ATA_PRIMARY_DATA then ph
      else case ph of
        Data n k \<Rightarrow> if Suc k < 256 then Data n (Suc k) else Idle
      | _ \<Rightarrow> Undefined)"
| "drive_step ph l (Outb p v) answer =
     (if \<not> ata_register p then ph
      else if ph \<noteq> Ready then Undefined
      else if p = ATA_PRIMARY_DATA \<or> p = ATA_PRIMARY_ALT_STAT then Undefined
      else if p \<noteq> ATA_PRIMARY_COMMAND_STAT then Ready
      else if v = ATA_CMD_READ_SECTORS \<and> reg_value l ATA_PRIMARY_SECT_COUNT = 1 \<and>
        reg_value l ATA_PRIMARY_DRIVE_SEL AND 0x50 = 0x40 then Preparing (selected_lba l)
      else Undefined)"
| "drive_step ph l (Inl p) answer = (if ata_register p then Undefined else ph)"
| "drive_step ph l (Outl p v) answer = (if ata_register p then Undefined else ph)"

fun drive_phase :: "(io_event list \<Rightarrow> io_event \<Rightarrow> u32) \<Rightarrow> io_event list \<Rightarrow> ata_phase" where
  "drive_phase io [] = Idle"
| "drive_phase io (e # l) = drive_step (drive_phase io l) l e (io l e)"

text \<open>How often in a row the status was read.\<close>

fun polls :: "io_event list \<Rightarrow> nat" where
  "polls [] = 0"
| "polls (e # l) = (if e = Inb ATA_PRIMARY_COMMAND_STAT then Suc (polls l) else 0)"

definition good_status :: "u8 \<Rightarrow> bool" where
  "good_status v \<longleftrightarrow> v \<noteq> 0 \<and> v AND (ATA_SR_ERR OR ATA_SR_DF) = 0"

text \<open>
  A drive without faults that holds the given sectors of 256 words. Outside \<open>Undefined\<close> its
  status shows no error; it is busy for fewer than a million polls in a row; a command it has
  accepted ends with \<open>DRQ\<close> after fewer than a million polls, and \<open>DRQ\<close> is shown with \<open>BSY\<close>
  clear only; in the phase \<open>Data n k\<close> the data register delivers word \<open>k\<close> of sector \<open>n\<close>.
\<close>

definition drive_status_ok :: "ata_phase \<Rightarrow> nat \<Rightarrow> u8 \<Rightarrow> bool" where
  "drive_status_ok ph k v \<longleftrightarrow> (case ph of
     Undefined \<Rightarrow> True
   | Idle \<Rightarrow> good_status v \<and> (ATA_POLL_LIMIT \<le> Suc k \<longrightarrow> v AND ATA_SR_BSY = 0)
   | Preparing n \<Rightarrow> good_status v \<and> (ATA_POLL_LIMIT \<le> Suc k \<longrightarrow> v AND ATA_SR_DRQ \<noteq> 0) \<and>
       (v AND ATA_SR_DRQ \<noteq> 0 \<longrightarrow> v AND ATA_SR_BSY = 0)
   | _ \<Rightarrow> good_status v \<and> v AND ATA_SR_BSY = 0)"

definition ata_drive :: "(nat \<Rightarrow> nat \<Rightarrow> u16) \<Rightarrow> (io_event list \<Rightarrow> io_event \<Rightarrow> u32) \<Rightarrow> bool" where
  "ata_drive sector io \<longleftrightarrow>
     (\<forall>l. drive_status_ok (drive_phase io l) (polls l) (ucast (io l (Inb ATA_PRIMARY_COMMAND_STAT)))) \<and>
     (\<forall>l n k. drive_phase io l = Data n k \<longrightarrow> ucast (io l (Inw ATA_PRIMARY_DATA)) = sector n k)"

text \<open>No command is pending, as after start and after each sector read to its end.\<close>

definition drive_idle :: "'a machine_scheme \<Rightarrow> bool" where
  "drive_idle s \<longleftrightarrow> drive_phase (io_in s) (io_log s) \<in> {Idle, Ready}"


subsection \<open>Polling\<close>

lemma inb_simps: "snd (inb p s) = s\<lparr>io_log := Inb p # io_log s\<rparr>"
  "fst (inb p s) = ucast (io_in s (io_log s) (Inb p))"
  by (simp_all add: inb_def)

lemma drive_status:
  "ata_drive sector io \<Longrightarrow> drive_status_ok (drive_phase io l) (polls l) (ucast (io l (Inb ATA_PRIMARY_COMMAND_STAT)))"
  by (simp add: ata_drive_def)

lemma ready_loop_drive:
  assumes "ata_drive sector (io_in s)" "0 < n" "ATA_POLL_LIMIT \<le> n + polls (io_log s)" "drive_idle s"
  shows "\<exists>l. ready_loop n s = (True, s\<lparr>io_log := l\<rparr>) \<and> drive_phase (io_in s) l = Ready"
  using assms
proof (induction n arbitrary: s)
  case (Suc n)
  let ?v = "ucast (io_in s (io_log s) (Inb ATA_PRIMARY_COMMAND_STAT)) :: u8"
  let ?s = "s\<lparr>io_log := Inb ATA_PRIMARY_COMMAND_STAT # io_log s\<rparr>"
  have ph: "drive_phase (io_in s) (io_log s) = Idle \<or> drive_phase (io_in s) (io_log s) = Ready"
    using Suc.prems(4) by (auto simp: drive_idle_def)
  have g: "?v \<noteq> 0" "?v AND (ATA_SR_ERR OR ATA_SR_DF) = 0"
    and busy: "?v AND ATA_SR_BSY \<noteq> 0 \<Longrightarrow> \<not> ATA_POLL_LIMIT \<le> Suc (polls (io_log s)) \<and> drive_phase (io_in s) (io_log s) = Idle"
    using drive_status [OF Suc.prems(1), of "io_log s"] ph by (auto simp: drive_status_ok_def good_status_def)
  show ?case
  proof (cases "?v AND ATA_SR_BSY = 0")
    case True
    with g ph show ?thesis by (intro exI [of _ "io_log ?s"]) (auto simp: inb_def Let_def)
  next
    case False
    from busy [OF this] have "0 < n" "drive_idle ?s" using Suc.prems(3) False by (auto simp: drive_idle_def Let_def)
    moreover have "polls (io_log ?s) = Suc (polls (io_log s))" by simp
    ultimately obtain l where "ready_loop n ?s = (True, ?s\<lparr>io_log := l\<rparr>)" "drive_phase (io_in ?s) l = Ready"
      using Suc.IH [of ?s] Suc.prems by auto
    with False g show ?thesis by (intro exI [of _ l]) (simp add: inb_def)
  qed
qed simp

lemma drq_loop_drive:
  assumes "ata_drive sector (io_in s)" "0 < n" "ATA_POLL_LIMIT \<le> n + polls (io_log s)"
    "drive_phase (io_in s) (io_log s) = Preparing lba"
  shows "\<exists>l. drq_loop n s = (True, s\<lparr>io_log := l\<rparr>) \<and> drive_phase (io_in s) l = Data lba 0"
  using assms
proof (induction n arbitrary: s)
  case (Suc n)
  let ?v = "ucast (io_in s (io_log s) (Inb ATA_PRIMARY_COMMAND_STAT)) :: u8"
  let ?s = "s\<lparr>io_log := Inb ATA_PRIMARY_COMMAND_STAT # io_log s\<rparr>"
  have g: "?v \<noteq> 0" "?v AND (ATA_SR_ERR OR ATA_SR_DF) = 0"
    and drq: "ATA_POLL_LIMIT \<le> Suc (polls (io_log s)) \<Longrightarrow> ?v AND ATA_SR_DRQ \<noteq> 0"
      "?v AND ATA_SR_DRQ \<noteq> 0 \<Longrightarrow> ?v AND ATA_SR_BSY = 0"
    using drive_status [OF Suc.prems(1), of "io_log s"] Suc.prems(4) by (auto simp: drive_status_ok_def good_status_def)
  show ?case
  proof (cases "?v AND ATA_SR_DRQ = 0")
    case False
    with g drq(2) Suc.prems(4) show ?thesis by (intro exI [of _ "io_log ?s"]) (auto simp: inb_def Let_def)
  next
    case True
    then have "0 < n" using drq(1) Suc.prems(3) by (cases n) auto
    moreover have "polls (io_log ?s) = Suc (polls (io_log s))" "drive_phase (io_in ?s) (io_log ?s) = Preparing lba"
      using True Suc.prems(4) by simp_all
    ultimately obtain l where "drq_loop n ?s = (True, ?s\<lparr>io_log := l\<rparr>)" "drive_phase (io_in ?s) l = Data lba 0"
      using Suc.IH [of ?s] Suc.prems by auto
    with True g show ?thesis by (intro exI [of _ l]) (simp add: inb_def)
  qed
qed simp


subsection \<open>The command\<close>

lemma unat_low_byte: "unat (ucast (x AND 0xFF) :: u8) = unat x mod 256" for x :: u32
proof -
  have "x AND 0xFF = take_bit 8 x" by (simp add: take_bit_eq_mask mask_eq_exp_minus_1)
  then show ?thesis by (simp add: unsigned_ucast_eq take_bit_eq_mod unat_mod)
qed

lemma unat_drive_bits: "unat (ucast (0xE0 OR (x AND 0x0F)) AND 0x0F :: u8) = unat x mod 16" for x :: u32
proof -
  define y :: u32 where "y = push_bit 5 7"
  have y: "0xE0 = y" "\<And>n. bit y n \<Longrightarrow> 5 \<le> n"
    by (simp add: y_def) (simp only: y_def bit_push_bit_iff)
  have m: "(0x0F :: u32) = mask 4" "(0x0F :: u8) = mask 4" by (simp_all add: mask_eq_exp_minus_1)
  have "(ucast (0xE0 OR (x AND 0x0F)) AND 0x0F :: u8) = ucast (take_bit 4 x)"
    unfolding y(1) m by (rule bit_word_eqI) (use y(2) in \<open>fastforce simp: bit_simps\<close>)
  then show ?thesis by (simp add: unsigned_ucast_eq take_bit_eq_mod unat_mod)
qed

lemma lba_parts: "n div 2 ^ 24 mod 16 * 2 ^ 24 + n div 2 ^ 16 mod 256 * 2 ^ 16 + n div 2 ^ 8 mod 256 * 2 ^ 8 + n mod 256
    = n mod 2 ^ 28" for n :: nat
proof -
  have "n mod (256 * 256) = 256 * (n div 256 mod 256) + n mod 256" by (rule mod_mult2_eq)
  moreover have "n mod (65536 * 256) = 65536 * (n div 65536 mod 256) + n mod 65536" by (rule mod_mult2_eq)
  moreover have "n mod (16777216 * 16) = 16777216 * (n div 16777216 mod 16) + n mod 16777216" by (rule mod_mult2_eq)
  ultimately show ?thesis by simp
qed

lemma drive_select: "(ucast (0xE0 OR (x AND 0x0F)) :: u8) AND 0x50 = 0x40" for x :: u32
proof -
  have "(ucast (x AND 0x0F) :: u8) AND 0x50 = ucast (x AND (0x0F AND 0x50))"
    by (simp only: and.assoc unsigned_and_eq) (simp add: and.assoc)
  then have "(ucast (x AND 0x0F) :: u8) AND 0x50 = 0" by simp
  then show ?thesis by (simp add: unsigned_or_eq bit.conj_disj_distrib2)
qed

text \<open>The command selects the sector whose number is the low 28 bits of \<open>lba\<close>, and is accepted.\<close>

lemma ata_command_log:
  assumes "drive_phase (io_in s) (io_log s) = Ready"
  shows "\<exists>l. ata_command lba s = s\<lparr>io_log := l\<rparr> \<and> polls l = 0 \<and>
    drive_phase (io_in s) l = Preparing (unat lba mod 2 ^ 28)"
proof -
  define c where "c = io_log (outb ATA_PRIMARY_LBA_HIGH (ucast (drop_bit 16 lba AND 0xFF))
    (outb ATA_PRIMARY_LBA_MID (ucast (drop_bit 8 lba AND 0xFF)) (outb ATA_PRIMARY_LBA_LOW (ucast (lba AND 0xFF))
      (outb ATA_PRIMARY_SECT_COUNT 1 (outb ATA_PRIMARY_ERR_FEATURES 0 (ata_io_wait
        (outb ATA_PRIMARY_DRIVE_SEL (ucast (0xE0 OR (drop_bit 24 lba AND 0x0F))) s)))))))"
  have d: "unat (drop_bit 24 lba) = unat lba div 2 ^ 24" "unat (drop_bit 16 lba) = unat lba div 2 ^ 16"
    "unat (drop_bit 8 lba) = unat lba div 2 ^ 8"
    by (simp_all add: drop_bit_eq_div unat_div)
  have "selected_lba c = unat (drop_bit 24 lba) mod 16 * 2 ^ 24 + unat (drop_bit 16 lba) mod 256 * 2 ^ 16 +
      unat (drop_bit 8 lba) mod 256 * 2 ^ 8 + unat lba mod 256"
    using unat_drive_bits [of "drop_bit 24 lba"] unat_low_byte
    by (simp add: selected_lba_def c_def outb_def ata_io_wait_def inb_def ata_ports)
  then have n: "selected_lba c = unat lba mod 2 ^ 28" unfolding d using lba_parts by simp
  have r: "reg_value c ATA_PRIMARY_SECT_COUNT = 1" "reg_value c ATA_PRIMARY_DRIVE_SEL AND 0x50 = 0x40"
    using drive_select by (simp_all add: c_def outb_def ata_io_wait_def inb_def ata_ports)
  have ph: "drive_phase (io_in s) c = Ready"
    using assms by (simp add: c_def outb_def ata_io_wait_def inb_def ata_ports ata_register_def)
  define w where "w = Inb ATA_PRIMARY_ALT_STAT"
  define l where "l = w # w # w # w # Outb ATA_PRIMARY_COMMAND_STAT ATA_CMD_READ_SECTORS # c"
  have "drive_phase (io_in s) (Outb ATA_PRIMARY_COMMAND_STAT ATA_CMD_READ_SECTORS # c) = Preparing (selected_lba c)"
    using ph r by (simp add: ata_register_def) (simp add: ata_ports)
  moreover have "drive_phase (io_in s) (w # x) = drive_phase (io_in s) x" "polls (w # x) = 0" for x
    by (simp_all add: w_def ata_ports)
  ultimately have "drive_phase (io_in s) l = Preparing (selected_lba c)" "polls l = 0"
    by (simp_all only: l_def)
  moreover have "ata_command lba s = s\<lparr>io_log := l\<rparr>"
    by (simp add: l_def w_def ata_command_def c_def outb_def ata_io_wait_def inb_def Let_def)
  ultimately show ?thesis unfolding n by blast
qed


subsection \<open>The data\<close>

definition sector_byte :: "(nat \<Rightarrow> u16) \<Rightarrow> nat \<Rightarrow> u8" where
  "sector_byte w k = (if even k then ucast (w (k div 2)) else ucast (drop_bit 8 (w (k div 2))))"

lemma data_phase:
  "drive_phase io l = Data n 0 \<Longrightarrow> i \<le> 256 \<Longrightarrow>
    drive_phase io (replicate i (Inw ATA_PRIMARY_DATA) @ l) = (if i < 256 then Data n i else Idle)"
  by (induction i) auto

lemma unat_offset: "unat a + n \<le> 2 ^ 64 \<Longrightarrow> k < n \<Longrightarrow> unat (a + of_nat k) = unat a + k" for a :: u64
  by (simp add: unat_word_ariths unat_of_nat)

lemma offset_inj: "unat a + n \<le> 2 ^ 64 \<Longrightarrow> j < n \<Longrightarrow> k < n \<Longrightarrow> a + of_nat j = a + of_nat k \<longleftrightarrow> j = k" for a :: u64
proof -
  assume "unat a + n \<le> 2 ^ 64" "j < n" "k < n"
  from unat_offset [OF this(1,2)] unat_offset [OF this(1,3)]
  show ?thesis unfolding word_unat_eq_iff by simp
qed

lemma read_words_spec:
  assumes d: "ata_drive sector (io_in s)" and c: "drive_phase (io_in s) (io_log s) = Data n 0"
    and room: "unat buffer + 512 \<le> 2 ^ 64"
  shows "\<exists>m. for_up 0 256 (read_word buffer) s =
      s\<lparr>io_log := replicate 256 (Inw ATA_PRIMARY_DATA) @ io_log s, ram := m\<rparr> \<and>
    (\<forall>k < 512. m (buffer + of_nat k) = sector_byte (sector n) k) \<and>
    same_outside (unat buffer) 512 (ram s) m"
proof -
  let ?w = "sector n"
  let ?log = "\<lambda>i. replicate i (Inw ATA_PRIMARY_DATA) @ io_log s"
  define P where "P i t \<longleftrightarrow> unat i \<le> 256 \<and> (\<exists>m. t = s\<lparr>io_log := ?log (unat i), ram := m\<rparr> \<and>
    (\<forall>k < 2 * unat i. m (buffer + of_nat k) = sector_byte ?w k) \<and>
    same_outside (unat buffer) 512 (ram s) m)" for i :: u64 and t
  have "P 256 (for_up 0 256 (read_word buffer) s)"
  proof (rule for_up_rule [where P = P])
    show "P 0 s" by (auto simp: P_def intro!: exI [of _ "ram s"])
    fix i :: u64 and t
    assume i: "i < 256" and "P i t"
    let ?n = "unat i"
    have n: "?n < 256" using i by (simp add: word_less_nat_alt)
    from \<open>P i t\<close> obtain m where t: "t = s\<lparr>io_log := ?log ?n, ram := m\<rparr>"
      and m: "\<forall>k < 2 * ?n. m (buffer + of_nat k) = sector_byte ?w k" "same_outside (unat buffer) 512 (ram s) m"
      unfolding P_def by blast
    let ?m = "store16 (buffer + of_nat (2 * ?n)) (?w ?n) m"
    have "ucast (io_in s (?log ?n) (Inw ATA_PRIMARY_DATA)) = ?w ?n"
      using d data_phase [OF c, of ?n] n by (simp add: ata_drive_def)
    then have r: "read_word buffer i t = s\<lparr>io_log := ?log (Suc ?n), ram := ?m\<rparr>"
      by (simp add: read_word_def inw_def t)
    have eq: "buffer + of_nat k = buffer + of_nat (2 * ?n) \<longleftrightarrow> k = 2 * ?n"
      "buffer + of_nat k = buffer + of_nat (2 * ?n) + 1 \<longleftrightarrow> k = Suc (2 * ?n)" if "k < 2 * Suc ?n" for k
      using offset_inj [OF room, of k "2 * ?n"] offset_inj [OF room, of k "Suc (2 * ?n)"] that n
      by (simp_all add: add.assoc add.commute [of 1])
    have "?m (buffer + of_nat k) = sector_byte ?w k" if k: "k < 2 * Suc ?n" for k
    proof -
      have "k < 2 * ?n \<or> k = 2 * ?n \<or> k = Suc (2 * ?n)" using k by auto
      then show ?thesis unfolding store16_def fun_upd_apply eq [OF k] using m(1) by (auto simp: sector_byte_def)
    qed
    moreover have "unat (buffer + of_nat (2 * ?n)) = unat buffer + 2 * ?n"
      "unat (buffer + of_nat (2 * ?n) + 1) = unat buffer + Suc (2 * ?n)"
      using unat_offset [OF room, of "2 * ?n"] unat_offset [OF room, of "Suc (2 * ?n)"] n
      by (simp_all add: add.assoc add.commute [of 1])
    then have "same_outside (unat buffer) 512 m ?m"
      using n unfolding store16_def by (intro same_outside_trans [OF same_outside_upd same_outside_upd]) simp_all
    ultimately show "P (i + 1) (read_word buffer i t)"
      using less_inc_le [OF i] n same_outside_trans [OF m(2)] unfolding P_def r by auto
  qed simp
  then show ?thesis unfolding P_def by simp
qed
lemma ata_sector_spec:
  assumes d: "ata_drive sector (io_in s)" "drive_idle s" and b: "buffer \<noteq> 0" "unat buffer + 512 \<le> 2 ^ 64"
  shows "\<exists>l m. ata_read_sector28 lba buffer s = Some (True, s\<lparr>io_log := l, ram := m\<rparr>) \<and>
    (\<forall>k < 512. m (buffer + of_nat k) = sector_byte (sector (unat lba mod 2 ^ 28)) k) \<and>
    same_outside (unat buffer) 512 (ram s) m \<and> drive_idle (s\<lparr>io_log := l, ram := m\<rparr>)"
proof -
  have lim: "0 < ATA_POLL_LIMIT" by (simp add: ATA_POLL_LIMIT_def)
  obtain l1 where r: "ata_wait_ready s = (True, s\<lparr>io_log := l1\<rparr>)" "drive_phase (io_in s) l1 = Ready"
    using ready_loop_drive [OF d(1) lim _ d(2)] by (auto simp: ata_wait_ready_def)
  obtain l2 where c: "ata_command lba (s\<lparr>io_log := l1\<rparr>) = s\<lparr>io_log := l2\<rparr>" "polls l2 = 0"
    "drive_phase (io_in s) l2 = Preparing (unat lba mod 2 ^ 28)"
    using ata_command_log [of "s\<lparr>io_log := l1\<rparr>" lba] r(2) by auto
  obtain l3 where q: "ata_wait_drq (s\<lparr>io_log := l2\<rparr>) = (True, s\<lparr>io_log := l3\<rparr>)"
    "drive_phase (io_in s) l3 = Data (unat lba mod 2 ^ 28) 0"
    using drq_loop_drive [of sector "s\<lparr>io_log := l2\<rparr>" ATA_POLL_LIMIT "unat lba mod 2 ^ 28"] d(1) lim c(2,3)
    by (auto simp: ata_wait_drq_def)
  let ?t = "s\<lparr>io_log := l3\<rparr>"
  from read_words_spec [of sector ?t "unat lba mod 2 ^ 28" buffer] d(1) q(2) b(2) obtain m where m:
    "for_up 0 256 (read_word buffer) ?t = ?t\<lparr>io_log := replicate 256 (Inw ATA_PRIMARY_DATA) @ io_log ?t, ram := m\<rparr>"
    "\<forall>k < 512. m (buffer + of_nat k) = sector_byte (sector (unat lba mod 2 ^ 28)) k"
    "same_outside (unat buffer) 512 (ram ?t) m" by auto
  have "ata_read_sector28 lba buffer s = Some (True, for_up 0 256 (read_word buffer) ?t)"
    using b(1) unfolding ata_read_sector28_def r(1) prod.case bool.case c(1) q(1) by simp
  moreover have "drive_phase (io_in s) (replicate 256 (Inw ATA_PRIMARY_DATA) @ l3) = Idle"
    using data_phase [OF q(2), of 256] by simp
  ultimately show ?thesis
    using m unfolding m(1) by (intro exI [of _ "replicate 256 (Inw ATA_PRIMARY_DATA) @ l3"] exI [of _ m])
      (simp add: drive_idle_def del: replicate.simps)
qed

lemma sectors_loop_spec:
  assumes "ata_drive sector (io_in s)" "buf \<noteq> 0" "unat lba + (unat i + n) \<le> 2 ^ 28"
    "unat buf + 512 * (unat i + n) \<le> 2 ^ 64" "512 * (unat i + n) < 2 ^ 32" "drive_idle s"
  shows "\<exists>l m. sectors_loop n lba i buf s = Some (True, s\<lparr>io_log := l, ram := m\<rparr>) \<and>
    (\<forall>j k. unat i \<le> j \<longrightarrow> j < unat i + n \<longrightarrow> k < 512 \<longrightarrow>
      m (buf + of_nat (512 * j + k)) = sector_byte (sector (unat lba + j)) k) \<and>
    same_outside (unat buf + 512 * unat i) (512 * n) (ram s) m \<and> drive_idle (s\<lparr>io_log := l, ram := m\<rparr>)"
  using assms
proof (induction n arbitrary: i s)
  case 0
  then show ?case by (intro exI [of _ "io_log s"] exI [of _ "ram s"]) simp
next
  case (Suc n)
  let ?i = "unat i" and ?b = "buf + ucast (i * 512)"
  have i1: "unat (i + 1) = ?i + 1" using Suc.prems(5) by (simp add: unat_word_ariths)
  have i5: "unat (ucast (i * 512) :: u64) = 512 * ?i" using Suc.prems(5) by (simp add: unat_word_ariths)
  then have b: "unat ?b = unat buf + 512 * ?i" using Suc.prems(4) by (simp add: unat_word_ariths)
  have b': "?b \<noteq> 0" "unat ?b + 512 \<le> 2 ^ 64" "?b = buf + of_nat (512 * ?i)"
  proof -
    have "unat buf \<noteq> 0" using Suc.prems(2) by (simp add: unat_eq_zero)
    then have "unat ?b \<noteq> 0" using b by linarith
    then show "?b \<noteq> 0" by (metis unsigned_0)
    show "unat ?b + 512 \<le> 2 ^ 64" using Suc.prems(4) b by simp
    have "of_nat (unat (ucast (i * 512) :: u64)) = (of_nat (512 * ?i) :: u64)" by (simp only: i5)
    then show "?b = buf + of_nat (512 * ?i)" by (simp only: of_nat_unat ucast_id)
  qed
  have "unat (ucast (lba + ucast i) :: u32) = unat lba + ?i"
    using Suc.prems(3) by (simp add: unsigned_ucast_eq unat_word_ariths take_bit_nat_eq_self)
  then have lba: "unat (ucast (lba + ucast i) :: u32) mod 2 ^ 28 = unat lba + ?i"
    using Suc.prems(3) by simp
  from ata_sector_spec [OF Suc.prems(1,6) b'(1,2), of "ucast (lba + ucast i)", unfolded lba] obtain l1 m1 where
    s1: "ata_read_sector28 (ucast (lba + ucast i)) ?b s = Some (True, s\<lparr>io_log := l1, ram := m1\<rparr>)"
    and m1: "\<forall>k < 512. m1 (?b + of_nat k) = sector_byte (sector (unat lba + ?i)) k"
      "same_outside (unat ?b) 512 (ram s) m1" and idle: "drive_idle (s\<lparr>io_log := l1, ram := m1\<rparr>)" by blast
  let ?s = "s\<lparr>io_log := l1, ram := m1\<rparr>"
  have "ata_drive sector (io_in ?s)" using Suc.prems(1) by simp
  from Suc.IH [OF this Suc.prems(2), of "i + 1"] Suc.prems(3-5) i1 idle obtain l m where
    s2: "sectors_loop n lba (i + 1) buf ?s = Some (True, ?s\<lparr>io_log := l, ram := m\<rparr>)"
    and m: "\<And>j k. ?i + 1 \<le> j \<Longrightarrow> j < ?i + 1 + n \<Longrightarrow> k < 512 \<Longrightarrow>
        m (buf + of_nat (512 * j + k)) = sector_byte (sector (unat lba + j)) k"
      "same_outside (unat buf + 512 * (?i + 1)) (512 * n) m1 m" "drive_idle (?s\<lparr>io_log := l, ram := m\<rparr>)" by auto
  have "m (buf + of_nat (512 * ?i + k)) = sector_byte (sector (unat lba + ?i)) k" if k: "k < 512" for k
  proof -
    have a: "unat (buf + of_nat (512 * ?i + k)) = unat buf + (512 * ?i + k)"
      using Suc.prems(4) k by (intro unat_offset [of buf "512 * (?i + Suc n)"]) simp_all
    have "m (buf + of_nat (512 * ?i + k)) = m1 (buf + of_nat (512 * ?i + k))"
      by (rule m(2) [unfolded same_outside_def, rule_format]) (use k in \<open>unfold a, simp\<close>)
    also have "\<dots> = m1 (?b + of_nat k)" unfolding b'(3) by (simp add: add.assoc)
    finally show ?thesis using m1(1) k by simp
  qed
  then have "\<forall>j k. ?i \<le> j \<longrightarrow> j < ?i + Suc n \<longrightarrow> k < 512 \<longrightarrow>
      m (buf + of_nat (512 * j + k)) = sector_byte (sector (unat lba + j)) k"
    using m(1) by (metis add.commute add_Suc_right le_neq_implies_less less_eq_Suc_le plus_1_eq_Suc)
  moreover have "same_outside (unat buf + 512 * ?i) (512 * Suc n) (ram s) m"
    using same_outside_mono [OF m1(2), of "unat buf + 512 * ?i" "512 * Suc n"]
      same_outside_mono [OF m(2), of "unat buf + 512 * ?i" "512 * Suc n"] same_outside_trans b by simp
  ultimately show ?case
    using s1 s2 m(3) by (intro exI [of _ l] exI [of _ m]) simp
qed
subsection \<open>Any device\<close>

definition poll_result :: "nat \<Rightarrow> 'a machine_scheme \<Rightarrow> bool \<times> 'a machine_scheme \<Rightarrow> bool" where
  "poll_result n s r \<longleftrightarrow> (\<exists>q l. r = (q, s\<lparr>io_log := l\<rparr>) \<and> length l \<le> length (io_log s) + n)"

lemma poll_step:
  "poll_result (Suc n) s (q, s\<lparr>io_log := e # io_log s\<rparr>)"
  "poll_result n (s\<lparr>io_log := e # io_log s\<rparr>) r \<Longrightarrow> poll_result (Suc n) s r"
  by (simp add: poll_result_def) (auto simp: poll_result_def)

lemma poll_start: "poll_result 0 s (q, s)"
  unfolding poll_result_def by (intro exI [of _ q] exI [of _ "io_log s"]) simp

lemma ready_loop_any: "poll_result n s (ready_loop n s)"
  by (induction n arbitrary: s) (auto simp: inb_def Let_def poll_step(1) poll_start intro: poll_step(2))

lemma drq_loop_any: "poll_result n s (drq_loop n s)"
  by (induction n arbitrary: s) (auto simp: inb_def Let_def poll_step(1) poll_start intro: poll_step(2))

lemma read_words_any:
  "\<exists>l m. for_up 0 256 (read_word buffer) s = s\<lparr>io_log := l, ram := m\<rparr> \<and> length l = length (io_log s) + 256"
proof -
  have "unat (256 :: u64) \<le> 256 \<and> (\<exists>l m. for_up 0 256 (read_word buffer) s = s\<lparr>io_log := l, ram := m\<rparr> \<and>
      length l = length (io_log s) + unat (256 :: u64))"
  proof (rule for_up_rule [where P = "\<lambda>i t. unat (i :: u64) \<le> 256 \<and> (\<exists>l m. t = s\<lparr>io_log := l, ram := m\<rparr> \<and>
      length l = length (io_log s) + unat i)"])
    show "unat (0 :: u64) \<le> 256 \<and> (\<exists>l m. s = s\<lparr>io_log := l, ram := m\<rparr> \<and> length l = length (io_log s) + unat (0 :: u64))"
      by (auto intro!: exI [of _ "io_log s"] exI [of _ "ram s"])
    fix i :: u64 and t
    assume i: "i < 256" and "unat i \<le> 256 \<and> (\<exists>l m. t = s\<lparr>io_log := l, ram := m\<rparr> \<and> length l = length (io_log s) + unat i)"
    then show "unat (i + 1) \<le> 256 \<and> (\<exists>l m. read_word buffer i t = s\<lparr>io_log := l, ram := m\<rparr> \<and>
        length l = length (io_log s) + unat (i + 1))"
    proof (elim conjE exE, intro conjI)
      fix l m
      assume t: "t = s\<lparr>io_log := l, ram := m\<rparr>" "length l = length (io_log s) + unat i"
      show "unat (i + 1) \<le> 256" using less_inc_le [OF i] i by (simp add: word_less_nat_alt)
      show "\<exists>l m. read_word buffer i t = s\<lparr>io_log := l, ram := m\<rparr> \<and> length l = length (io_log s) + unat (i + 1)"
        unfolding t(1) read_word_def inw_def using less_inc_le [OF i] t(2)
        by (intro exI [of _ "Inw ATA_PRIMARY_DATA # l"] 
            exI [of _ "store16 (buffer + 2 * i) (ucast (io_in s l (Inw ATA_PRIMARY_DATA))) m"]) simp
    qed
  qed simp
  then show ?thesis by simp
qed

lemma prints_sector: "sint v \<noteq> - (2 ^ 31) \<Longrightarrow> prints ''ATA: Error reading sector %d\<newline>'' [AInt v]"
  using length_dec_text [of v] by (simp add: prints_def str_def)

lemma ata_read_any:
  assumes "\<not> fb_lock (con s)" "sint lba \<noteq> - (2 ^ 31)"
  shows "\<exists>ok s'. ata_read_sector28 lba buffer s = Some (ok, s') \<and> \<not> fb_lock (con s') \<and>
    length (io_log s') \<le> length (io_log s) + 2000271 \<and> (\<not> ok \<longrightarrow> ram s' = ram s) \<and>
    s' = s\<lparr>con := con s', ram := ram s', io_log := io_log s'\<rparr>"
proof (cases "buffer = 0")
  case True
  then show ?thesis using assms(1) by (intro exI [of _ False] exI [of _ s]) (simp add: ata_read_sector28_def)
next
  case False
  obtain r l1 where r: "ata_wait_ready s = (r, s\<lparr>io_log := l1\<rparr>)" "length l1 \<le> length (io_log s) + 1000000"
    using ready_loop_any [of ATA_POLL_LIMIT s] by (auto simp: ata_wait_ready_def ATA_POLL_LIMIT_def poll_result_def)
  obtain l2 where l2: "ata_command lba (s\<lparr>io_log := l1\<rparr>) = s\<lparr>io_log := l2\<rparr>" "length l2 = length l1 + 15"
    by (simp add: ata_command_def outb_def ata_io_wait_def inb_def Let_def)
  obtain q l3 where q: "ata_wait_drq (s\<lparr>io_log := l2\<rparr>) = (q, s\<lparr>io_log := l3\<rparr>)" "length l3 \<le> length l2 + 1000000"
    using drq_loop_any [of ATA_POLL_LIMIT "s\<lparr>io_log := l2\<rparr>"] by (auto simp: ata_wait_drq_def ATA_POLL_LIMIT_def poll_result_def)
  let ?t = "s\<lparr>io_log := l3\<rparr>"
  obtain c where c: "kprintf ''ATA: Error reading sector %d\<newline>'' 0xFF0000 [AInt lba] ?t = Some (?t\<lparr>con := c\<rparr>)"
    "\<not> fb_lock c"
    using kprintf_prints [OF prints_sector [OF assms(2)], of ?t] assms(1) by auto
  obtain l m where w: "for_up 0 256 (read_word buffer) ?t = ?t\<lparr>io_log := l, ram := m\<rparr>" "length l = length l3 + 256"
    using read_words_any [of buffer ?t] by auto
  show ?thesis
    using False assms(1) r l2 q c w
    by (intro exI [of _ "r \<and> q"]) (cases r; cases q; simp add: ata_read_sector28_def)
qed


subsection \<open>Properties\<close>

text \<open>
  C25. Reading sectors from a drive delivers exactly its sectors: the request returns 1, byte
  \<open>k\<close> of the \<open>j\<close>-th sector read is that of the drive's sector \<open>lba + j\<close>, and no byte of
  memory outside the buffer changes, and the drive is left idle. The sector numbers have to be below \<open>2 ^ 28\<close> and the
  request below 4 GiB.
\<close>

theorem ata_block_read_sectors:
  assumes "ata_drive sector (io_in s)" and "drive_idle s" and "buf \<noteq> 0" and "unat lba + unat count \<le> 2 ^ 28"
    and "unat buf + 512 * unat count \<le> 2 ^ 64" and "512 * unat count < 2 ^ 32"
  shows "\<exists>s'. ata_block_read lba count buf s = Some (True, s') \<and>
    (\<forall>j k. j < unat count \<longrightarrow> k < 512 \<longrightarrow>
      ram s' (buf + of_nat (512 * j + k)) = sector_byte (sector (unat lba + j)) k) \<and>
    same_outside (unat buf) (512 * unat count) (ram s) (ram s') \<and> drive_idle s'"
  using sectors_loop_spec [of sector s buf lba 0 "unat count"] assms
  by (auto simp: ata_block_read_def)

text \<open>A drive that is busy for one poll after each command; word \<open>k\<close> of sector \<open>n\<close> is \<open>n + k\<close>.\<close>

fun sample_phase :: "io_event list \<Rightarrow> ata_phase" where
  "sample_phase [] = Idle"
| "sample_phase (e # l) = drive_step (sample_phase l) l e
     (case sample_phase l of Preparing n \<Rightarrow> if polls l = 0 then 0x80 else 0x58 | Data n k \<Rightarrow> 0x58 | _ \<Rightarrow> 0x50)"

definition sample_io :: "io_event list \<Rightarrow> io_event \<Rightarrow> u32" where
  "sample_io l e = (case e of
     Inw p \<Rightarrow> (case sample_phase l of Data n k \<Rightarrow> ucast (of_nat (n + k) :: u16) | _ \<Rightarrow> 0)
   | _ \<Rightarrow> (case sample_phase l of Preparing n \<Rightarrow> if polls l = 0 then 0x80 else 0x58 | Data n k \<Rightarrow> 0x58 | _ \<Rightarrow> 0x50))"

lemma drive_step_answer: "(\<And>p. e \<noteq> Inb p) \<Longrightarrow> drive_step ph l e x = drive_step ph l e y"
  by (cases e) auto

lemma sample_phase: "drive_phase sample_io l = sample_phase l"
proof (induction l)
  case (Cons e l)
  show ?case
  proof (cases "\<exists>p. e = Inb p")
    case True
    with Cons show ?thesis by (auto simp: sample_io_def)
  next
    case False
    with Cons drive_step_answer show ?thesis by simp
  qed
qed simp

lemma sample_drive: "ata_drive (\<lambda>n k. of_nat (n + k)) sample_io"
proof -
  have u: "(ucast (ucast x :: u32) :: u16) = x" for x :: u16
    by (rule bit_word_eqI) (auto simp: bit_simps)
  have lim: "\<not> ATA_POLL_LIMIT \<le> Suc 0" by (simp add: ATA_POLL_LIMIT_def)
  have "drive_status_ok (sample_phase l) (polls l) (ucast (sample_io l (Inb ATA_PRIMARY_COMMAND_STAT)))" for l
    using lim by (cases "sample_phase l") (auto simp: drive_status_ok_def sample_io_def good_status_def ata_bits)
  then show ?thesis by (auto simp: ata_drive_def sample_phase sample_io_def u simp del: of_nat_add)
qed

lemma sample_idle: "drive_idle (machine_zero\<lparr>io_in := io\<rparr>)"
  by (simp add: drive_idle_def machine_zero_def machine.defs sched.defs)

lemma ata_block_read_sectors_witness:
  "\<exists>s'. ata_block_read 7 2 0x8000 (machine_zero\<lparr>io_in := sample_io\<rparr>) = Some (True, s') \<and>
    ram s' (0x8000 + of_nat (512 * 1 + 4)) = 10"
proof -
  obtain s' where s': "ata_block_read 7 2 0x8000 (machine_zero\<lparr>io_in := sample_io\<rparr>) = Some (True, s')"
    and b: "\<And>j k. j < 2 \<Longrightarrow> k < 512 \<Longrightarrow>
      ram s' (0x8000 + of_nat (512 * j + k)) = sector_byte (\<lambda>k. of_nat (7 + j + k)) k"
    using ata_block_read_sectors [of "\<lambda>n k. of_nat (n + k)" "machine_zero\<lparr>io_in := sample_io\<rparr>" "0x8000" 7 2]
      sample_drive sample_idle by auto
  with b [of 1 4] show ?thesis by (auto simp: sector_byte_def)
qed

text \<open>
  C26. Whatever the device answers, reading a sector returns, after at most two million
  polls, and when it returns 0 no byte of memory has changed. The one exception is the sector
  number \<open>2 ^ 31\<close>, which the error message cannot print.
\<close>

theorem ata_read_sector28_returns:
  assumes "\<not> fb_lock (con s)" "sint lba \<noteq> - (2 ^ 31)"
  shows "\<exists>ok s'. ata_read_sector28 lba buffer s = Some (ok, s') \<and>
    length (io_log s') \<le> length (io_log s) + 2000271 \<and> (\<not> ok \<longrightarrow> ram s' = ram s)"
  using ata_read_any [OF assms, of buffer] by blast

lemma ata_read_sector28_returns_witness:
  "\<exists>ok s'. ata_read_sector28 5 0x8000 machine_zero = Some (ok, s') \<and> (\<not> ok \<longrightarrow> ram s' = ram machine_zero)"
proof -
  have "\<not> fb_lock (con machine_zero)" by (simp add: machine_zero_heap(7) small_console_ok)
  from ata_read_sector28_returns [OF this, of 5 "0x8000"] show ?thesis by auto
qed

text \<open>With no drive the status reads 0 and no command is sent.\<close>

lemma ata_no_drive:
  assumes "ucast (io_in s (io_log s) (Inb ATA_PRIMARY_COMMAND_STAT)) = (0 :: u8)" "buffer \<noteq> 0"
  shows "ata_read_sector28 lba buffer s =
    Some (False, s\<lparr>io_log := Inb ATA_PRIMARY_COMMAND_STAT # io_log s\<rparr>)"
proof -
  have L: "ATA_POLL_LIMIT = Suc 999999" by (simp add: ATA_POLL_LIMIT_def)
  have "ata_wait_ready s = (False, s\<lparr>io_log := Inb ATA_PRIMARY_COMMAND_STAT # io_log s\<rparr>)"
    unfolding ata_wait_ready_def L ready_loop.simps inb_def using assms(1) by simp
  with assms(2) show ?thesis by (simp add: ata_read_sector28_def)
qed

end
