(* ===== verification/Block.thy ===== *)
theory Block
  imports Initramfs Ata
begin

text \<open>
  The table of block devices, \<open>drivers/storage/block.c\<close>, and the registration of the ATA
  drive (\<open>ata_init\<close> of \<open>ata.c\<close>). A pointer to an entry of the table is its index; a device
  reads through the driver its \<open>read\<close> member names.
\<close>

definition MAX_BLOCK_DEVICES :: nat where "MAX_BLOCK_DEVICES = 16"

datatype block_fn = NULL_BLOCK_FN | ATA_BLOCK_READ

record block_dev =
  bname :: cstring
  sector_size :: u32
  total_sectors :: u64
  start_lba :: u64
  bread :: block_fn
  bwrite :: block_fn
  priv_data :: u64

record blocks = ramfs +
  block_devices :: "nat \<Rightarrow> block_dev"
  num_block_devices :: nat

definition init_block_subsystem :: "'a blocks_scheme \<Rightarrow> 'a blocks_scheme option" where
  "init_block_subsystem s =
     kprintf ''BLOCK: Subsytem initialized.\<newline>'' 0x00FF00 []
       (s\<lparr>num_block_devices := 0,
          block_devices := (\<lambda>i. if i < MAX_BLOCK_DEVICES then (block_devices s i)\<lparr>bname := []\<rparr> else block_devices s i)\<rparr>)"

definition register_block_device :: "block_dev \<Rightarrow> 'a blocks_scheme \<Rightarrow> (int \<times> 'a blocks_scheme) option" where
  "register_block_device dev s =
     (let n = num_block_devices s in
      if n \<ge> MAX_BLOCK_DEVICES then do {
        s1 \<leftarrow> kprintf ''BLOCKL: Max block device limit reached\<newline>'' 0xFF0000 [] s;
        Some (- 1, s1) }
      else do {
        s1 \<leftarrow> kprintf ''BLOCK: Registered block device: %s (Start LBA: %d, Sectors: %d)\<newline>'' 0x00FFFF
          [AStr (bname dev), AInt (ucast (start_lba dev)), AInt (ucast (total_sectors dev))]
          (s\<lparr>block_devices := (block_devices s)(n := dev)\<rparr>);
        Some (int n, s1\<lparr>num_block_devices := num_block_devices s1 + 1\<rparr>) })"

fun find_device :: "(nat \<Rightarrow> block_dev) \<Rightarrow> cstring \<Rightarrow> nat list \<Rightarrow> nat option" where
  "find_device devs name [] = None"
| "find_device devs name (i # is) =
     (if str_cmp (bname (devs i)) name = 0 then Some i else find_device devs name is)"

definition get_block_device :: "cstring \<Rightarrow> 'a blocks_scheme \<Rightarrow> nat option" where
  "get_block_device name s = find_device (block_devices s) name [0..<num_block_devices s]"

definition block_read :: "nat option \<Rightarrow> u64 \<Rightarrow> u32 \<Rightarrow> u64 \<Rightarrow> 'a blocks_scheme \<Rightarrow> (bool \<times> 'a blocks_scheme) option" where
  "block_read dev lba count buf s =
     (case dev of
        None \<Rightarrow> Some (False, s)
      | Some i \<Rightarrow>
          (let absolute_lba = start_lba (block_devices s i) + lba in
           case bread (block_devices s i) of
             NULL_BLOCK_FN \<Rightarrow> Some (False, s)
           | ATA_BLOCK_READ \<Rightarrow> ata_block_read absolute_lba count buf s))"

text \<open>No driver writes: the one function there is in a \<open>write\<close> member is NULL.\<close>

definition block_write :: "nat option \<Rightarrow> u64 \<Rightarrow> u32 \<Rightarrow> u64 \<Rightarrow> 'a blocks_scheme \<Rightarrow> (bool \<times> 'a blocks_scheme) option" where
  "block_write dev lba count buf s =
     (case dev of
        None \<Rightarrow> Some (False, s)
      | Some i \<Rightarrow> if bwrite (block_devices s i) = NULL_BLOCK_FN then Some (False, s) else None)"

definition ata_init :: "'a blocks_scheme \<Rightarrow> 'a blocks_scheme option" where
  "ata_init s = do {
     s1 \<leftarrow> kprintf ''ATA: Initializing Primary ATA Controller...\<newline>'' 0x00FF00 [] s;
     let sda = \<lparr>bname = str ''sda'', sector_size = 512, total_sectors = 131072, start_lba = 0,
       bread = ATA_BLOCK_READ, bwrite = NULL_BLOCK_FN, priv_data = 0\<rparr>;
     (_, s2) \<leftarrow> register_block_device sda s1;
     Some s2 }"


subsection \<open>The table\<close>

definition names_ok :: "'a blocks_scheme \<Rightarrow> bool" where
  "names_ok s \<longleftrightarrow> num_block_devices s \<le> MAX_BLOCK_DEVICES \<and>
     (\<forall>i < num_block_devices s. no_nul (bname (block_devices s i)))"

lemma find_device_find:
  "find_device devs name is = List.find (\<lambda>i. str_cmp (bname (devs i)) name = 0) is"
  by (induction "is") auto

lemma get_block_device_first:
  assumes "names_ok s" "no_nul name"
  shows "get_block_device name s = List.find (\<lambda>i. bname (block_devices s i) = name) [0..<num_block_devices s]"
  unfolding get_block_device_def find_device_find
  by (rule str.find_by_name) (use assms in \<open>auto simp: names_ok_def\<close>)

lemma find_cong: "(\<And>x. x \<in> set xs \<Longrightarrow> P x = Q x) \<Longrightarrow> List.find P xs = List.find Q xs"
  by (induction xs) auto

lemma find_upt_None: "List.find P [0..<n] = None \<longleftrightarrow> (\<forall>i < n. \<not> P i)"
  by (auto simp: find_None_iff)

text \<open>A device whose numbers and name can be printed.\<close>

definition printable :: "block_dev \<Rightarrow> bool" where
  "printable dev \<longleftrightarrow> length (bname dev) < 32 \<and> no_nul (bname dev) \<and>
     sint (ucast (start_lba dev) :: u32) \<noteq> - (2 ^ 31) \<and> sint (ucast (total_sectors dev) :: u32) \<noteq> - (2 ^ 31)"

lemma prints_register:
  "printable dev \<Longrightarrow> prints ''BLOCK: Registered block device: %s (Start LBA: %d, Sectors: %d)\<newline>''
    [AStr (bname dev), AInt (ucast (start_lba dev)), AInt (ucast (total_sectors dev))]"
  by (rule printsI) (auto simp: printable_def str_def)

lemma prints_full: "prints ''BLOCKL: Max block device limit reached\<newline>'' []"
  by (rule printsI) (auto simp: str_def)

definition add_device :: "block_dev \<Rightarrow> 'a blocks_scheme \<Rightarrow> 'a blocks_scheme" where
  "add_device dev s =
     (if num_block_devices s \<ge> MAX_BLOCK_DEVICES then s
      else s\<lparr>block_devices := (block_devices s)(num_block_devices s := dev),
             num_block_devices := num_block_devices s + 1\<rparr>)"

lemma register_add:
  assumes "printable dev" "\<not> fb_lock (con s)"
  shows "\<exists>r s'. register_block_device dev s = Some (r, s') \<and> upto_con (add_device dev s) s' \<and>
    \<not> fb_lock (con s') \<and> r = (if num_block_devices s \<ge> MAX_BLOCK_DEVICES then - 1 else int (num_block_devices s))"
proof (cases "num_block_devices s \<ge> MAX_BLOCK_DEVICES")
  case True
  obtain c where "kprintf ''BLOCKL: Max block device limit reached\<newline>'' 0xFF0000 [] s = Some (s\<lparr>con := c\<rparr>)" "\<not> fb_lock c"
    by (rule kprintf_prints [OF prints_full assms(2)])
  with True show ?thesis by (auto simp: register_block_device_def add_device_def upto_con_def Let_def)
next
  case False
  let ?s = "s\<lparr>block_devices := (block_devices s)(num_block_devices s := dev)\<rparr>"
  obtain c where c: "kprintf ''BLOCK: Registered block device: %s (Start LBA: %d, Sectors: %d)\<newline>'' 0x00FFFF
      [AStr (bname dev), AInt (ucast (start_lba dev)), AInt (ucast (total_sectors dev))] ?s = Some (?s\<lparr>con := c\<rparr>)" "\<not> fb_lock c"
    using kprintf_prints [OF prints_register [OF assms(1)], of ?s] assms(2) by auto
  let ?t = "?s\<lparr>con := c, num_block_devices := Suc (num_block_devices s)\<rparr>"
  have "register_block_device dev s = Some (int (num_block_devices s), ?t)"
    using False c(1) by (simp add: register_block_device_def Let_def)
  moreover have "upto_con (add_device dev s) ?t"
    using False c(2) unfolding upto_con_def by (intro exI [of _ c]) (simp add: add_device_def)
  ultimately show ?thesis using False c(2) by simp
qed

lemma add_device_find:
  assumes "names_ok s" "no_nul (bname dev)" "num_block_devices s < MAX_BLOCK_DEVICES"
    and "get_block_device (bname dev) s = None"
  shows "get_block_device (bname dev) (add_device dev s) = Some (num_block_devices s)"
    "name \<noteq> bname dev \<Longrightarrow> no_nul name \<Longrightarrow> get_block_device name (add_device dev s) = get_block_device name s"
    "names_ok (add_device dev s)"
proof -
  let ?n = "num_block_devices s" and ?s = "add_device dev s"
  have a: "num_block_devices ?s = Suc ?n" "block_devices ?s = (block_devices s)(?n := dev)"
    using assms(3) by (simp_all add: add_device_def)
  show ok: "names_ok ?s"
    using assms(1-3) by (auto simp: names_ok_def a less_Suc_eq)
  have c: "List.find (\<lambda>i. bname (block_devices ?s i) = name) [0..<?n] =
      List.find (\<lambda>i. bname (block_devices s i) = name) [0..<?n]" for name
    by (rule find_cong) (simp add: a)
  show "get_block_device (bname dev) ?s = Some ?n"
    using assms(4) unfolding get_block_device_first [OF ok assms(2)] get_block_device_first [OF assms(1,2)]
    by (simp add: a(1) find_append c) (simp add: a)
  show "get_block_device name ?s = get_block_device name s" if "name \<noteq> bname dev" "no_nul name"
    using that(1) unfolding get_block_device_first [OF ok that(2)] get_block_device_first [OF assms(1) that(2)]
    by (simp add: a(1) find_append c split: option.split) (simp add: a)
qed

lemma upto_con_devices:
  "upto_con s t \<Longrightarrow> block_devices t = block_devices s \<and> num_block_devices t = num_block_devices s \<and>
     ram t = ram s \<and> io_in t = io_in s \<and> io_log t = io_log s"
  by (auto simp: upto_con_def)

lemma get_block_device_cong:
  "block_devices t = block_devices s \<Longrightarrow> num_block_devices t = num_block_devices s \<Longrightarrow>
     get_block_device name t = get_block_device name s"
  by (simp add: get_block_device_def)
subsection \<open>Properties\<close>

lemma register_find:
  assumes "names_ok s" "printable dev" "\<not> fb_lock (con s)" "num_block_devices s < MAX_BLOCK_DEVICES"
    and "get_block_device (bname dev) s = None"
  shows "\<exists>i s'. register_block_device dev s = Some (int i, s') \<and> names_ok s' \<and>
    get_block_device (bname dev) s' = Some i \<and> block_devices s' i = dev \<and>
    (\<forall>name. name \<noteq> bname dev \<and> no_nul name \<longrightarrow> get_block_device name s' = get_block_device name s)"
proof -
  have nn: "no_nul (bname dev)" using assms(2) by (simp add: printable_def)
  from register_add [OF assms(2,3)] assms(4) obtain s' where
    s': "register_block_device dev s = Some (int (num_block_devices s), s')" "upto_con (add_device dev s) s'"
    by auto
  note d = upto_con_devices [OF s'(2)]
  note a = add_device_find [OF assms(1) nn assms(4,5)]
  have g: "get_block_device name s' = get_block_device name (add_device dev s)" for name
    using d get_block_device_cong by blast
  have "names_ok s'" using a(3) d by (simp add: names_ok_def)
  moreover have "block_devices s' (num_block_devices s) = dev"
    using d assms(4) by (simp add: add_device_def)
  ultimately show ?thesis using s'(1) a(1,2) g by (intro exI [of _ "num_block_devices s"] exI [of _ s']) simp
qed

text \<open>
  C27. A device registered under a new name while the table has room is found under that name
  with everything it was registered with, the index returned is its place, and every other
  name still finds what it found before.
\<close>

theorem register_block_device_finds:
  assumes "names_ok s" "printable dev" "\<not> fb_lock (con s)" "num_block_devices s < MAX_BLOCK_DEVICES"
    and "get_block_device (bname dev) s = None"
  shows "\<exists>i s'. register_block_device dev s = Some (int i, s') \<and>
    get_block_device (bname dev) s' = Some i \<and> block_devices s' i = dev \<and>
    (\<forall>name. name \<noteq> bname dev \<and> no_nul name \<longrightarrow> get_block_device name s' = get_block_device name s)"
  using register_find [OF assms] by blast

definition no_device :: block_dev where
  "no_device = \<lparr>bname = [], sector_size = 0, total_sectors = 0, start_lba = 0, bread = NULL_BLOCK_FN,
     bwrite = NULL_BLOCK_FN, priv_data = 0\<rparr>"

definition blocks_zero :: blocks where
  "blocks_zero = ramfs.extend ramfs_zero (blocks.fields (\<lambda>_. no_device) 0)"

lemma blocks_zero_simps:
  "num_block_devices blocks_zero = 0" "block_devices blocks_zero = (\<lambda>_. no_device)"
  "con blocks_zero = small_console" "ram blocks_zero = sample_ram" "ramfs_nodes blocks_zero = []"
  "hdrs blocks_zero = hdrs heap_boot" "head blocks_zero = head heap_boot"
  "heap_end blocks_zero = heap_end heap_boot" "page_count blocks_zero = page_count heap_boot"
  "bitmap blocks_zero = bitmap heap_boot" "bitmap_bytes blocks_zero = bitmap_bytes heap_boot"
  by (simp_all add: blocks_zero_def ramfs.defs blocks.defs ramfs_zero_heap)

lemma blocks_zero_log: "io_log blocks_zero = []"
  by (simp add: blocks_zero_def ramfs.defs blocks.defs ramfs_zero_def devfs.defs devfs_zero_def vnodes.defs
      vnodes_zero_def machine_zero_def zero_defs)

lemma register_block_device_finds_witness:
  "\<exists>i s'. register_block_device (no_device\<lparr>bname := str ''sdb''\<rparr>) blocks_zero = Some (int i, s') \<and>
    get_block_device (str ''sdb'') s' = Some i"
proof -
  have p: "names_ok blocks_zero" "printable (no_device\<lparr>bname := str ''sdb''\<rparr>)"
    "num_block_devices blocks_zero < MAX_BLOCK_DEVICES"
    "get_block_device (bname (no_device\<lparr>bname := str ''sdb''\<rparr>)) blocks_zero = None"
    by (simp_all add: names_ok_def blocks_zero_simps printable_def no_device_def str_def
        MAX_BLOCK_DEVICES_def get_block_device_def)
  have "\<not> fb_lock (con blocks_zero)" by (simp add: blocks_zero_simps small_console_ok)
  from register_block_device_finds [OF p(1,2) this p(3,4)] show ?thesis by (auto simp: no_device_def)
qed

end
