(* ===== verification/Ext2.thy ===== *)
theory Ext2
  imports Block
begin

text \<open>
  Mounting an ext2 file system, \<open>fs/ext2/ext2.c\<close>: the superblock is read and checked and
  its numbers are kept in a structure on the heap. The function has no file system to return
  yet and answers NULL in every case.
\<close>

record ext2_fs =
  e_dev :: nat
  e_block_size :: u32
  e_inode_size :: u32
  e_blocks_count :: u32
  e_inodes_count :: u32
  e_blocks_per_group :: u32
  e_inodes_per_group :: u32
  e_group_count :: u32

record ext2 = blocks +
  ext2_fs_at :: "u64 \<Rightarrow> ext2_fs"

definition sizeof_ext2_fs :: u64 where "sizeof_ext2_fs = 40"

text \<open>The members of \<open>ext2_superblock_t\<close> the code reads, at their offsets in the packed structure.\<close>

definition sb_inodes_count :: "memory \<Rightarrow> u64 \<Rightarrow> u32" where "sb_inodes_count m sb = load32 m sb"
definition sb_blocks_count :: "memory \<Rightarrow> u64 \<Rightarrow> u32" where "sb_blocks_count m sb = load32 m (sb + 4)"
definition sb_log_block_size :: "memory \<Rightarrow> u64 \<Rightarrow> u32" where "sb_log_block_size m sb = load32 m (sb + 24)"
definition sb_blocks_per_group :: "memory \<Rightarrow> u64 \<Rightarrow> u32" where "sb_blocks_per_group m sb = load32 m (sb + 32)"
definition sb_inodes_per_group :: "memory \<Rightarrow> u64 \<Rightarrow> u32" where "sb_inodes_per_group m sb = load32 m (sb + 40)"
definition sb_magic :: "memory \<Rightarrow> u64 \<Rightarrow> u16" where "sb_magic m sb = load16 m (sb + 56)"
definition sb_inode_size :: "memory \<Rightarrow> u64 \<Rightarrow> u16" where "sb_inode_size m sb = load16 m (sb + 88)"

text \<open>A shift by 32 or more is undefined, a division by zero faults.\<close>

definition ext2_numbers :: "nat \<Rightarrow> memory \<Rightarrow> u64 \<Rightarrow> ext2_fs option" where
  "ext2_numbers dev m sb =
     (let bc = sb_blocks_count m sb; bpg = sb_blocks_per_group m sb in
      if sb_log_block_size m sb \<ge> 32 \<or> bpg = 0 then None
      else Some \<lparr>e_dev = dev, e_block_size = push_bit (unat (sb_log_block_size m sb)) 1024,
        e_inode_size = ucast (sb_inode_size m sb), e_blocks_count = bc,
        e_inodes_count = sb_inodes_count m sb, e_blocks_per_group = bpg,
        e_inodes_per_group = sb_inodes_per_group m sb, e_group_count = (bc + bpg - 1) div bpg\<rparr>)"

text \<open>\<open>buf\<close> is the place of the local array.\<close>

definition ext2_mount :: "u64 \<Rightarrow> nat option \<Rightarrow> 'a ext2_scheme \<Rightarrow> (u64 \<times> 'a ext2_scheme) option" where
  "ext2_mount buf dev s =
     (case dev of
        None \<Rightarrow> Some (0, s)
      | Some d \<Rightarrow> do {
          (ok, s1) \<leftarrow> block_read (Some d) 2 2 buf s;
          if \<not> ok then do {
            s2 \<leftarrow> kprintf ''EXT2: Failed to read superblock.\<newline>'' 0xFF0000 [] s1;
            Some (0, s2) }
          else if sb_magic (ram s1) buf \<noteq> 0xEF53 then do {
            s2 \<leftarrow> kprintf ''EXT2: Invalid filesystem magic: 0x%x\<newline>'' 0xFF0000 [AInt (ucast (sb_magic (ram s1) buf))] s1;
            Some (0, s2) }
          else do {
            (fs, s2) \<leftarrow> kmalloc sizeof_ext2_fs s1;
            if fs = 0 then do {
              s3 \<leftarrow> kprintf ''EXT2: Failed to allocate filesystem state.\<newline>'' 0xFF0000 [] s2;
              Some (0, s3) }
            else do {
              e \<leftarrow> ext2_numbers d (ram s2) buf;
              s3 \<leftarrow> say [(''EXT2: Valid filesystem detected.\<newline>'', 0x00FF00, []),
                (''EXT2: Block size: %d bytes\<newline>'', 0x00FFFF, [AInt (e_block_size e)]),
                (''EXT2: Inodes: %d\<newline>'', 0x00FFFF, [AInt (e_inodes_count e)]),
                (''EXT2: Blocks: %d\<newline>'', 0x00FFFF, [AInt (e_blocks_count e)]),
                (''EXT2: Block groups: %d\<newline>'', 0x00FFFF, [AInt (e_group_count e)])]
                (s2\<lparr>ext2_fs_at := (ext2_fs_at s2)(fs := e)\<rparr>);
              Some (0, s3) } } })"

text \<open>Whatever is on the disk, a mount that comes back answers NULL.\<close>

lemma ext2_mount_null: "ext2_mount buf dev s = Some (r, s') \<Longrightarrow> r = 0"
  by (auto simp: ext2_mount_def bind_eq_Some_conv split: option.splits prod.splits if_splits)

text \<open>The number of groups is the number of blocks divided by the group size, rounded up.\<close>

lemma ext2_group_count:
  assumes "ext2_numbers d m sb = Some e"
    and "unat (sb_blocks_count m sb) + unat (sb_blocks_per_group m sb) \<le> 2 ^ 32"
  shows "unat (e_group_count e) =
    (unat (e_blocks_count e) + unat (e_blocks_per_group e) - 1) div unat (e_blocks_per_group e)"
proof -
  let ?c = "sb_blocks_count m sb" and ?g = "sb_blocks_per_group m sb"
  have e: "e_blocks_count e = ?c" "e_blocks_per_group e = ?g" "e_group_count e = (?c + ?g - 1) div ?g" "?g \<noteq> 0"
    using assms(1) by (auto simp: ext2_numbers_def Let_def split: if_splits)
  have g: "0 < unat ?g" using e(4) by (simp add: unat_gt_0)
  have "unat (?c + (?g - 1)) = unat ?c + unat (?g - 1)"
    using assms(2) g by (subst unat_add_lem [symmetric]) (simp add: unat_minus_one e(4))
  then have "unat (?c + ?g - 1) = unat ?c + unat ?g - 1"
    using g by (simp add: unat_minus_one e(4) add_diff_eq)
  then show ?thesis by (simp add: e(1-3) unat_div)
qed

lemma ext2_no_groups: "sb_blocks_per_group m sb = 0 \<Longrightarrow> ext2_numbers d m sb = None"
  by (simp add: ext2_numbers_def)

end
