(* ===== verification/Vfs.thy ===== *)
theory Vfs
  imports Ext2
begin

text \<open>
  The virtual file system, \<open>fs/vfs.c\<close>: resolution of paths, mounting, opening, reading, and
  the list of file system types. The calls through the function pointers of a node go to the
  functions its members name. A path is a C string or NULL (\<open>None\<close>).
\<close>

datatype mount_fn = EXT2_MOUNT

record fs_type =
  fs_name :: cstring
  fs_mount :: mount_fn
  fs_next :: u64

record vfs = ext2 +
  fs_root :: u64
  fs_types_head :: u64
  fs_types :: "u64 \<Rightarrow> fs_type"


subsection \<open>Calls through the members of a node\<close>

text \<open>A member that holds a function of another type, or NULL, is not called.\<close>

definition call_finddir :: "u64 \<Rightarrow> cstring \<Rightarrow> 'a vfs_scheme \<Rightarrow> u64 option" where
  "call_finddir node name s =
     (case finddir (nodes s node) of
        RAMFS_FINDDIR \<Rightarrow> Some (ramfs_finddir node name s)
      | DEVFS_FINDDIR \<Rightarrow> devfs_finddir name s
      | _ \<Rightarrow> None)"

definition call_read :: "u64 \<Rightarrow> u64 \<Rightarrow> u64 \<Rightarrow> u64 \<Rightarrow> 'a vfs_scheme \<Rightarrow> (u64 \<times> 'a vfs_scheme) option" where
  "call_read node buffer size0 offset s =
     (case fread (nodes s node) of
        RAMFS_READ \<Rightarrow> Some (ramfs_read node buffer size0 offset s)
      | _ \<Rightarrow> None)"

text \<open>No function of the kernel is stored in an \<open>open\<close> or \<open>close\<close> member.\<close>

definition call_open :: "u64 \<Rightarrow> u32 \<Rightarrow> 'a vfs_scheme \<Rightarrow> 'a vfs_scheme option" where
  "call_open node flgs s = None"

definition call_close :: "u64 \<Rightarrow> 'a vfs_scheme \<Rightarrow> 'a vfs_scheme option" where
  "call_close node s = None"


subsection \<open>Paths\<close>

text \<open>
  \<open>get_next_token\<close> on the rest of the path from the offset on: the token and the rest behind
  it, or \<open>Some None\<close> for -1. The buffer for the token has 128 characters; a longer one runs
  over it.
\<close>

definition get_next_token :: "cstring \<Rightarrow> (cstring \<times> cstring) option option" where
  "get_next_token path =
     (let p = dropWhile (\<lambda>c. c = SLASH) path in
      if p = [] then Some None
      else
        let token = takeWhile (\<lambda>c. c \<noteq> SLASH) p in
        if length token \<ge> 128 then None
        else Some (Some (token, dropWhile (\<lambda>c. c \<noteq> SLASH) p)))"

lemma get_next_token_shorter:
  "get_next_token path = Some (Some (token, rest)) \<Longrightarrow> length rest < length path"
proof -
  assume g: "get_next_token path = Some (Some (token, rest))"
  define p where "p = dropWhile (\<lambda>c. c = SLASH) path"
  have p: "p \<noteq> []" "rest = dropWhile (\<lambda>c. c \<noteq> SLASH) p"
    using g by (auto simp: get_next_token_def p_def Let_def split: if_splits)
  then have "hd p \<noteq> SLASH" using hd_dropWhile [of "\<lambda>c. c = SLASH" path] by (simp add: p_def)
  then have "length rest < length p" using p
    by (cases p) (auto simp: less_Suc_eq_le length_dropWhile_le)
  also have "length p \<le> length path" by (simp add: p_def length_dropWhile_le)
  finally show ?thesis .
qed

text \<open>The mount point of a node, followed.\<close>

definition follow_mount :: "u64 \<Rightarrow> 'a vfs_scheme \<Rightarrow> u64" where
  "follow_mount node s = (if is_mountpoint (nodes s node) then ptr (nodes s node) else node)"

function path_walk :: "cstring \<Rightarrow> u64 \<Rightarrow> 'a vfs_scheme \<Rightarrow> u64 option" where
  "path_walk path current_node s =
     (case get_next_token path of
        None \<Rightarrow> None
      | Some None \<Rightarrow> Some (if current_node \<noteq> 0 then follow_mount current_node s else 0)
      | Some (Some (token, rest)) \<Rightarrow>
          if current_node = 0 then Some 0
          else
            let node = follow_mount current_node s in
            if node = 0 then Some 0
            else if flags (nodes s node) AND FS_DIRECTORY = 0 then Some 0
            else if finddir (nodes s node) = NULL_FN then Some 0
            else do {
              next_node \<leftarrow> call_finddir node token s;
              if next_node = 0 then Some 0 else path_walk rest next_node s })"
  by pat_completeness auto
termination
  by (relation "measure (\<lambda>(path, _). length path)") (auto dest: get_next_token_shorter)

declare path_walk.simps [simp del]

definition vfs_get_node_by_path :: "cstring option \<Rightarrow> 'a vfs_scheme \<Rightarrow> u64 option" where
  "vfs_get_node_by_path path s =
     (case path of
        None \<Rightarrow> Some 0
      | Some p \<Rightarrow> if cget p 0 \<noteq> SLASH then Some 0 else path_walk p (fs_root s) s)"


subsection \<open>Mounting, opening and reading\<close>

definition vfs_mount :: "u64 \<Rightarrow> u64 \<Rightarrow> 'a vfs_scheme \<Rightarrow> 'a vfs_scheme" where
  "vfs_mount mountpoint target s =
     (if mountpoint = 0 then s
      else set_node mountpoint
        ((nodes s mountpoint)\<lparr>flags := flags (nodes s mountpoint) OR FS_MOUNTPOINT, ptr := target\<rparr>) s)"

definition vfs_open :: "cstring option \<Rightarrow> u32 \<Rightarrow> 'a vfs_scheme \<Rightarrow> (u64 \<times> 'a vfs_scheme) option" where
  "vfs_open path flgs s = do {
     node \<leftarrow> vfs_get_node_by_path path s;
     if node \<noteq> 0 then
       if fopen (nodes s node) \<noteq> NULL_FN then map_option (Pair node) (call_open node flgs s)
       else Some (node, s)
     else Some (0, s) }"

definition vfs_read :: "u64 \<Rightarrow> u64 \<Rightarrow> u64 \<Rightarrow> u64 \<Rightarrow> 'a vfs_scheme \<Rightarrow> (u64 \<times> 'a vfs_scheme) option" where
  "vfs_read node buffer size0 offset s =
     (if node \<noteq> 0 \<and> fread (nodes s node) \<noteq> NULL_FN then call_read node buffer size0 offset s
      else Some (0, s))"

definition vfs_close :: "u64 \<Rightarrow> 'a vfs_scheme \<Rightarrow> 'a vfs_scheme option" where
  "vfs_close node s =
     (if node \<noteq> 0 \<and> fclose (nodes s node) \<noteq> NULL_FN then call_close node s else Some s)"


subsection \<open>File system types\<close>

definition vfs_register_filesystem :: "u64 \<Rightarrow> 'a vfs_scheme \<Rightarrow> 'a vfs_scheme" where
  "vfs_register_filesystem fs s =
     (if fs = 0 then s
      else s\<lparr>fs_types := (fs_types s)(fs := (fs_types s fs)\<lparr>fs_next := fs_types_head s\<rparr>), fs_types_head := fs\<rparr>)"

partial_function (option) find_fs :: "(u64 \<Rightarrow> fs_type) \<Rightarrow> u64 \<Rightarrow> cstring \<Rightarrow> u64 option" where
  "find_fs types fs name =
     (if fs = 0 then Some 0
      else if str_cmp (fs_name (types fs)) name = 0 then Some fs
      else find_fs types (fs_next (types fs)) name)"

declare find_fs.simps [code]

definition vfs_find_filesystem :: "cstring option \<Rightarrow> 'a vfs_scheme \<Rightarrow> u64 option" where
  "vfs_find_filesystem name s =
     (case name of None \<Rightarrow> Some 0 | Some n \<Rightarrow> find_fs (fs_types s) (fs_types_head s) n)"

text \<open>\<open>buf\<close> is the place of the local array of the \<open>mount\<close> function.\<close>

definition vfs_mount_by_name ::
  "u64 \<Rightarrow> cstring \<Rightarrow> cstring option \<Rightarrow> cstring option \<Rightarrow> 'a vfs_scheme \<Rightarrow> (int \<times> 'a vfs_scheme) option" where
  "vfs_mount_by_name buf device_name mount_path fs_type_name s =
     (case get_block_device device_name s of
        None \<Rightarrow> Some (- 1, s)
      | Some dev \<Rightarrow> do {
          fs \<leftarrow> vfs_find_filesystem fs_type_name s;
          if fs = 0 then Some (- 2, s)
          else do {
            (root_node, s1) \<leftarrow> (case fs_mount (fs_types s fs) of EXT2_MOUNT \<Rightarrow> ext2_mount buf (Some dev) s);
            if root_node = 0 then Some (- 3, s1)
            else do {
              mountpoint \<leftarrow> vfs_get_node_by_path mount_path s1;
              if mountpoint = 0 then Some (- 4, s1)
              else Some (0, vfs_mount mountpoint root_node s1) } } })"

text \<open>\<open>ext2_init\<close> of \<open>fs/ext2/ext2.c\<close>; \<open>ext2_fs_type\<close> is the address of the static structure.\<close>

definition ext2_init :: "u64 \<Rightarrow> 'a vfs_scheme \<Rightarrow> 'a vfs_scheme option" where
  "ext2_init ext2_fs_type s =
     kprintf ''EXT2: Filesystem initialized.\<newline>'' 0x00FF00 []
       (vfs_register_filesystem ext2_fs_type
          (s\<lparr>fs_types := (fs_types s)(ext2_fs_type := \<lparr>fs_name = str ''ext2'', fs_mount = EXT2_MOUNT, fs_next = 0\<rparr>)\<rparr>))"


subsection \<open>Paths as lists of components\<close>

text \<open>The components of a path: the longest parts without a slash.\<close>

fun components_from :: "cstring \<Rightarrow> cstring \<Rightarrow> cstring list" where
  "components_from a [] = (if a = [] then [] else [a])"
| "components_from a (c # cs) =
     (if c = SLASH then (if a = [] then components_from [] cs else a # components_from [] cs)
      else components_from (a @ [c]) cs)"

abbreviation components :: "cstring \<Rightarrow> cstring list" where "components \<equiv> components_from []"

text \<open>The reference: each component is looked up in the directory the ones before it lead to.\<close>

definition step_into :: "u64 \<Rightarrow> cstring \<Rightarrow> 'a vfs_scheme \<Rightarrow> u64 option" where
  "step_into node name s =
     (let d = follow_mount node s in
      if d \<noteq> 0 \<and> is_dir (nodes s d) \<and> finddir (nodes s d) \<noteq> NULL_FN then call_finddir d name s else Some 0)"

fun resolve :: "cstring list \<Rightarrow> u64 \<Rightarrow> 'a vfs_scheme \<Rightarrow> u64 option" where
  "resolve names node s =
     (if node = 0 then Some 0
      else case names of [] \<Rightarrow> Some (follow_mount node s)
      | name # rest \<Rightarrow> Option.bind (step_into node name s) (\<lambda>d. resolve rest d s))"

lemma components_from_token:
  "components_from a p = (let t = a @ takeWhile (\<lambda>c. c \<noteq> SLASH) p in
     (if t = [] then [] else [t]) @ components (dropWhile (\<lambda>c. c \<noteq> SLASH) p))"
  by (induction p arbitrary: a) (auto simp: Let_def)

lemma components_skip: "components (dropWhile (\<lambda>c. c = SLASH) p) = components p"
  by (induction p) auto

lemma get_next_token_components:
  assumes "\<forall>c \<in> set (components path). length c < 128"
  shows "get_next_token path =
     (if components path = [] then Some None
      else Some (Some (hd (components path), dropWhile (\<lambda>c. c \<noteq> SLASH) (dropWhile (\<lambda>c. c = SLASH) path))))"
    "components path \<noteq> [] \<Longrightarrow>
     components (dropWhile (\<lambda>c. c \<noteq> SLASH) (dropWhile (\<lambda>c. c = SLASH) path)) = tl (components path)"
proof -
  define p where "p = dropWhile (\<lambda>c. c = SLASH) path"
  have c: "components path = components p" by (simp add: p_def components_skip)
  have p: "p = [] \<or> hd p \<noteq> SLASH" using hd_dropWhile [of "\<lambda>c. c = SLASH" path] by (auto simp: p_def)
  have t: "components p = (let t = takeWhile (\<lambda>c. c \<noteq> SLASH) p in
     (if t = [] then [] else [t]) @ components (dropWhile (\<lambda>c. c \<noteq> SLASH) p))"
    using components_from_token [of "[]" p] by simp
  have "p \<noteq> [] \<Longrightarrow> takeWhile (\<lambda>c. c \<noteq> SLASH) p \<noteq> []" using p by (cases p) auto
  then have u: "p \<noteq> [] \<Longrightarrow> components p = takeWhile (\<lambda>c. c \<noteq> SLASH) p # components (dropWhile (\<lambda>c. c \<noteq> SLASH) p)"
    using t by (simp add: Let_def)
  have "components p = [] \<longleftrightarrow> p = []" using u by (cases "p = []") auto
  then show "get_next_token path =
     (if components path = [] then Some None
      else Some (Some (hd (components path), dropWhile (\<lambda>c. c \<noteq> SLASH) (dropWhile (\<lambda>c. c = SLASH) path))))"
    using u assms by (auto simp: get_next_token_def Let_def c p_def [symmetric])
  show "components path \<noteq> [] \<Longrightarrow>
     components (dropWhile (\<lambda>c. c \<noteq> SLASH) (dropWhile (\<lambda>c. c = SLASH) path)) = tl (components path)"
    using u \<open>components p = [] \<longleftrightarrow> p = []\<close> by (auto simp: c p_def [symmetric])
qed

lemma path_walk_resolve:
  "\<forall>c \<in> set (components path). length c < 128 \<Longrightarrow> path_walk path node s = resolve (components path) node s"
proof (induction path node s rule: path_walk.induct)
  case (1 path node s)
  note g = get_next_token_components [OF 1(2)]
  show ?case
  proof (cases "components path")
    case Nil
    then show ?thesis by (subst path_walk.simps) (simp add: g(1))
  next
    case (Cons c cs)
    let ?r = "dropWhile (\<lambda>c. c \<noteq> SLASH) (dropWhile (\<lambda>c. c = SLASH) path)"
    have t: "get_next_token path = Some (Some (c, ?r))" "components ?r = cs" using g Cons by simp_all
    have "\<forall>c \<in> set (components ?r). length c < 128" using 1(2) Cons t(2) by simp
    with 1(1) [OF t(1) refl refl] have
      ih: "path_walk ?r x s = resolve cs x s" if "node \<noteq> 0" "follow_mount node s \<noteq> 0"
        "is_dir (nodes s (follow_mount node s))" "finddir (nodes s (follow_mount node s)) \<noteq> NULL_FN"
        "call_finddir (follow_mount node s) c s = Some x" "x \<noteq> 0" for x
      using that by (simp add: is_dir_def t(2))
    have w: "path_walk path node s = (if node = 0 then Some 0
        else Option.bind (step_into node c s) (\<lambda>x. if x = 0 then Some 0 else path_walk ?r x s))"
      by (subst path_walk.simps) (simp add: t(1) step_into_def Let_def is_dir_def)
    have "(if x = 0 then Some 0 else path_walk ?r x s) = resolve cs x s"
      if "node \<noteq> 0" "step_into node c s = Some x" for x
      using ih [of x] that by (auto simp: step_into_def Let_def split: if_splits)
    then show ?thesis unfolding w Cons by (cases "node = 0") (auto simp del: resolve.simps simp: resolve.simps [of "c # cs"] intro!: Option.bind_cong)
  qed
qed


subsection \<open>Mount points\<close>

text \<open>The node a path leads to before a mount on it is followed, and the nodes passed on the way.\<close>

fun locate :: "cstring list \<Rightarrow> u64 \<Rightarrow> 'a vfs_scheme \<Rightarrow> u64 option" where
  "locate [] node s = Some node"
| "locate (name # rest) node s =
     (if node = 0 then Some 0 else Option.bind (step_into node name s) (\<lambda>d. locate rest d s))"

fun passed :: "cstring list \<Rightarrow> u64 \<Rightarrow> 'a vfs_scheme \<Rightarrow> u64 set" where
  "passed [] node s = {}"
| "passed (name # rest) node s =
     insert node (case step_into node name s of None \<Rightarrow> {} | Some d \<Rightarrow> passed rest d s)"

declare resolve.simps [simp del]

lemma resolve_simps [simp]:
  "resolve names 0 s = Some 0"
  "node \<noteq> 0 \<Longrightarrow> resolve [] node s = Some (follow_mount node s)"
  "node \<noteq> 0 \<Longrightarrow> resolve (name # rest) node s = Option.bind (step_into node name s) (\<lambda>d. resolve rest d s)"
  by (simp_all add: resolve.simps)

lemma resolve_append: "resolve (xs @ ys) node s = Option.bind (locate xs node s) (\<lambda>d. resolve ys d s)"
proof (induction xs arbitrary: node)
  case (Cons x xs)
  then show ?case by (cases "node = 0") (auto intro!: Option.bind_cong)
qed simp

lemma vfs_mount_lookup:
  assumes "mp \<noteq> 0"
  shows "ramfs_finddir node name (vfs_mount mp t s) = ramfs_finddir node name s"
    "devfs_finddir name (vfs_mount mp t s) = devfs_finddir name s"
    "finddir (nodes (vfs_mount mp t s) node) = finddir (nodes s node)"
    "is_dir (nodes (vfs_mount mp t s) node) = is_dir (nodes s node)"
    "node \<noteq> mp \<Longrightarrow> nodes (vfs_mount mp t s) node = nodes s node"
    "fs_root (vfs_mount mp t s) = fs_root s"
    "follow_mount mp (vfs_mount mp t s) = t"
proof -
  let ?s = "vfs_mount mp t s"
  have v: "vname (nodes ?s p) = vname (nodes s p)" for p
    using assms by (simp add: vfs_mount_def)
  have e: "ramfs_nodes ?s = ramfs_nodes s" "ramfs_root ?s = ramfs_root s" "devices ?s = devices s"
    using assms by (simp_all add: vfs_mount_def)
  have "ramfs_scan (nodes ?s) ps path = ramfs_scan (nodes s) ps path" for ps path
    by (induction ps) (simp_all add: v)
  then show "ramfs_finddir node name ?s = ramfs_finddir node name s"
    by (simp add: ramfs_finddir_def expected_path_def v e)
  have "devfs_scan (nodes ?s) ds name = devfs_scan (nodes s) ds name" for ds
    by (induction ds) (simp_all add: v)
  then show "devfs_finddir name ?s = devfs_finddir name s"
    by (simp add: devfs_finddir_def e)
  have "(FS_MOUNTPOINT AND FS_DIRECTORY) = 0" "(FS_MOUNTPOINT AND FS_MOUNTPOINT) \<noteq> 0"
    by (simp_all add: FS_MOUNTPOINT_def FS_DIRECTORY_def)
  then show "is_dir (nodes ?s node) = is_dir (nodes s node)" "follow_mount mp ?s = t"
    using assms by (simp_all add: vfs_mount_def is_dir_def follow_mount_def is_mountpoint_def
        bit.conj_disj_distrib bit.conj_disj_distrib2 word_bw_comms)
qed (use assms in \<open>simp_all add: vfs_mount_def\<close>)

lemma step_into_mount:
  assumes "mp \<noteq> 0" "node \<noteq> mp"
  shows "follow_mount node (vfs_mount mp t s) = follow_mount node s"
    "step_into node name (vfs_mount mp t s) = step_into node name s"
proof -
  note l = vfs_mount_lookup [OF assms(1)]
  show "follow_mount node (vfs_mount mp t s) = follow_mount node s"
    by (simp add: follow_mount_def vfs_mount_lookup(5) [OF assms])
  moreover have "call_finddir d name (vfs_mount mp t s) = call_finddir d name s" for d
    by (simp add: call_finddir_def l split: node_fn.split)
  ultimately show "step_into node name (vfs_mount mp t s) = step_into node name s"
    by (simp add: step_into_def Let_def l)
qed

lemma locate_mount:
  "mp \<noteq> 0 \<Longrightarrow> mp \<notin> passed names node s \<Longrightarrow> locate names node (vfs_mount mp t s) = locate names node s"
  by (induction names arbitrary: node)
    (auto simp: step_into_mount intro!: Option.bind_cong)

lemma resolve_mount:
  assumes "mp \<noteq> 0" "mp \<notin> passed names node s" "locate names node s \<noteq> Some mp"
  shows "resolve names node (vfs_mount mp t s) = resolve names node s"
proof -
  have r: "resolve names node u = Option.bind (locate names node u) (\<lambda>d. resolve [] d u)" for u :: "'a vfs_scheme"
    using resolve_append [of names "[]"] by simp
  show ?thesis unfolding r locate_mount [OF assms(1,2)]
  proof (intro Option.bind_cong refl)
    fix d
    assume "locate names node s = Some d"
    with assms(3) have "d \<noteq> mp" by auto
    then show "resolve [] d (vfs_mount mp t s) = resolve [] d s"
      by (cases "d = 0") (simp_all add: step_into_mount assms(1))
  qed
qed

lemma components_append: "components_from a (p @ SLASH # q) = components_from a p @ components q"
  by (induction p arbitrary: a) auto

text \<open>Continuing from the target of a mount is the same as continuing from the mount point.\<close>

lemma resolve_target:
  assumes "node \<noteq> 0" "follow_mount node s = t" "t \<noteq> 0" "follow_mount t s = t"
  shows "resolve names node s = resolve names t s"
  using assms by (cases names) (simp_all add: step_into_def)

lemma get_node_resolve:
  assumes "cget p 0 = SLASH" "\<forall>c \<in> set (components p). length c < 128"
  shows "vfs_get_node_by_path (Some p) s = resolve (components p) (fs_root s) s"
  using assms by (simp add: vfs_get_node_by_path_def path_walk_resolve)


subsection \<open>Files of the archive\<close>

fun join :: "cstring list \<Rightarrow> cstring" where
  "join [] = []"
| "join [c] = c"
| "join (c # cs) = c @ SLASH # join cs"

definition child :: "cstring \<Rightarrow> cstring \<Rightarrow> cstring" where
  "child d c = (if d = [] then c else d @ SLASH # c)"

definition regular :: "tar_entry \<Rightarrow> bool" where
  "regular e \<longleftrightarrow> \<not> tar_extension (te_type e) \<and> te_type e \<noteq> 0x35"

text \<open>
  No two entries compete for the name of a file, and no file has the name of a directory on
  the way to another entry.
\<close>

definition archive_ok :: "tar_entry list \<Rightarrow> bool" where
  "archive_ok es \<longleftrightarrow> (\<forall>e \<in> set es. \<forall>e' \<in> set es. regular e \<longrightarrow> \<not> tar_extension (te_type e') \<longrightarrow>
     (tar_match_name (te_name e') (te_name e) \<longrightarrow> e' = e) \<and>
     (\<forall>d \<in> parent_dirs (sanitize_path (te_name e')). \<not> tar_match_name (te_name e) d))"

text \<open>A path without empty components.\<close>

definition plain_path :: "cstring \<Rightarrow> bool" where
  "plain_path n \<longleftrightarrow> n \<noteq> [] \<and> join (components n) = n"

text \<open>The state once an archive is unpacked.\<close>

definition holds_archive :: "tar_entry list \<Rightarrow> 'a ramfs_scheme \<Rightarrow> bool" where
  "holds_archive es s \<longleftrightarrow> ramfs_ok s \<and> (\<forall>e \<in> set es. unpacked e s) \<and>
     (\<forall>p \<in> set (ramfs_nodes s). sourced (ram s) es (nodes s p))"

text \<open>A node stands for the directory \<open>d\<close>.\<close>

definition dir_at :: "'a ramfs_scheme \<Rightarrow> cstring \<Rightarrow> u64 \<Rightarrow> bool" where
  "dir_at s d node \<longleftrightarrow> node \<noteq> 0 \<and> flags (nodes s node) = FS_DIRECTORY \<and>
     finddir (nodes s node) = RAMFS_FINDDIR \<and>
     (if d = [] then node = ramfs_root s
      else node \<noteq> ramfs_root s \<and> vname (nodes s node) \<in> {d, d @ [SLASH]})"

lemma components_from_good: "SLASH \<notin> set a \<Longrightarrow> \<forall>c \<in> set (components_from a p). c \<noteq> [] \<and> SLASH \<notin> set c"
proof (induction p arbitrary: a)
  case (Cons x p)
  from Cons.IH [of "[]"] Cons.IH [of "a @ [x]"] Cons.prems show ?case by simp
qed simp

lemma parent_dirs_sanitized: "d \<in> parent_dirs n \<Longrightarrow> sanitize_path n = n \<Longrightarrow> sanitize_path d = d"
proof -
  assume "d \<in> parent_dirs n" and n: "sanitize_path n = n"
  then obtain r where "n = d @ SLASH # r" by (auto simp: parent_dirs_def)
  then have "d = take (length d) n" by simp
  with n show ?thesis by (metis sanitize_take)
qed

lemma ramfs_scan_first:
  assumes "\<exists>p \<in> set ps. tar_match_name (vname (ns p)) path" "0 \<notin> set ps"
  shows "ramfs_scan ns ps path \<in> set ps \<and> tar_match_name (vname (ns (ramfs_scan ns ps path))) path"
  using assms by (induction ps) auto

lemma last_child: "c \<noteq> [] \<Longrightarrow> SLASH \<notin> set c \<Longrightarrow> child d c \<noteq> [] \<and> last (child d c) \<noteq> SLASH"
  using last_in_set [of c] by (auto simp: child_def simp del: last_in_set)

text \<open>A lookup in a directory finds an entry with the path put together from both names.\<close>

lemma dir_step:
  fixes s :: "'a vfs_scheme"
  assumes h: "holds_archive es s" and d: "dir_at s d node" "d \<noteq> [] \<Longrightarrow> last d \<noteq> SLASH"
    and e: "has_entry s (child d c)" and l: "length (child d c) < 128"
  obtains p where "p \<in> set (ramfs_nodes s)" "p \<noteq> 0" "p \<noteq> ramfs_root s" "step_into node c s = Some p"
    "tar_match_name (vname (nodes s p)) (child d c)"
proof -
  have "expected_path node c s = child d c"
    using d l by (auto simp: expected_path_def dir_at_def child_def Let_def split: if_splits)
  moreover have "0 \<notin> set (ramfs_nodes s)" "ramfs_root s \<notin> set (ramfs_nodes s)"
    using h by (auto simp: holds_archive_def ramfs_ok_def live_at_def)
  moreover have "FS_DIRECTORY AND FS_DIRECTORY \<noteq> 0" "FS_DIRECTORY AND FS_MOUNTPOINT = 0"
    by (simp_all add: FS_DIRECTORY_def FS_MOUNTPOINT_def)
  then have "step_into node c s = Some (ramfs_finddir node c s)"
    using d(1) by (simp add: step_into_def follow_mount_def is_mountpoint_def is_dir_def call_finddir_def dir_at_def)
  moreover have "\<exists>p \<in> set (ramfs_nodes s). tar_match_name (vname (nodes s p)) (child d c)"
    using e by (simp add: has_entry_def)
  ultimately show thesis
    using ramfs_scan_first [of "ramfs_nodes s" "nodes s" "child d c"] that
    by (metis ramfs_finddir_def)
qed

text \<open>What is found under the name of a directory on the way to an entry is a directory.\<close>

lemma found_dir:
  assumes ok: "archive_ok es" "e \<in> set es" "\<not> tar_extension (te_type e)"
    and d: "d \<in> parent_dirs (sanitize_path (te_name e))" "last d \<noteq> SLASH"
    and v: "sourced m es v" "tar_match_name (vname v) d"
  shows "flags v = FS_DIRECTORY \<and> finddir v = RAMFS_FINDDIR \<and> vname v \<in> {d, d @ [SLASH]}"
proof -
  have sd: "sanitize_path d = d" "d \<noteq> []"
    using parent_dirs_sanitized [OF d(1)] d(1) by (auto simp: parent_dirs_def)
  from v(1) obtain e' where e': "e' \<in> set es" "\<not> tar_extension (te_type e')"
    "entry_node m e' v \<or> (\<exists>d' \<in> parent_dirs (sanitize_path (te_name e')). v = dir_node d')"
    by (auto simp: sourced_def)
  have sv: "sanitize_path (vname v) = vname v"
    using e'(3) parent_dirs_sanitized by (auto simp: entry_node_def dir_node_def)
  have "vname v = d \<or> vname v = d @ [SLASH]"
    using v(2) d(2) by (auto simp: tar_match_name_iff sd(1) sv)
  moreover have "flags v = FS_DIRECTORY \<and> finddir v = RAMFS_FINDDIR"
  proof (cases "entry_node m e' v")
    case True
    then have "tar_match_name (te_name e') d" using v(2) by (simp add: entry_node_def tar_match_name_iff)
    then have "\<not> regular e'" using ok e'(1) d(1) unfolding archive_ok_def by blast
    with True e'(2) show ?thesis by (simp add: regular_def entry_node_def)
  qed (use e'(3) in \<open>auto simp: dir_node_def\<close>)
  ultimately show ?thesis by auto
qed

text \<open>What is found under the name of a file is its node.\<close>

lemma found_file:
  assumes ok: "archive_ok es" "e \<in> set es" "regular e"
    and v: "sourced m es v" "tar_match_name (vname v) (sanitize_path (te_name e))"
  shows "entry_node m e v"
proof -
  from v(1) obtain e' where e': "e' \<in> set es" "\<not> tar_extension (te_type e')"
    "entry_node m e' v \<or> (\<exists>d' \<in> parent_dirs (sanitize_path (te_name e')). v = dir_node d')"
    by (auto simp: sourced_def)
  show ?thesis
  proof (cases "entry_node m e' v")
    case True
    then have "tar_match_name (te_name e') (te_name e)" using v(2) by (simp add: entry_node_def tar_match_name_iff)
    with ok e' True show ?thesis unfolding archive_ok_def by blast
  next
    case False
    with e'(3) obtain d' where d': "d' \<in> parent_dirs (sanitize_path (te_name e'))" "v = dir_node d'" by blast
    with v(2) have "tar_match_name (te_name e) d'" by (auto simp: dir_node_def tar_match_name_iff)
    with ok e'(1,2) d'(1) show ?thesis unfolding archive_ok_def by blast
  qed
qed

lemma join_child: "xs \<noteq> [] \<Longrightarrow> child d (join (c # xs)) = child (child d c) (join xs)" if "c \<noteq> []"
  using that by (cases xs) (auto simp: child_def)

lemma walk_to_file:
  fixes s :: "'a vfs_scheme"
  assumes h: "holds_archive es s" and ok: "archive_ok es" "e \<in> set es" "regular e"
    and l: "length (te_name e) < 128"
  shows "xs \<noteq> [] \<Longrightarrow> \<forall>c \<in> set xs. c \<noteq> [] \<and> SLASH \<notin> set c \<Longrightarrow> dir_at s d node \<Longrightarrow> (d \<noteq> [] \<Longrightarrow> last d \<noteq> SLASH) \<Longrightarrow>
    sanitize_path (te_name e) = child d (join xs) \<Longrightarrow>
    \<exists>p \<in> set (ramfs_nodes s). p \<noteq> 0 \<and> resolve xs node s = Some p \<and> entry_node (ram s) e (nodes s p)"
proof (induction xs arbitrary: d node)
  case (Cons c xs)
  let ?n = "sanitize_path (te_name e)"
  have n: "length ?n < 128" using length_sanitize [of "te_name e"] l by simp
  have c: "c \<noteq> []" "SLASH \<notin> set c" using Cons.prems(2) by simp_all
  have ext: "\<not> tar_extension (te_type e)" using ok(3) by (simp add: regular_def)
  have u: "unpacked e s" using h ok(2) by (simp add: holds_archive_def)
  have node: "node \<noteq> 0" using Cons.prems(3) by (simp add: dir_at_def)
  show ?case
  proof (cases "xs = []")
    case True
    then have nc: "?n = child d c" using Cons.prems(5) by simp
    have "has_entry s (child d c)"
      using u ext unfolding unpacked_def has_entry_def entry_node_def nc by (metis tar_match_refl)
    from dir_step [OF h Cons.prems(3,4) this] n nc obtain p where p: "p \<in> set (ramfs_nodes s)" "p \<noteq> 0"
      "step_into node c s = Some p" "tar_match_name (vname (nodes s p)) ?n" by metis
    have "entry_node (ram s) e (nodes s p)"
      using found_file [OF ok] h p(1,4) by (auto simp: holds_archive_def)
    moreover have "follow_mount p s = p"
      using calculation ok(3) by (simp add: entry_node_def follow_mount_def is_mountpoint_def regular_def
          FS_FILE_def FS_MOUNTPOINT_def)
    ultimately show ?thesis using p True node by auto
  next
    case False
    have nc: "?n = child (child d c) (join xs)" using Cons.prems(5) join_child [OF c(1) False] by simp
    have lc: "child d c \<noteq> []" "last (child d c) \<noteq> SLASH" using last_child [OF c] by blast+
    have pd: "child d c \<in> parent_dirs ?n" using lc(1) nc by (auto simp: parent_dirs_def child_def)
    have "has_entry s (child d c)" using u ext pd by (auto simp: unpacked_def)
    moreover have "length (child d c) < 128" using n nc lc(1) by (simp add: child_def split: if_splits)
    ultimately obtain p where p: "p \<in> set (ramfs_nodes s)" "p \<noteq> 0" "p \<noteq> ramfs_root s"
      "step_into node c s = Some p" "tar_match_name (vname (nodes s p)) (child d c)"
      using dir_step [OF h Cons.prems(3,4), of c] by metis
    have "sourced (ram s) es (nodes s p)" using h p(1) by (simp add: holds_archive_def)
    from found_dir [OF ok(1,2) ext pd lc(2) this p(5)] have "dir_at s (child d c) p"
      using p(2,3) lc(1) by (simp add: dir_at_def)
    from Cons.IH [OF False _ this _ nc] Cons.prems(2) lc(2) p(4) node show ?thesis by auto
  qed
qed simp

lemma components_plain:
  assumes "plain_path n"
  shows "components (SLASH # n) = components n" "components n \<noteq> []"
    "\<forall>c \<in> set (components n). c \<noteq> [] \<and> SLASH \<notin> set c"
  using assms components_from_good [of "[]"] by (auto simp: plain_path_def)

lemma length_component: "c \<in> set (components_from a p) \<Longrightarrow> length c \<le> length a + length p"
proof (induction p arbitrary: a)
  case (Cons x p)
  from Cons.IH [of "[]"] Cons.IH [of "a @ [x]"] Cons.prems show ?case by (auto split: if_splits)
qed (simp split: if_splits)

lemma file_opens:
  fixes s :: "'a vfs_scheme"
  assumes h: "holds_archive es s" and ok: "archive_ok es" "e \<in> set es" "regular e"
    and l: "length (te_name e) < 100" and pl: "plain_path (sanitize_path (te_name e))"
    and root: "dir_at s [] (fs_root s)"
  shows "\<exists>p. p \<noteq> 0 \<and> vfs_open (Some (SLASH # sanitize_path (te_name e))) flgs s = Some (p, s) \<and>
    entry_node (ram s) e (nodes s p)"
proof -
  let ?n = "sanitize_path (te_name e)"
  note c = components_plain [OF pl]
  have len: "length c < 128" if "c \<in> set (components ?n)" for c
    using length_component [OF that] length_sanitize [of "te_name e"] l by simp
  have "\<exists>p \<in> set (ramfs_nodes s). p \<noteq> 0 \<and> resolve (components ?n) (fs_root s) s = Some p \<and> entry_node (ram s) e (nodes s p)"
    using walk_to_file [OF h ok _ c(2,3) root] l pl by (simp add: child_def plain_path_def)
  then obtain p where p: "p \<noteq> 0" "resolve (components ?n) (fs_root s) s = Some p" "entry_node (ram s) e (nodes s p)"
    by blast
  have "vfs_get_node_by_path (Some (SLASH # ?n)) s = Some p"
    using get_node_resolve [of "SLASH # ?n" s] len p(2) c(1) by simp
  with p show ?thesis by (auto simp: vfs_open_def entry_node_def)
qed

text \<open>The root directory of an archive just unpacked.\<close>

lemma init_initramfs_holds:
  fixes s :: "'a vfs_scheme"
  assumes "tar_at (ram s) a es" and "node_room (Suc MAX_RAMFS_NODES) s" and "ramfs_nodes s = []"
    and i: "init_initramfs a s = Some (root, s')" and full: "\<not> table_full s'"
  shows "holds_archive es (s'\<lparr>fs_root := root\<rparr>)" "dir_at (s'\<lparr>fs_root := root\<rparr>) [] root" "ram s' = ram s"
proof -
  from init_initramfs_spec [OF assms(1-3)] i have root: "root \<noteq> 0" "ramfs_root s' = root"
    "nodes s' root = zero_node\<lparr>flags := FS_DIRECTORY, vname := [SLASH], finddir := RAMFS_FINDDIR\<rparr>"
    and r: "ramfs_ok s'" "ram s' = ram s" "\<forall>p \<in> set (ramfs_nodes s'). sourced (ram s) es (nodes s' p)"
    "\<forall>e \<in> set es. unpacked e s'"
    using full by auto
  show "dir_at (s'\<lparr>fs_root := root\<rparr>) [] root" by (simp add: dir_at_def root)
  have "live_at (s'\<lparr>fs_root := root\<rparr>) q = live_at s' q" for q
    by (simp add: live_at_def heap_cong(1) [of "s'\<lparr>fs_root := root\<rparr>" s'])
  moreover have "node_room n (s'\<lparr>fs_root := root\<rparr>) = node_room n s'" for n
    by (rule node_room_cong) simp_all
  moreover have "has_entry (s'\<lparr>fs_root := root\<rparr>) d = has_entry s' d" for d
    by (simp add: has_entry_def)
  ultimately show "holds_archive es (s'\<lparr>fs_root := root\<rparr>)"
    using r by (simp add: holds_archive_def ramfs_ok_def unpacked_def)
  show "ram s' = ram s" by (rule r)
qed

lemma vfs_read_file:
  fixes s :: "'a vfs_scheme"
  assumes "p \<noteq> 0" "regular e" "entry_node (ram s) e (nodes s p)" "buffer \<noteq> 0"
    and "unat offset + unat size0 < 2 ^ 64"
    and "apart (ptr (nodes s p)) (length (te_data e)) buffer (unat size0)"
  shows "\<exists>m. vfs_read p buffer size0 offset s =
      Some (of_nat (length (take (unat size0) (drop (unat offset) (te_data e)))), s\<lparr>ram := m\<rparr>) \<and>
    bytes_at m buffer (length (take (unat size0) (drop (unat offset) (te_data e)))) =
      take (unat size0) (drop (unat offset) (te_data e))"
proof -
  have f: "file_at (ram s) (nodes s p) (te_data e)" "fread (nodes s p) = RAMFS_READ"
    using assms(2,3) by (simp_all add: file_at_def entry_node_def regular_def)
  from ramfs_read_data [OF assms(1,4) f(1) assms(5,6)] assms(1) f(2) show ?thesis
    by (auto simp: vfs_read_def call_read_def)
qed


subsection \<open>Properties\<close>

text \<open>
  C28. An absolute path, whatever the number of slashes in it, leads to the node that looking
  up its components one after another from the root leads to, mount points followed on the way
  and at the end; a path that is NULL or not absolute leads nowhere.
\<close>

theorem vfs_path_resolves:
  "vfs_get_node_by_path None s = Some 0 \<and>
   (cget p 0 \<noteq> SLASH \<longrightarrow> vfs_get_node_by_path (Some p) s = Some 0) \<and>
   (cget p 0 = SLASH \<and> (\<forall>c \<in> set (components p). length c < 128) \<longrightarrow>
     vfs_get_node_by_path (Some p) s = resolve (components p) (fs_root s) s)"
  using get_node_resolve [of p s] by (simp add: vfs_get_node_by_path_def)

definition vfs_zero :: vfs where
  "vfs_zero = ext2.extend (blocks.extend blocks_zero (ext2.fields (\<lambda>_. \<lparr>e_dev = 0, e_block_size = 0,
      e_inode_size = 0, e_blocks_count = 0, e_inodes_count = 0, e_blocks_per_group = 0,
      e_inodes_per_group = 0, e_group_count = 0\<rparr>)))
    (vfs.fields 0 0 (\<lambda>_. \<lparr>fs_name = [], fs_mount = EXT2_MOUNT, fs_next = 0\<rparr>))"

lemma vfs_zero_simps:
  "ram vfs_zero = sample_ram" "ramfs_nodes vfs_zero = []" "con vfs_zero = small_console"
  "hdrs vfs_zero = hdrs heap_boot" "head vfs_zero = head heap_boot"
  "heap_end vfs_zero = heap_end heap_boot" "page_count vfs_zero = page_count heap_boot"
  "bitmap vfs_zero = bitmap heap_boot" "bitmap_bytes vfs_zero = bitmap_bytes heap_boot"
  by (simp_all add: vfs_zero_def blocks.defs ext2.defs vfs.defs blocks_zero_simps)

text \<open>A directory of devices mounted on a directory below the root.\<close>

definition dev_tree :: vfs where
  "dev_tree = vfs_zero\<lparr>fs_root := 0x100, ramfs_root := 0x100, ramfs_nodes := [0x200], devices := [0x400],
     nodes := (\<lambda>_. zero_node)
       (0x100 := dir_node [SLASH], 0x200 := dir_node (str ''dev''),
        0x300 := zero_node\<lparr>flags := FS_DIRECTORY, finddir := DEVFS_FINDDIR\<rparr>,
        0x400 := zero_node\<lparr>vname := str ''fb0''\<rparr>)\<rparr>"

lemma vfs_path_resolves_witness:
  "vfs_get_node_by_path (Some (str ''//dev/'')) dev_tree = resolve [str ''dev''] 0x100 dev_tree \<and>
   vfs_get_node_by_path (Some (str ''dev'')) dev_tree = Some 0"
proof -
  have "cget (str ''//dev/'') 0 = SLASH" "components (str ''//dev/'') = [str ''dev'']" "cget (str ''dev'') 0 \<noteq> SLASH"
    by (simp_all add: str_def)
  moreover have "length (str ''dev'') < 128" by (simp add: str_def)
  moreover have "fs_root dev_tree = 0x100" by (simp add: dev_tree_def)
  ultimately show ?thesis
    using vfs_path_resolves [where p = "str ''dev''" and s = dev_tree]
      vfs_path_resolves [where p = "str ''//dev/''" and s = dev_tree] by simp
qed

lemma mounted_paths:
  assumes "locate (components p) (fs_root s) s = Some mp" "mp \<noteq> 0" "mp \<notin> passed (components p) (fs_root s) s"
    and "target \<noteq> 0" "follow_mount target s = target" "target \<noteq> mp"
    and "cget p 0 = SLASH" "\<forall>c \<in> set (components p). length c < 128"
  shows "vfs_get_node_by_path (Some p) (vfs_mount mp target s) = Some target"
    "\<forall>c \<in> set (components q). length c < 128 \<Longrightarrow> vfs_get_node_by_path (Some (p @ SLASH # q)) (vfs_mount mp target s) =
       resolve (components q) target (vfs_mount mp target s)"
    "cget q 0 = SLASH \<Longrightarrow> \<forall>c \<in> set (components q). length c < 128 \<Longrightarrow> mp \<notin> passed (components q) (fs_root s) s \<Longrightarrow>
       locate (components q) (fs_root s) s \<noteq> Some mp \<Longrightarrow>
       vfs_get_node_by_path (Some q) (vfs_mount mp target s) = vfs_get_node_by_path (Some q) s"
proof -
  let ?s = "vfs_mount mp target s"
  note l = vfs_mount_lookup [OF assms(2), where t = target and s = s]
  have ft: "follow_mount target ?s = target"
    using step_into_mount(1) [OF assms(2,6), where t = target and s = s] assms(5) by simp
  have r: "resolve (components p @ cs) (fs_root s) ?s = resolve cs target ?s" for cs
    using resolve_target [OF assms(2) l(7) assms(4) ft]
    by (simp add: resolve_append locate_mount [OF assms(2,3)] assms(1))
  show "vfs_get_node_by_path (Some p) ?s = Some target"
    using r [of "[]"] assms(4,7,8) ft by (simp add: get_node_resolve l(6))
  show "vfs_get_node_by_path (Some (p @ SLASH # q)) ?s = resolve (components q) target ?s"
    if "\<forall>c \<in> set (components q). length c < 128"
  proof -
    have "cget (p @ SLASH # q) 0 = SLASH" using assms(7) by (cases p) simp_all
    then show ?thesis
      using that assms(8) r by (subst get_node_resolve) (auto simp: components_append l(6))
  qed
  show "vfs_get_node_by_path (Some q) ?s = vfs_get_node_by_path (Some q) s"
    if "cget q 0 = SLASH" "\<forall>c \<in> set (components q). length c < 128" "mp \<notin> passed (components q) (fs_root s) s"
      "locate (components q) (fs_root s) s \<noteq> Some mp"
    using that resolve_mount [OF assms(2) that(3,4)] by (simp add: get_node_resolve l(6))
qed

text \<open>
  C29. After a file system is mounted, every path through the mount point continues from the
  root of the mounted file system, and every path that does not touch the mount point leads
  where it led before.
\<close>

theorem vfs_mount_takes_over:
  assumes "locate (components p) (fs_root s) s = Some mp" "mp \<noteq> 0" "mp \<notin> passed (components p) (fs_root s) s"
    and "target \<noteq> 0" "follow_mount target s = target" "target \<noteq> mp"
    and "cget p 0 = SLASH" "\<forall>c \<in> set (components p). length c < 128" "\<forall>c \<in> set (components q). length c < 128"
  shows "vfs_get_node_by_path (Some p) (vfs_mount mp target s) = Some target \<and>
    vfs_get_node_by_path (Some (p @ SLASH # q)) (vfs_mount mp target s) =
      resolve (components q) target (vfs_mount mp target s) \<and>
    (cget q 0 = SLASH \<and> mp \<notin> passed (components q) (fs_root s) s \<and> locate (components q) (fs_root s) s \<noteq> Some mp \<longrightarrow>
       vfs_get_node_by_path (Some q) (vfs_mount mp target s) = vfs_get_node_by_path (Some q) s)"
  using mounted_paths [OF assms(1-8)] assms(9) by blast

lemma dev_tree_locate: "locate [str ''dev''] 0x100 dev_tree = Some 0x200" "passed [str ''dev''] 0x100 dev_tree = {0x100}"
  by (simp_all add: step_into_def follow_mount_def is_mountpoint_def is_dir_def call_finddir_def ramfs_finddir_def
      expected_path_def tar_match_name_def dev_tree_def dir_node_def zero_node_def FS_DIRECTORY_def FS_MOUNTPOINT_def str_def)

lemma vfs_mount_takes_over_witness:
  "vfs_get_node_by_path (Some (str ''/dev/fb0'')) (vfs_mount 0x200 0x300 dev_tree) =
     resolve [str ''fb0''] 0x300 (vfs_mount 0x200 0x300 dev_tree)"
proof -
  have c: "components (str ''/dev'') = [str ''dev'']" "components (str ''fb0'') = [str ''fb0'']"
    "cget (str ''/dev'') 0 = SLASH" "str ''/dev/fb0'' = str ''/dev'' @ SLASH # str ''fb0''"
    by (simp_all add: str_def)
  have r: "fs_root dev_tree = 0x100" "follow_mount 0x300 dev_tree = 0x300"
    by (simp_all add: dev_tree_def follow_mount_def is_mountpoint_def FS_DIRECTORY_def FS_MOUNTPOINT_def)
  have "locate (components (str ''/dev'')) (fs_root dev_tree) dev_tree = Some 0x200"
    "0x200 \<notin> passed (components (str ''/dev'')) (fs_root dev_tree) dev_tree"
    "\<forall>c \<in> set (components (str ''/dev'')). length c < 128" "\<forall>c \<in> set (components (str ''fb0'')). length c < 128"
    by (simp_all only: c r dev_tree_locate) (simp_all add: str_def)
  from vfs_mount_takes_over [OF this(1) _ this(2) _ r(2) _ c(3) this(3,4)] show ?thesis
    by (simp add: c)
qed

text \<open>
  C30. From the archive to the reader: unpacking an archive that fits the table and has no
  competing names returns a root directory with which every file of the archive can be opened
  under its absolute path, and reading it from any offset returns its bytes.
\<close>

theorem archive_files_read:
  fixes s :: "'a vfs_scheme"
  assumes "tar_at (ram s) a es" "node_room (Suc MAX_RAMFS_NODES) s" "ramfs_nodes s = []"
    and "archive_size es < MAX_RAMFS_NODES" "archive_ok es"
  shows "\<exists>root s'. init_initramfs a s = Some (root, s') \<and>
    (\<forall>e flgs. e \<in> set es \<longrightarrow> regular e \<longrightarrow> plain_path (sanitize_path (te_name e)) \<longrightarrow>
      (\<exists>p. vfs_open (Some (SLASH # sanitize_path (te_name e))) flgs (s'\<lparr>fs_root := root\<rparr>) = Some (p, s'\<lparr>fs_root := root\<rparr>) \<and>
        (\<forall>buffer size0 offset. buffer \<noteq> 0 \<longrightarrow> unat offset + unat size0 < 2 ^ 64 \<longrightarrow>
          apart (ptr (nodes s' p)) (length (te_data e)) buffer (unat size0) \<longrightarrow>
          (\<exists>m. vfs_read p buffer size0 offset (s'\<lparr>fs_root := root\<rparr>) =
              Some (of_nat (length (take (unat size0) (drop (unat offset) (te_data e)))), s'\<lparr>fs_root := root, ram := m\<rparr>) \<and>
            bytes_at m buffer (length (take (unat size0) (drop (unat offset) (te_data e)))) =
              take (unat size0) (drop (unat offset) (te_data e))))))"
proof -
  obtain root s' where i: "init_initramfs a s = Some (root, s')"
    using init_initramfs_spec [OF assms(1-3)] by blast
  have "\<not> table_full s'"
    using init_initramfs_length [OF assms(1,3) i] assms(4) by (simp add: table_full_def)
  note h = init_initramfs_holds [OF assms(1-3) i this]
  let ?t = "s'\<lparr>fs_root := root\<rparr>"
  show ?thesis
  proof (rule exI [of _ root], rule exI [of _ s'], intro conjI i allI impI)
    fix e and flgs :: u32
    assume e: "e \<in> set es" "regular e" "plain_path (sanitize_path (te_name e))"
    have "length (te_name e) < 100" using assms(1) e(1)
      by (induction "ram s" a es rule: tar_at.induct) auto
    from file_opens [OF h(1) assms(5) e(1,2) this e(3)] h(2) obtain p where
      p: "p \<noteq> 0" "vfs_open (Some (SLASH # sanitize_path (te_name e))) flgs ?t = Some (p, ?t)"
      "entry_node (ram ?t) e (nodes ?t p)"
      by auto
    show "\<exists>p. vfs_open (Some (SLASH # sanitize_path (te_name e))) flgs ?t = Some (p, ?t) \<and>
        (\<forall>buffer size0 offset. buffer \<noteq> 0 \<longrightarrow> unat offset + unat size0 < 2 ^ 64 \<longrightarrow>
          apart (ptr (nodes s' p)) (length (te_data e)) buffer (unat size0) \<longrightarrow>
          (\<exists>m. vfs_read p buffer size0 offset ?t =
              Some (of_nat (length (take (unat size0) (drop (unat offset) (te_data e)))), s'\<lparr>fs_root := root, ram := m\<rparr>) \<and>
            bytes_at m buffer (length (take (unat size0) (drop (unat offset) (te_data e)))) =
              take (unat size0) (drop (unat offset) (te_data e))))"
      using p(2) vfs_read_file [OF p(1) e(2) p(3)] by (intro exI [of _ p]) simp
  qed
qed

lemma archive_files_read_witness:
  "\<exists>root s' p. init_initramfs 0x1000 vfs_zero = Some (root, s') \<and>
    vfs_open (Some (str ''/a/b'')) 0 (s'\<lparr>fs_root := root\<rparr>) = Some (p, s'\<lparr>fs_root := root\<rparr>)"
proof -
  have "node_room (Suc MAX_RAMFS_NODES) vfs_zero"
    using heap_boot_node_room [of "Suc MAX_RAMFS_NODES"] node_room_cong [of vfs_zero heap_boot "Suc MAX_RAMFS_NODES"]
    by (simp add: vfs_zero_simps MAX_RAMFS_NODES_def)
  moreover have "tar_at (ram vfs_zero) 0x1000 [sample_entry]" "ramfs_nodes vfs_zero = []"
    using sample_tar by (simp_all add: vfs_zero_simps)
  moreover have n: "sanitize_path (te_name sample_entry) = str ''a/b''" by (simp add: sample_entry_def str_def)
  have "parent_dirs (str ''a/b'') = {str ''a''}"
    by (auto simp: parent_dirs_def str_def Cons_eq_append_conv)
  then have "archive_ok [sample_entry]"
    by (simp add: archive_ok_def n) (simp add: sample_entry_def tar_match_name_def str_def)
  moreover have "archive_size [sample_entry] < MAX_RAMFS_NODES"
    by (simp add: archive_size_def sample_entry_def str_def MAX_RAMFS_NODES_def)
  moreover have "regular sample_entry" by (simp add: regular_def tar_extension_def sample_entry_def)
  moreover have "plain_path (str ''a/b'')" by (simp add: plain_path_def str_def)
  then have "plain_path (sanitize_path (te_name sample_entry))" unfolding n .
  moreover have "sample_entry \<in> set [sample_entry]" by simp
  ultimately have "\<exists>root s'. init_initramfs 0x1000 vfs_zero = Some (root, s') \<and>
    (\<exists>p. vfs_open (Some (SLASH # sanitize_path (te_name sample_entry))) 0 (s'\<lparr>fs_root := root\<rparr>) = Some (p, s'\<lparr>fs_root := root\<rparr>))"
    using archive_files_read [of vfs_zero "0x1000" "[sample_entry]"] by blast
  moreover have "SLASH # str ''a/b'' = str ''/a/b''" by (simp add: str_def)
  ultimately show ?thesis unfolding n by auto
qed

end
