(* ===== verification/Fd.thy ===== *)
theory Fd
  imports Vfs
begin

text \<open>
  Open files and system calls: the table of file descriptors (\<open>fs/fd.c\<close>), \<open>sys_write\<close> with
  its check of user pointers (\<open>drivers/fb.c\<close>), and the system call dispatcher
  (\<open>syscalls/syscalls.c\<close>).
\<close>

definition MAX_OPEN_FILES :: nat where "MAX_OPEN_FILES = 16"

record file_descriptor =
  fd_node :: u64
  fd_offset :: u64
  fd_flags :: u32

definition no_file :: file_descriptor where
  "no_file = \<lparr>fd_node = 0, fd_offset = 0, fd_flags = 0\<rparr>"

record fds = vfs +
  fd_table :: "nat \<Rightarrow> file_descriptor"  \<comment> \<open>indices below \<open>MAX_OPEN_FILES\<close>\<close>


subsection \<open>The table\<close>

definition init_fds :: "'a fds_scheme \<Rightarrow> 'a fds_scheme option" where
  "init_fds s =
     (let s1 = s\<lparr>fd_table := (\<lambda>i. if i < MAX_OPEN_FILES then no_file else fd_table s i)\<rparr> in do {
        fb_node \<leftarrow> vfs_get_node_by_path (Some (str ''/dev/fb0'')) s1;
        if fb_node \<noteq> 0 then
          Some (s1\<lparr>fd_table := (fd_table s1)
            (1 := (fd_table s1 1)\<lparr>fd_node := fb_node, fd_flags := VFS_FLAG_WRITE\<rparr>,
             2 := (fd_table s1 2)\<lparr>fd_node := fb_node, fd_flags := VFS_FLAG_WRITE\<rparr>)\<rparr>)
        else Some s1 })"

fun free_fd :: "(nat \<Rightarrow> file_descriptor) \<Rightarrow> nat list \<Rightarrow> nat option" where
  "free_fd tbl [] = None"
| "free_fd tbl (i # is) = (if fd_node (tbl i) = 0 then Some i else free_fd tbl is)"

definition fd_alloc :: "u64 \<Rightarrow> 'a fds_scheme \<Rightarrow> int \<times> 'a fds_scheme" where
  "fd_alloc node s =
     (case free_fd (fd_table s) [0..<MAX_OPEN_FILES] of
        Some i \<Rightarrow> (int i, s\<lparr>fd_table := (fd_table s)(i := \<lparr>fd_node = node, fd_offset = 0, fd_flags = 0\<rparr>)\<rparr>)
      | None \<Rightarrow> (- 1, s))"

definition fd_get_node :: "int \<Rightarrow> 'a fds_scheme \<Rightarrow> u64" where
  "fd_get_node fd s = (if fd < 0 \<or> fd \<ge> int MAX_OPEN_FILES then 0 else fd_node (fd_table s (nat fd)))"

definition fd_close :: "int \<Rightarrow> 'a fds_scheme \<Rightarrow> 'a fds_scheme" where
  "fd_close fd s =
     (if fd < 0 \<or> fd \<ge> int MAX_OPEN_FILES then s
      else s\<lparr>fd_table := (fd_table s)(nat fd := no_file)\<rparr>)"


subsection \<open>System calls\<close>

definition validate_user_pointer :: "u64 \<Rightarrow> u64 \<Rightarrow> bool" where
  "validate_user_pointer addr size0 \<longleftrightarrow> \<not> (addr + size0 < addr \<or> addr \<ge> 0x0000800000000000)"

text \<open>The call through the \<open>write\<close> member of a node.\<close>

definition call_write :: "u64 \<Rightarrow> u64 \<Rightarrow> u64 \<Rightarrow> u64 \<Rightarrow> 'a fds_scheme \<Rightarrow> (u64 \<times> 'a fds_scheme) option" where
  "call_write node buffer size0 offset s =
     (case fwrite (nodes s node) of
        FB_VFS_WRITE \<Rightarrow> do {
          (n, c) \<leftarrow> fb_vfs_write (bytes_at (ram s) buffer (unat size0)) (con s);
          Some (n, s\<lparr>con := c\<rparr>) }
      | _ \<Rightarrow> None)"

definition sys_write :: "int \<Rightarrow> u64 \<Rightarrow> u64 \<Rightarrow> 'a fds_scheme \<Rightarrow> (u64 \<times> 'a fds_scheme) option" where
  "sys_write fd buf count s =
     (let node = fd_get_node fd s in
      if node = 0 then Some (- 1, s)
      else if fwrite (nodes s node) = NULL_FN then Some (- 1, s)
      else if \<not> validate_user_pointer buf count then Some (- 1, s)
      else call_write node buf count 0 (s\<lparr>con := (con s)\<lparr>default_fg := 0xFFFFFFF\<rparr>\<rparr>))"

definition sys_read :: "int \<Rightarrow> u64 \<Rightarrow> u64 \<Rightarrow> u64" where
  "sys_read fd buf count = 0"

definition sys_exit :: "bool \<Rightarrow> u64 \<Rightarrow> 'a fds_scheme \<Rightarrow> 'a fds_scheme option" where
  "sys_exit debug status s = do {
     _ \<leftarrow> (if debug then kprintf ''Process exited with status code %d\<newline>'' 0xFF0000 [AInt (ucast status)] s else Some s);
     None }"

text \<open>What the interrupt stubs of \<open>isr.asm\<close> leave on the stack.\<close>

record interrupt_frame =
  rax :: u64  rbx :: u64  rcx :: u64  rdx :: u64  rsi :: u64  rdi :: u64  rbp :: u64
  r8 :: u64  r9 :: u64  r10 :: u64  r11 :: u64  r12 :: u64  r13 :: u64  r14 :: u64  r15 :: u64
  vector :: u64
  error_code :: u64
  rip :: u64
  cs :: u64
  rflags :: u64
  rsp :: u64
  ss :: u64

text \<open>\<open>debug\<close> is the flag of the boot command line.\<close>

definition syscall_handler :: "bool \<Rightarrow> interrupt_frame \<Rightarrow> 'a fds_scheme \<Rightarrow> (interrupt_frame \<times> 'a fds_scheme) option" where
  "syscall_handler debug frame s =
     (if rax frame = 0 then map_option (Pair frame) (sys_exit debug (rdi frame) s)
      else if rax frame = 1 then
        Some (frame\<lparr>rax := sys_read (sint (ucast (rdi frame) :: u32)) (rsi frame) (rdx frame)\<rparr>, s)
      else if rax frame = 2 then do {
        (r, s1) \<leftarrow> sys_write (sint (ucast (rdi frame) :: u32)) (rsi frame) (rdx frame) s;
        Some (frame\<lparr>rax := r\<rparr>, s1) }
      else Some (frame, s))"


subsection \<open>Lemmas\<close>

lemma free_fd_find: "free_fd tbl is = List.find (\<lambda>i. fd_node (tbl i) = 0) is"
  by (induction "is") auto

text \<open>A free slot is clear, as \<open>init_fds\<close> and \<open>fd_close\<close> leave it.\<close>

definition fds_ok :: "'a fds_scheme \<Rightarrow> bool" where
  "fds_ok s \<longleftrightarrow> (\<forall>i < MAX_OPEN_FILES. fd_node (fd_table s i) = 0 \<longrightarrow> fd_table s i = no_file)"

lemma find_upt_least: "List.find P [0..<n] = Some i \<longleftrightarrow> i < n \<and> P i \<and> (\<forall>j < i. \<not> P j)"
proof (induction n)
  case (Suc n)
  have "List.find P [0..<n] = None \<longleftrightarrow> (\<forall>j < n. \<not> P j)" by (rule find_upt_None)
  with Suc show ?case
    by (auto simp: find_append less_Suc_eq split: option.splits)
qed simp

lemma fd_alloc_cases:
  obtains (full) "\<forall>i < MAX_OPEN_FILES. fd_node (fd_table s i) \<noteq> 0" "fd_alloc node s = (- 1, s)"
  | (slot) i where "i < MAX_OPEN_FILES" "fd_node (fd_table s i) = 0" "\<forall>j < i. fd_node (fd_table s j) \<noteq> 0"
      "fd_alloc node s = (int i, s\<lparr>fd_table := (fd_table s)(i := \<lparr>fd_node = node, fd_offset = 0, fd_flags = 0\<rparr>)\<rparr>)"
proof (cases "free_fd (fd_table s) [0..<MAX_OPEN_FILES]")
  case None
  then have "\<forall>i < MAX_OPEN_FILES. fd_node (fd_table s i) \<noteq> 0" by (simp add: free_fd_find find_upt_None)
  moreover have "fd_alloc node s = (- 1, s)" using None by (simp add: fd_alloc_def)
  ultimately show thesis by (rule full)
next
  case (Some i)
  then have "i < MAX_OPEN_FILES" "fd_node (fd_table s i) = 0" "\<forall>j < i. fd_node (fd_table s j) \<noteq> 0"
    by (auto simp: free_fd_find find_upt_least)
  moreover have "fd_alloc node s =
      (int i, s\<lparr>fd_table := (fd_table s)(i := \<lparr>fd_node = node, fd_offset = 0, fd_flags = 0\<rparr>)\<rparr>)"
    using Some by (simp add: fd_alloc_def)
  ultimately show thesis by (rule slot)
qed

lemma fds_keep:
  assumes "fds_ok s"
  shows "fds_ok (snd (fd_alloc node s))" "fds_ok (fd_close fd s)"
proof -
  show "fds_ok (snd (fd_alloc node s))"
    using assms by (cases rule: fd_alloc_cases [of s node]) (auto simp: fds_ok_def, simp add: no_file_def)
  show "fds_ok (fd_close fd s)" using assms by (auto simp: fds_ok_def fd_close_def no_file_def)
qed

lemma fb_write_puts:
  assumes "\<not> fb_lock c"
  shows "fb_vfs_write t c = Some (of_nat (length t), (puts t (default_fg c) c)\<lparr>fb_lock := False, interrupts := True\<rparr>)"
proof -
  have l: "spin_lock c = Some (c\<lparr>fb_lock := True, interrupts := False\<rparr>)"
    using assms by (simp add: spin_lock_def)
  show ?thesis
    by (simp only: fb_vfs_write_def l fold_default Let_def bind.bind_lunit puts_flags spin_unlock_def) simp
qed


subsection \<open>Properties\<close>

text \<open>
  Opening takes the lowest free descriptor, which then stands for the node and no other
  descriptor changes; closing it restores the table. When all descriptors are taken, -1 is
  returned and nothing changes.
\<close>

theorem fd_alloc_close:
  assumes "fds_ok s" "node \<noteq> 0"
  shows "(\<exists>i s'. i < MAX_OPEN_FILES \<and> fd_get_node (int i) s = 0 \<and> (\<forall>j < i. fd_get_node (int j) s \<noteq> 0) \<and>
      fd_alloc node s = (int i, s') \<and> fd_get_node (int i) s' = node \<and>
      (\<forall>fd. fd \<noteq> int i \<longrightarrow> fd_get_node fd s' = fd_get_node fd s) \<and> fd_close (int i) s' = s) \<or>
    (\<forall>i < MAX_OPEN_FILES. fd_get_node (int i) s \<noteq> 0) \<and> fd_alloc node s = (- 1, s)"
proof (cases rule: fd_alloc_cases [of s node])
  case full
  then show ?thesis by (simp add: fd_get_node_def)
next
  case (slot i)
  let ?s = "s\<lparr>fd_table := (fd_table s)(i := \<lparr>fd_node = node, fd_offset = 0, fd_flags = 0\<rparr>)\<rparr>"
  have "fd_table s i = no_file" using assms(1) slot(1,2) by (simp add: fds_ok_def)
  then have "(fd_table s)(i := no_file) = fd_table s" by (metis fun_upd_triv)
  then have "fd_close (int i) ?s = s" using slot(1) by (simp add: fd_close_def)
  moreover have "fd_get_node fd ?s = fd_get_node fd s" if "fd \<noteq> int i" for fd
    using that by (auto simp: fd_get_node_def)
  moreover have "\<forall>j < i. fd_get_node (int j) s \<noteq> 0" using slot(1,3) by (simp add: fd_get_node_def)
  ultimately show ?thesis
    using slot by (intro disjI1 exI [of _ i] exI [of _ ?s]) (simp add: fd_get_node_def)
qed

definition fds_zero :: fds where
  "fds_zero = vfs.extend vfs_zero (fds.fields (\<lambda>_. no_file))"

lemma fds_zero_simps:
  "fd_table fds_zero = (\<lambda>_. no_file)" "con fds_zero = small_console" "ram fds_zero = sample_ram"
  by (simp_all add: fds_zero_def vfs.defs fds.defs vfs_zero_simps)

lemma fd_alloc_close_witness: "\<exists>s'. fd_alloc 8 fds_zero = (0, s') \<and> fd_close 0 s' = fds_zero"
proof -
  have z: "fd_get_node (int i) fds_zero = 0" for i by (simp add: fd_get_node_def fds_zero_simps no_file_def)
  have ok: "fds_ok fds_zero" by (simp add: fds_ok_def fds_zero_simps)
  have "0 < MAX_OPEN_FILES" by (simp add: MAX_OPEN_FILES_def)
  with fd_alloc_close [OF ok, of 8] z have
    "\<exists>i s'. (\<forall>j < i. False) \<and> fd_alloc 8 fds_zero = (int i, s') \<and> fd_close (int i) s' = fds_zero" by auto
  then obtain i s' where i: "\<forall>j < i. False" "fd_alloc 8 fds_zero = (int i, s')" "fd_close (int i) s' = fds_zero" by blast
  have "i = 0" using i(1) by (cases i) auto
  with i(2,3) show ?thesis by auto
qed

lemma syscall_cases:
  "rax frame = 0 \<Longrightarrow> syscall_handler debug frame s = None"
  "rax frame = 1 \<Longrightarrow> syscall_handler debug frame s = Some (frame\<lparr>rax := 0\<rparr>, s)"
  "rax frame \<notin> {0, 1, 2} \<Longrightarrow> syscall_handler debug frame s = Some (frame, s)"
  "rax frame = 2 \<Longrightarrow> node = fd_get_node (sint (ucast (rdi frame) :: u32)) s \<Longrightarrow>
     node = 0 \<or> fwrite (nodes s node) = NULL_FN \<or> rsi frame \<ge> 0x0000800000000000 \<or>
       unat (rsi frame) + unat (rdx frame) \<ge> 2 ^ 64 \<Longrightarrow>
     syscall_handler debug frame s = Some (frame\<lparr>rax := - 1\<rparr>, s)"
  "rax frame = 2 \<Longrightarrow> node = fd_get_node (sint (ucast (rdi frame) :: u32)) s \<Longrightarrow> node \<noteq> 0 \<Longrightarrow>
     fwrite (nodes s node) = FB_VFS_WRITE \<Longrightarrow> rsi frame < 0x0000800000000000 \<Longrightarrow>
     unat (rsi frame) + unat (rdx frame) < 2 ^ 64 \<Longrightarrow> \<not> fb_lock (con s) \<Longrightarrow>
     \<exists>c. syscall_handler debug frame s = Some (frame\<lparr>rax := rdx frame\<rparr>, s\<lparr>con := c\<rparr>) \<and> \<not> fb_lock c \<and>
       fbmem c = fbmem (puts (bytes_at (ram s) (rsi frame) (unat (rdx frame))) 0xFFFFFFF (con s\<lparr>default_fg := 0xFFFFFFF\<rparr>))"
proof -
  have valid: "validate_user_pointer a n \<longleftrightarrow> \<not> (a \<ge> 0x0000800000000000 \<or> unat a + unat n \<ge> 2 ^ 64)" for a n
  proof -
    have "a + n < a \<longleftrightarrow> unat a + unat n \<ge> 2 ^ 64"
    proof (cases "unat a + unat n < 2 ^ 64")
      case True
      then show ?thesis using unat_add_small [OF True] by (simp add: word_less_nat_alt)
    next
      case False
      have "unat (a + n) = unat a + unat n - 2 ^ 64"
        using False unat_u64 [of a] unat_u64 [of n] by (simp add: unat_word_ariths mod_if)
      then show ?thesis using False unat_u64 [of n] by (simp add: word_less_nat_alt)
    qed
    then show ?thesis by (auto simp: validate_user_pointer_def)
  qed
  show "rax frame = 0 \<Longrightarrow> syscall_handler debug frame s = None"
    by (simp add: syscall_handler_def sys_exit_def)
  show "rax frame = 1 \<Longrightarrow> syscall_handler debug frame s = Some (frame\<lparr>rax := 0\<rparr>, s)"
    by (simp add: syscall_handler_def sys_read_def)
  show "rax frame \<notin> {0, 1, 2} \<Longrightarrow> syscall_handler debug frame s = Some (frame, s)"
    by (simp add: syscall_handler_def)
  show "syscall_handler debug frame s = Some (frame\<lparr>rax := - 1\<rparr>, s)"
    if "rax frame = 2" "node = fd_get_node (sint (ucast (rdi frame) :: u32)) s"
      "node = 0 \<or> fwrite (nodes s node) = NULL_FN \<or> rsi frame \<ge> 0x0000800000000000 \<or>
       unat (rsi frame) + unat (rdx frame) \<ge> 2 ^ 64"
    using that by (auto simp: syscall_handler_def sys_write_def Let_def valid)
  show "\<exists>c. syscall_handler debug frame s = Some (frame\<lparr>rax := rdx frame\<rparr>, s\<lparr>con := c\<rparr>) \<and> \<not> fb_lock c \<and>
       fbmem c = fbmem (puts (bytes_at (ram s) (rsi frame) (unat (rdx frame))) 0xFFFFFFF (con s\<lparr>default_fg := 0xFFFFFFF\<rparr>))"
    if h: "rax frame = 2" "node = fd_get_node (sint (ucast (rdi frame) :: u32)) s" "node \<noteq> 0"
      "fwrite (nodes s node) = FB_VFS_WRITE" "rsi frame < 0x0000800000000000"
      "unat (rsi frame) + unat (rdx frame) < 2 ^ 64" "\<not> fb_lock (con s)"
  proof -
    let ?t = "bytes_at (ram s) (rsi frame) (unat (rdx frame))" and ?c = "con s\<lparr>default_fg := 0xFFFFFFF\<rparr>"
    have "validate_user_pointer (rsi frame) (rdx frame)" using h(5,6) by (simp add: valid)
    moreover have "length ?t = unat (rdx frame)" by (simp add: bytes_at_def)
    moreover have "fb_vfs_write ?t ?c = Some (of_nat (length ?t), (puts ?t 0xFFFFFFF ?c)\<lparr>fb_lock := False, interrupts := True\<rparr>)"
      using fb_write_puts [of ?c ?t] h(7) by simp
    ultimately have "syscall_handler debug frame s =
        Some (frame\<lparr>rax := rdx frame\<rparr>, s\<lparr>con := (puts ?t 0xFFFFFFF ?c)\<lparr>fb_lock := False, interrupts := True\<rparr>\<rparr>)"
      using h(1,3,4) by (simp add: syscall_handler_def sys_write_def call_write_def h(2) [symmetric])
    then show ?thesis
      by (intro exI [of _ "(puts ?t 0xFFFFFFF ?c)\<lparr>fb_lock := False, interrupts := True\<rparr>"]) simp
  qed
qed

text \<open>
  C32. The system calls: exit does not come back; read answers 0; write answers -1 and changes
  nothing for a descriptor that is not open, is not writable, or a buffer that is not in user
  space, and for the console prints exactly the bytes of the buffer and answers their number;
  any other number changes nothing.
\<close>

theorem syscall_results:
  "(rax frame = 0 \<longrightarrow> syscall_handler debug frame s = None) \<and>
   (rax frame = 1 \<longrightarrow> syscall_handler debug frame s = Some (frame\<lparr>rax := 0\<rparr>, s)) \<and>
   (rax frame \<notin> {0, 1, 2} \<longrightarrow> syscall_handler debug frame s = Some (frame, s)) \<and>
   (rax frame = 2 \<longrightarrow> (let node = fd_get_node (sint (ucast (rdi frame) :: u32)) s in
      (node = 0 \<or> fwrite (nodes s node) = NULL_FN \<or> rsi frame \<ge> 0x0000800000000000 \<or>
         unat (rsi frame) + unat (rdx frame) \<ge> 2 ^ 64 \<longrightarrow>
       syscall_handler debug frame s = Some (frame\<lparr>rax := - 1\<rparr>, s)) \<and>
      (node \<noteq> 0 \<and> fwrite (nodes s node) = FB_VFS_WRITE \<and> rsi frame < 0x0000800000000000 \<and>
         unat (rsi frame) + unat (rdx frame) < 2 ^ 64 \<and> \<not> fb_lock (con s) \<longrightarrow>
       (\<exists>c. syscall_handler debug frame s = Some (frame\<lparr>rax := rdx frame\<rparr>, s\<lparr>con := c\<rparr>) \<and> \<not> fb_lock c \<and>
          fbmem c = fbmem (puts (bytes_at (ram s) (rsi frame) (unat (rdx frame))) 0xFFFFFFF (con s\<lparr>default_fg := 0xFFFFFFF\<rparr>))))))"
  unfolding Let_def
  using syscall_cases(1-3) [of frame debug s] syscall_cases(4) [OF _ refl, of frame s debug]
    syscall_cases(5) [OF _ refl, of frame s debug]
  by blast

definition sample_frame :: interrupt_frame where
  "sample_frame = \<lparr>rax = 2, rbx = 0, rcx = 0, rdx = 2, rsi = 0x1200, rdi = 1, rbp = 0, r8 = 0, r9 = 0,
     r10 = 0, r11 = 0, r12 = 0, r13 = 0, r14 = 0, r15 = 0, vector = 128, error_code = 0, rip = 0,
     cs = 0, rflags = 0, rsp = 0, ss = 0\<rparr>"

text \<open>Descriptor 1 is open on the console.\<close>

definition console_fds :: fds where
  "console_fds = fds_zero\<lparr>fd_table := (\<lambda>_. no_file)(1 := \<lparr>fd_node = 8, fd_offset = 0, fd_flags = VFS_FLAG_WRITE\<rparr>),
    nodes := (\<lambda>_. zero_node\<lparr>fwrite := FB_VFS_WRITE\<rparr>)\<rparr>"

lemma syscall_results_witness:
  "syscall_handler False (sample_frame\<lparr>rax := 0\<rparr>) console_fds = None \<and>
   syscall_handler False (sample_frame\<lparr>rax := 7\<rparr>) console_fds = Some (sample_frame\<lparr>rax := 7\<rparr>, console_fds) \<and>
   syscall_handler False (sample_frame\<lparr>rdi := 5\<rparr>) console_fds = Some (sample_frame\<lparr>rdi := 5, rax := - 1\<rparr>, console_fds) \<and>
   (\<exists>c. syscall_handler False sample_frame console_fds = Some (sample_frame\<lparr>rax := 2\<rparr>, console_fds\<lparr>con := c\<rparr>))"
proof (intro conjI)
  show "syscall_handler False (sample_frame\<lparr>rax := 0\<rparr>) console_fds = None"
    using syscall_results [where frame = "sample_frame\<lparr>rax := 0\<rparr>" and s = console_fds and debug = False] by simp
  show "syscall_handler False (sample_frame\<lparr>rax := 7\<rparr>) console_fds = Some (sample_frame\<lparr>rax := 7\<rparr>, console_fds)"
    using syscall_results [where frame = "sample_frame\<lparr>rax := 7\<rparr>" and s = console_fds and debug = False] by simp
  have f: "rax sample_frame = 2" "rdi sample_frame = 1" "rsi sample_frame = 0x1200" "rdx sample_frame = 2"
    by (simp_all add: sample_frame_def)
  have "syscall_handler False (sample_frame\<lparr>rdi := 5\<rparr>) console_fds = Some (sample_frame\<lparr>rdi := 5\<rparr>\<lparr>rax := - 1\<rparr>, console_fds)"
  proof -
    have "fd_get_node (sint (ucast (5 :: u64) :: u32)) console_fds = 0"
      by (simp add: fd_get_node_def console_fds_def no_file_def MAX_OPEN_FILES_def)
    then show ?thesis
      using syscall_results [where frame = "sample_frame\<lparr>rdi := 5\<rparr>" and s = console_fds and debug = False] by (simp add: f)
  qed
  then show "syscall_handler False (sample_frame\<lparr>rdi := 5\<rparr>) console_fds = Some (sample_frame\<lparr>rdi := 5, rax := - 1\<rparr>, console_fds)"
    by simp
  have "fd_get_node (sint (ucast (rdi sample_frame) :: u32)) console_fds = 8"
    by (simp add: f fd_get_node_def console_fds_def MAX_OPEN_FILES_def)
  moreover have "fwrite (nodes console_fds 8) = FB_VFS_WRITE" "\<not> fb_lock (con console_fds)"
    by (simp_all add: console_fds_def fds_zero_simps small_console_ok)
  ultimately show "\<exists>c. syscall_handler False sample_frame console_fds = Some (sample_frame\<lparr>rax := 2\<rparr>, console_fds\<lparr>con := c\<rparr>)"
    using syscall_results [where frame = sample_frame and s = console_fds and debug = False] by (auto simp: f)
qed

end
