(* ===== verification/Interrupts.thy ===== *)
theory Interrupts
  imports Fd
begin

text \<open>
  The processor's tables and the interrupt handlers, \<open>arch/x86_64\<close>: segment descriptors
  (\<open>gdt.c\<close>), interrupt gates (\<open>idt.c\<close>), interrupt controller and timer (\<open>pic.c\<close>, \<open>pit.c\<close>),
  the handlers for the timer and the keyboard (\<open>irq.c\<close>, \<open>keyboard.c\<close>) and for exceptions
  (\<open>exceptions.c\<close>). Addresses the linker gives to code and tables are parameters.
\<close>

record idt_entry =
  offset_low :: u16
  selector :: u16
  ist :: u8
  type_attr :: u8
  offset_mid :: u16
  offset_high :: u32
  zero :: u32

record table_ptr =
  limit :: u16
  base :: u64

record gdt_entry =
  limit_low :: u16
  base_low :: u16
  base_mid :: u8
  access :: u8
  granularity :: u8
  base_high :: u8

record tss_entry =
  reserved0 :: u32
  rsp0 :: u64
  rsp1 :: u64
  rsp2 :: u64
  reserved1 :: u64
  tss_ist :: "u64 list"
  reserved2 :: u64
  reserved3 :: u64
  iomap_base :: u16

text \<open>The tables, and what the processor was told: \<open>lidt\<close>, \<open>lgdt\<close>, \<open>ltr\<close>.\<close>

record arch = fds +
  idt :: "nat \<Rightarrow> idt_entry"
  gdt :: "gdt_entry list"
  kernel_tss :: tss_entry
  idtr :: table_ptr
  gdtr :: table_ptr
  task_register :: u16
  ticks :: u64


subsection \<open>Segments\<close>

definition gdt_initial :: "gdt_entry list" where
  "gdt_initial = List.map (\<lambda>(a, g). \<lparr>limit_low = 0, base_low = 0, base_mid = 0, access = a, granularity = g, base_high = 0\<rparr>)
     [(0x00, 0x00), (0x9A, 0x20), (0x92, 0x00), (0xF2, 0x00), (0xFA, 0x20), (0x00, 0x00), (0x00, 0x00)]"

definition set_tss_descriptor :: "nat \<Rightarrow> u64 \<Rightarrow> u32 \<Rightarrow> gdt_entry list \<Rightarrow> gdt_entry list" where
  "set_tss_descriptor index tss_base tss_limit tbl = tbl
     [index := \<lparr>limit_low = ucast (tss_limit AND 0xFFFF), base_low = ucast (tss_base AND 0xFFFF),
        base_mid = ucast (drop_bit 16 tss_base AND 0xFF), access = 0x89,
        granularity = ucast (drop_bit 16 tss_limit AND 0x0F), base_high = ucast (drop_bit 24 tss_base AND 0xFF)\<rparr>,
      index + 1 := \<lparr>limit_low = ucast (drop_bit 32 tss_base), base_low = ucast (drop_bit 48 tss_base),
        base_mid = 0, access = 0, granularity = 0, base_high = 0\<rparr>]"

text \<open>The structure is packed: 4 + 3 * 8 + 8 + 7 * 8 + 8 + 8 + 2 bytes, as \<open>reserved3\<close> has 64 bits.\<close>

definition sizeof_tss :: u32 where "sizeof_tss = 110"

definition tss_zero :: tss_entry where
  "tss_zero = \<lparr>reserved0 = 0, rsp0 = 0, rsp1 = 0, rsp2 = 0, reserved1 = 0, tss_ist = replicate 7 0,
     reserved2 = 0, reserved3 = 0, iomap_base = 0\<rparr>"

text \<open>The check of the size of \<open>struct gdt_ptr\<close>, which is packed, is left out.\<close>

definition init_gdt :: "u64 \<Rightarrow> u64 \<Rightarrow> u64 \<Rightarrow> 'a arch_scheme \<Rightarrow> 'a arch_scheme" where
  \<comment> \<open>addresses of \<open>kernel_tss\<close>, \<open>initial_kernel_stack\<close> and \<open>gdt\<close>\<close>
  "init_gdt tss_addr stack_addr gdt_addr s =
     s\<lparr>kernel_tss := tss_zero\<lparr>rsp0 := stack_addr + 4096\<rparr>,
       gdt := set_tss_descriptor 5 tss_addr (sizeof_tss - 1) (gdt s),
       gdtr := \<lparr>limit = of_nat (8 * length (gdt s)) - 1, base = gdt_addr\<rparr>,
       task_register := 0x28\<rparr>"


subsection \<open>Interrupt gates\<close>

definition IDT_ENTRIES :: nat where "IDT_ENTRIES = 256"
definition IDT_INTERRUPT_GATE :: u8 where "IDT_INTERRUPT_GATE = 0x8E"
definition IDT_USER_INTERUPT_GATE :: u8 where "IDT_USER_INTERUPT_GATE = 0xEE"
definition IRQ_BASE :: nat where "IRQ_BASE = 32"

definition idt_set_gate :: "nat \<Rightarrow> u64 \<Rightarrow> u8 \<Rightarrow> 'a arch_scheme \<Rightarrow> 'a arch_scheme" where
  "idt_set_gate vec addr flgs s = s\<lparr>idt := (idt s)(vec :=
     \<lparr>offset_low = ucast (addr AND 0xFFFF), selector = 0x08, ist = 0, type_attr = flgs,
      offset_mid = ucast (drop_bit 16 addr AND 0xFFFF),
      offset_high = ucast (drop_bit 32 addr AND 0xFFFFFFFF), zero = 0\<rparr>)\<rparr>"

text \<open>The entry points of \<open>isr.asm\<close>.\<close>

record stubs =
  isr0 :: u64
  isr8 :: u64
  isr13 :: u64
  isr14 :: u64
  irq0 :: u64
  irq1 :: u64
  isr128 :: u64

definition init_idt :: "stubs \<Rightarrow> u64 \<Rightarrow> 'a arch_scheme \<Rightarrow> 'a arch_scheme" where
  "init_idt st idt_addr s =
     (let s1 = idt_set_gate 0 (isr0 st) IDT_INTERRUPT_GATE s;
          s2 = idt_set_gate 8 (isr8 st) IDT_INTERRUPT_GATE s1;
          s3 = idt_set_gate 13 (isr13 st) IDT_INTERRUPT_GATE s2;
          s4 = idt_set_gate 14 (isr14 st) IDT_INTERRUPT_GATE s3;
          s5 = idt_set_gate (IRQ_BASE + 0) (irq0 st) IDT_INTERRUPT_GATE s4;
          s6 = idt_set_gate (IRQ_BASE + 1) (irq1 st) IDT_INTERRUPT_GATE s5;
          s7 = idt_set_gate 0x80 (isr128 st) IDT_USER_INTERUPT_GATE s6
      in s7\<lparr>idtr := \<lparr>limit = of_nat (IDT_ENTRIES * 16) - 1, base = idt_addr\<rparr>\<rparr>)"


subsection \<open>Interrupt controller and timer\<close>

definition PIC1_CMD :: u16 where "PIC1_CMD = 0x20"
definition PIC1_DAT :: u16 where "PIC1_DAT = 0x21"
definition PIC2_CMD :: u16 where "PIC2_CMD = 0xA0"
definition PIC2_DAT :: u16 where "PIC2_DAT = 0xA1"

definition pic_io_wait :: "'a machine_scheme \<Rightarrow> 'a machine_scheme" where
  "pic_io_wait = outb 0x80 0"

definition remap_pic :: "u8 \<Rightarrow> u8 \<Rightarrow> 'a machine_scheme \<Rightarrow> 'a machine_scheme" where
  "remap_pic offset1 offset2 s =
     (let s1 = pic_io_wait (outb PIC2_CMD 0x11 (pic_io_wait (outb PIC1_CMD 0x11 s)));
          s2 = pic_io_wait (outb PIC2_DAT offset2 (pic_io_wait (outb PIC1_DAT offset1 s1)));
          s3 = pic_io_wait (outb PIC2_DAT 2 (pic_io_wait (outb PIC1_DAT 4 s2)));
          s4 = pic_io_wait (outb PIC2_DAT 0x01 (pic_io_wait (outb PIC1_DAT 0x01 s3)))
      in outb PIC2_DAT 0xFF (outb PIC1_DAT 0xFF s4))"

definition pic_send_eoi :: "u8 \<Rightarrow> 'a machine_scheme \<Rightarrow> 'a machine_scheme" where
  "pic_send_eoi irq s = outb PIC1_CMD 0x20 (if irq \<ge> 8 then outb PIC2_CMD 0x20 s else s)"

text \<open>A frequency of 0 faults.\<close>

definition pit_init :: "u32 \<Rightarrow> 'a machine_scheme \<Rightarrow> 'a machine_scheme option" where
  "pit_init frequency s =
     (if frequency = 0 then None
      else
        let divisor = 1193182 div frequency in
        Some (outb 0x40 (ucast (drop_bit 8 divisor AND 0xFF))
          (outb 0x40 (ucast (divisor AND 0xFF)) (outb 0x43 0x36 s))))"


subsection \<open>Keyboard\<close>

text \<open>The US layout, one character for each scan code; 0 where there is none.\<close>

definition scancode_to_ascii :: "u8 list" where
  "scancode_to_ascii =
     [0, 27] @ str ''1234567890-='' @ [8, 9] @ str ''qwertyuiop[]'' @ [10, 0] @ str ''asdfghjkl;'' @ [39, 96, 0, 92] @
     str ''zxcvbnm,./'' @ [0, 42, 0, 32] @ replicate 13 0 @ str ''789-456+1230.''"

definition keyboard_handler_main :: "'a machine_scheme \<Rightarrow> 'a machine_scheme option" where
  "keyboard_handler_main s =
     (let (scancode, s1) = inb 0x60 s in
      if scancode AND 0x80 \<noteq> 0 then Some s1
      else if unat scancode < length scancode_to_ascii then
        let c = scancode_to_ascii ! unat scancode in
        if c \<noteq> 0 then kprintf ''%c'' 0xFFFFFF [AInt (ucast c)] s1 else Some s1
      else Some s1)"


subsection \<open>Interrupt requests\<close>

definition irq_handler :: "interrupt_frame \<Rightarrow> 'a arch_scheme \<Rightarrow> 'a arch_scheme option" where
  "irq_handler frame s =
     (if vector frame = 32 then schedule (pic_send_eoi 0 (s\<lparr>ticks := ticks s + 1\<rparr>))
      else if vector frame = 33 then map_option (pic_send_eoi 1) (keyboard_handler_main s)
      else kprintf ''UNHANDLED IRQ VECTOR: %d\<newline>'' 0xFF0000 [AInt (ucast (vector frame))] s)"


subsection \<open>Exceptions\<close>

definition exception_name :: "u64 \<Rightarrow> string" where
  "exception_name v =
     (if v = 0 then ''Divide By Zero'' else if v = 1 then ''Debug'' else if v = 2 then ''NMI''
      else if v = 3 then ''Breakpoint'' else if v = 4 then ''Overflow'' else if v = 5 then ''Bound Range Exceeded''
      else if v = 6 then ''Invalid Opcode'' else if v = 7 then ''Device Not Available''
      else if v = 8 then ''Double Fault'' else if v = 10 then ''Invalid TSS'' else if v = 11 then ''Segment Not Present''
      else if v = 12 then ''Stack Segment Fault'' else if v = 13 then ''General Protection Fault''
      else if v = 14 then ''Page Fault'' else if v = 16 then ''x87 Floating Point''
      else if v = 17 then ''Alignment Check'' else if v = 18 then ''Machine Check''
      else if v = 19 then ''SIMD Floating Point'' else ''Unknown'')"

text \<open>The output of the handler: calls of \<open>printf\<close> without arguments and of \<open>print_hex64\<close>.\<close>

datatype out_call = Msg string u32 | Hex u64 u32

fun emit :: "out_call list \<Rightarrow> 'a machine_scheme \<Rightarrow> 'a machine_scheme option" where
  "emit [] s = Some s"
| "emit (Msg t color # os) s = do { s1 \<leftarrow> kprintf t color [] s; emit os s1 }"
| "emit (Hex v color # os) s = emit os (s\<lparr>con := print_hex64 v color (con s)\<rparr>)"

definition decode_page_fault :: "u64 \<Rightarrow> out_call list" where
  "decode_page_fault err =
     Msg ''\<newline>Page Fault Analysis:\<newline>'' 0xFFFF00 #
     concat (List.map (\<lambda>(t, b). [Msg t 0xFFFFFF, Msg (if err AND b \<noteq> 0 then ''yes\<newline>'' else ''no\<newline>'') 0xFFFFFF])
       [(''Present: '', 1), (''Write: '', 2), (''User: '', 4), (''Reserved Bit: '', 8), (''Instruction Fetch: '', 16)])"

definition register_dump :: "interrupt_frame \<Rightarrow> out_call list" where
  "register_dump frame =
     concat (List.map (\<lambda>(t, v). [Msg t 0xFF0000, Hex v 0xFFFFFF, Msg ''\<newline>'' 0xFFFFFF])
       [(''RAX: '', rax frame), (''RBX: '', rbx frame), (''RCX: '', rcx frame), (''RDX: '', rdx frame),
        (''RSI: '', rsi frame), (''RDI: '', rdi frame), (''RBP: '', rbp frame), (''R8: '', r8 frame),
        (''R9: '', r9 frame), (''R10: '', r10 frame), (''R11: '', r11 frame), (''R12: '', r12 frame),
        (''R13: '', r13 frame), (''R14: '', r14 frame), (''R15: '', r15 frame)])"

text \<open>\<open>cr2\<close> is the register the faulting address is read from.\<close>

definition exception_report :: "u64 \<Rightarrow> interrupt_frame \<Rightarrow> out_call list" where
  "exception_report cr2 frame =
     [Msg ''\<newline>========== KERNEL EXCEPTION ==========\<newline>'' 0xFF0000,
      Msg ''Exception: '' 0xFF0000, Msg (exception_name (vector frame)) 0xFF0000, Msg ''\<newline>'' 0xFF0000,
      Msg ''Vector: '' 0xFF0000, Hex (vector frame) 0xFF0000, Msg ''\<newline>'' 0xFF0000,
      Msg ''RIP: '' 0xFF0000, Hex (interrupt_frame.rip frame) 0xFF0000, Msg ''\<newline>'' 0xFF0000,
      Msg ''Error Code: '' 0xFF0000, Hex (error_code frame) 0xFF0000, Msg ''\<newline>'' 0xFF0000] @
     (if vector frame = 14 then
        [Msg ''CR2: '' 0xFF0000, Hex cr2 0xFF0000, Msg ''\<newline>'' 0xFF0000] @ decode_page_fault (error_code frame)
      else []) @
     [Msg ''\<newline>Register Dump:\<newline>'' 0xFF0000] @ register_dump frame @
     [Msg ''\<newline>System halted.\<newline>'' 0xFF0000]"

text \<open>The state the processor halts in; the handler does not return.\<close>

definition exception_halt :: "u64 \<Rightarrow> interrupt_frame \<Rightarrow> 'a arch_scheme \<Rightarrow> 'a arch_scheme option" where
  "exception_halt cr2 frame s =
     map_option (\<lambda>s. s\<lparr>con := (con s)\<lparr>interrupts := False\<rparr>\<rparr>) (emit (exception_report cr2 frame) s)"

definition exception_handler :: "u64 \<Rightarrow> interrupt_frame \<Rightarrow> 'a arch_scheme \<Rightarrow> 'a arch_scheme option" where
  "exception_handler cr2 frame s = do { _ \<leftarrow> exception_halt cr2 frame s; None }"


subsection \<open>Descriptors\<close>

text \<open>What the processor reads: the target of a gate, the base and limit of a system segment.\<close>

definition gate_offset :: "idt_entry \<Rightarrow> u64" where
  "gate_offset g = ucast (offset_low g) OR push_bit 16 (ucast (offset_mid g)) OR push_bit 32 (ucast (offset_high g))"

definition gate_dpl :: "idt_entry \<Rightarrow> u8" where
  "gate_dpl g = drop_bit 5 (type_attr g) AND 3"

definition gate_present :: "idt_entry \<Rightarrow> bool" where
  "gate_present g \<longleftrightarrow> bit (type_attr g) 7"

definition segment_limit :: "gdt_entry \<Rightarrow> u32" where
  "segment_limit d = ucast (limit_low d) OR push_bit 16 (ucast (granularity d AND 0x0F))"

definition system_base :: "gdt_entry \<Rightarrow> gdt_entry \<Rightarrow> u64" where
  "system_base d e = ucast (base_low d) OR push_bit 16 (ucast (base_mid d)) OR push_bit 24 (ucast (base_high d)) OR
     push_bit 32 (ucast (limit_low e)) OR push_bit 48 (ucast (base_low e))"

lemma mask_bits: "(0xFF :: u64) = semiring_bit_operations_class.mask 8" "(0xFFFF :: u64) = semiring_bit_operations_class.mask 16" "(0xFFFFFFFF :: u64) = semiring_bit_operations_class.mask 32"
  "(0xFFFF :: u32) = semiring_bit_operations_class.mask 16" "(0x0F :: u32) = semiring_bit_operations_class.mask 4" "(0x0F :: u8) = semiring_bit_operations_class.mask 4"
  by (simp_all add: mask_eq_exp_minus_1)

lemma gate_offset_set: "gate_offset (idt (idt_set_gate v addr f s) v) = addr"
proof (rule bit_word_eqI)
  fix n
  assume "n < LENGTH(64)"
  consider "n < 16" | "16 \<le> n" "n < 32" | "32 \<le> n" by linarith
  then show "bit (gate_offset (idt (idt_set_gate v addr f s) v)) n \<longleftrightarrow> bit addr n"
    by cases (use \<open>n < LENGTH(64)\<close> in \<open>auto simp: gate_offset_def idt_set_gate_def bit_simps mask_bits less_diff_conv2\<close>)
qed

lemma set_tss_nth:
  assumes "Suc i < length tbl"
  shows "set_tss_descriptor i b l tbl ! i = \<lparr>limit_low = ucast (l AND 0xFFFF), base_low = ucast (b AND 0xFFFF),
      base_mid = ucast (drop_bit 16 b AND 0xFF), access = 0x89,
      granularity = ucast (drop_bit 16 l AND 0x0F), base_high = ucast (drop_bit 24 b AND 0xFF)\<rparr>"
    "set_tss_descriptor i b l tbl ! Suc i = \<lparr>limit_low = ucast (drop_bit 32 b), base_low = ucast (drop_bit 48 b),
      base_mid = 0, access = 0, granularity = 0, base_high = 0\<rparr>"
    "j \<noteq> i \<Longrightarrow> j \<noteq> Suc i \<Longrightarrow> set_tss_descriptor i b l tbl ! j = tbl ! j"
  using assms by (simp_all add: set_tss_descriptor_def nth_list_update)

lemma base_parts:
  fixes b :: u64
  shows "ucast (ucast (b AND 0xFFFF) :: u16) OR push_bit 16 (ucast (ucast (drop_bit 16 b AND 0xFF) :: u8)) OR
    push_bit 24 (ucast (ucast (drop_bit 24 b AND 0xFF) :: u8)) OR push_bit 32 (ucast (ucast (drop_bit 32 b) :: u16)) OR
    push_bit 48 (ucast (ucast (drop_bit 48 b) :: u16)) = b" (is "?l = b")
proof (rule bit_word_eqI)
  fix n
  assume n: "n < LENGTH(64)"
  consider "n < 16" | "16 \<le> n" "n < 24" | "24 \<le> n" "n < 32" | "32 \<le> n" "n < 48" | "48 \<le> n" by linarith
  then show "bit ?l n \<longleftrightarrow> bit b n"
    by cases (use n in \<open>simp_all add: bit_simps mask_bits less_diff_conv2\<close>)
qed

lemma system_base_set:
  assumes "Suc i < length tbl"
  shows "system_base (set_tss_descriptor i b l tbl ! i) (set_tss_descriptor i b l tbl ! Suc i) = b"
  by (simp add: system_base_def set_tss_nth [OF assms] base_parts)

lemma segment_limit_set:
  assumes "Suc i < length tbl" "l < 2 ^ 20"
  shows "segment_limit (set_tss_descriptor i b l tbl ! i) = l"
proof (rule bit_word_eqI)
  fix n
  assume n: "n < LENGTH(32)"
  have high: "\<not> bit l n" if "20 \<le> n"
  proof -
    have "unat l < 2 ^ 20" using assms(2) by (simp add: word_less_nat_alt)
    also have "(2 :: nat) ^ 20 \<le> 2 ^ n" using that by (rule power_increasing) simp
    finally have "\<not> bit (unat l) n" by (simp add: bit_iff_odd)
    then show ?thesis using n by (simp add: bit_simps)
  qed
  consider "n < 16" | "16 \<le> n" "n < 20" | "20 \<le> n" by linarith
  then show "bit (segment_limit (set_tss_descriptor i b l tbl ! i)) n \<longleftrightarrow> bit l n"
    by cases (use n high in \<open>simp_all add: segment_limit_def set_tss_nth [OF assms(1)] bit_simps mask_bits less_diff_conv2\<close>)
qed


subsection \<open>The handlers\<close>

text \<open>Acknowledging an interrupt is the last thing done before a thread may be switched to.\<close>

lemma irq_timer:
  "vector frame = 32 \<Longrightarrow> irq_handler frame s = schedule (s\<lparr>ticks := ticks s + 1, io_log := Outb 0x20 0x20 # io_log s\<rparr>)"
  by (simp add: irq_handler_def pic_send_eoi_def outb_def PIC1_CMD_def)

text \<open>A key press prints its character; releases and keys without one only read the port.\<close>

lemma keyboard_key:
  fixes code :: u8
  assumes "ucast (io_in s (io_log s) (Inb 0x60)) = code" "unat code < 84" "scancode_to_ascii ! unat code \<noteq> 0"
  shows "keyboard_handler_main s =
    kprintf ''%c'' 0xFFFFFF [AInt (ucast (scancode_to_ascii ! unat code))] (s\<lparr>io_log := Inb 0x60 # io_log s\<rparr>)"
proof -
  have "code AND 0x80 = 0"
  proof (rule bit_word_eqI)
    fix n
    assume "n < LENGTH(8)"
    have "unat code < 2 ^ 7" using assms(2) by simp
    then have "\<not> bit (unat code) 7" by (simp add: bit_iff_odd)
    moreover have "(0x80 :: u8) = 2 ^ 7" by simp
    then have "bit (0x80 :: u8) n \<Longrightarrow> n = 7" by (simp only: bit_exp_iff)
    ultimately show "bit (code AND 0x80) n \<longleftrightarrow> bit (0 :: u8) n"
      by (auto simp: bit_simps)
  qed
  moreover have "length scancode_to_ascii = 84" by (simp add: scancode_to_ascii_def str_def)
  ultimately show ?thesis using assms by (simp add: keyboard_handler_main_def inb_def)
qed

lemma key_a: "scancode_to_ascii ! 0x1E = 97" "scancode_to_ascii ! 0x39 = 32" "scancode_to_ascii ! 0x1C = 10"
  by (simp_all add: scancode_to_ascii_def str_def)

text \<open>Text without a percent sign is printed as it is.\<close>

lemma prints_plain: "37 \<notin> set (str t) \<Longrightarrow> length t \<le> 1023 \<Longrightarrow> prints t []"
proof -
  assume "37 \<notin> set (str t)" and l: "length t \<le> 1023"
  then have "msg_bound (str t) [] = Some (int (length (str t)))"
    by (induction "str t" arbitrary: t rule: list.induct) (auto simp: str_def)
  then show ?thesis by (rule printsI) (use l in \<open>simp add: str_def\<close>)
qed

lemma emit_upto:
  assumes "\<forall>t c. Msg t c \<in> set os \<longrightarrow> prints t []" "\<not> fb_lock (con s)"
  shows "\<exists>t. emit os s = Some t \<and> upto_con s t \<and> \<not> fb_lock (con t)"
  using assms
proof (induction os s rule: emit.induct)
  case (2 t color os s)
  obtain u where u: "kprintf t color [] s = Some u" "upto_con s u" "\<not> fb_lock (con u)"
    using kprintf_upto [of t "[]" s color] 2(2,3) by auto
  with 2(1) [OF u(1) _ u(3)] 2(2) show ?case by (auto intro: upto_con_trans)
next
  case (3 v color os s)
  let ?c = "print_hex64 v color (con s)"
  have "same_fb (con s) ?c" unfolding print_hex64_def by (rule same_fb_trans [OF puts_same_fb puts_same_fb])
  then have l: "\<not> fb_lock ?c" using 3(3) by (simp add: same_fb_def)
  then have "upto_con s (s\<lparr>con := ?c\<rparr>)" by (auto simp: upto_con_def)
  with 3(1) 3(2) l show ?case by (auto intro: upto_con_trans)
qed simp

lemma exception_name_plain: "37 \<notin> set (str (exception_name v)) \<and> length (exception_name v) \<le> 1023"
  by (simp add: exception_name_def str_def)

fun plain_call :: "out_call \<Rightarrow> bool" where
  "plain_call (Msg t c) \<longleftrightarrow> 37 \<notin> set (str t) \<and> length t \<le> 1023"
| "plain_call (Hex v c) \<longleftrightarrow> True"

lemma exception_report_plain: "list_all plain_call (exception_report cr2 frame)"
proof -
  have "list_all plain_call (decode_page_fault err)" for err
    by (simp add: decode_page_fault_def str_def)
  moreover have "list_all plain_call (register_dump frame)"
    by (simp add: register_dump_def str_def)
  moreover have "plain_call (Msg (exception_name (vector frame)) c)" for c
    using exception_name_plain by simp
  ultimately show ?thesis
    by (simp add: exception_report_def del: plain_call.simps(1)) (simp add: str_def)
qed

text \<open>The report is printed to its end, and the processor stops with interrupts off.\<close>

lemma exception_halts:
  assumes "\<not> fb_lock (con s)"
  shows "\<exists>t. exception_halt cr2 frame s = Some t \<and> \<not> interrupts (con t) \<and> upto_con s t"
    "exception_handler cr2 frame s = None"
proof -
  have "\<forall>t c. Msg t c \<in> set (exception_report cr2 frame) \<longrightarrow> prints t []"
  proof (intro allI impI)
    fix t c
    assume "Msg t c \<in> set (exception_report cr2 frame)"
    with exception_report_plain [of cr2 frame] have "plain_call (Msg t c)"
      unfolding list_all_iff by (rule bspec)
    then show "prints t []" unfolding plain_call.simps using prints_plain by blast
  qed
  from emit_upto [OF this assms] obtain t where
    t: "emit (exception_report cr2 frame) s = Some t" "upto_con s t" "\<not> fb_lock (con t)" by blast
  let ?u = "t\<lparr>con := con t\<lparr>interrupts := False\<rparr>\<rparr>"
  have "upto_con t ?u" unfolding upto_con_def by (intro exI [of _ "con t\<lparr>interrupts := False\<rparr>"]) simp
  from upto_con_trans [OF t(2) this] t(1) show "\<exists>t. exception_halt cr2 frame s = Some t \<and> \<not> interrupts (con t) \<and> upto_con s t"
    by (intro exI [of _ ?u]) (simp add: exception_halt_def)
  show "exception_handler cr2 frame s = None" by (simp add: exception_handler_def)
qed


subsection \<open>The task segment in memory\<close>

definition le_bytes :: "nat \<Rightarrow> 'a::len word \<Rightarrow> u8 list" where
  "le_bytes n w = List.map (\<lambda>i. ucast (drop_bit (8 * i) w)) [0..<n]"

definition tss_bytes :: "tss_entry \<Rightarrow> u8 list" where
  "tss_bytes t = le_bytes 4 (reserved0 t) @ le_bytes 8 (rsp0 t) @ le_bytes 8 (rsp1 t) @ le_bytes 8 (rsp2 t) @
     le_bytes 8 (reserved1 t) @ concat (List.map (le_bytes 8) (tss_ist t)) @ le_bytes 8 (reserved2 t) @
     le_bytes 8 (reserved3 t) @ le_bytes 2 (iomap_base t)"

lemma length_le_bytes: "length (le_bytes n w) = n"
  by (simp add: le_bytes_def)

lemma nth_zeros: "concat (List.map (le_bytes 8) (replicate n (0 :: u64))) = replicate (8 * n) 0"
  by (induction n) (simp_all add: le_bytes_def replicate_add [symmetric] map_replicate_const)

lemma tss_start_bytes:
  "tss_bytes (tss_zero\<lparr>rsp0 := a\<rparr>) = replicate 4 0 @ le_bytes 8 a @ replicate 98 0"
proof -
  have z: "le_bytes n (0 :: 'a::len word) = replicate n 0" for n by (simp add: le_bytes_def map_replicate_const)
  show ?thesis
    by (simp only: tss_bytes_def tss_zero_def tss_entry.simps z nth_zeros replicate_add [symmetric] append_assoc) simp
qed

text \<open>
  The processor reads the place of the map of the ports open to user code from bytes 102 and
  103, not where \<open>iomap_base\<close> is; a port is open when its bit in the map is 0 and the map's
  byte and the one behind it are inside the segment.
\<close>

definition port_open :: "u8 list \<Rightarrow> nat \<Rightarrow> nat \<Rightarrow> bool" where
  "port_open tss lim port = (let i = unat (tss ! 102) + 256 * unat (tss ! 103) + port div 8 in
     i + 1 \<le> lim \<and> \<not> bit (tss ! i) (port mod 8))"

text \<open>The ports of the disk, among others, are open: the two bytes are those of \<open>reserved3\<close>, 0.\<close>

lemma disk_ports_open:
  assumes "0x1F0 \<le> port" "port < 0x1F8"
  shows "port_open (tss_bytes (tss_zero\<lparr>rsp0 := a\<rparr>)) (unat (sizeof_tss - 1)) port"
proof -
  have "port div 8 = 62" using assms by simp
  moreover have "tss_bytes (tss_zero\<lparr>rsp0 := a\<rparr>) ! i = 0" if "12 \<le> i" "i < 110" for i
  proof -
    have "\<not> i < 4" "\<not> i - 4 < 8" "i - 12 < 98" using that by linarith+
    then show ?thesis by (simp add: tss_start_bytes nth_append length_le_bytes)
  qed
  ultimately show ?thesis by (simp add: port_open_def sizeof_tss_def)
qed


subsection \<open>Properties\<close>

lemma table_entries:
  assumes "gdt s = gdt_initial"
    and t_eq: "t = init_idt st idt_addr (init_gdt tss_addr stack_addr gdt_addr s)"
  shows "\<forall>(v, a) \<in> {(0, isr0 st), (8, isr8 st), (13, isr13 st), (14, isr14 st), (32, irq0 st), (33, irq1 st), (128, isr128 st)}.
      gate_offset (idt t v) = a \<and> gate_present (idt t v) \<and> selector (idt t v) = 0x08 \<and>
      gate_dpl (idt t v) = (if v = 128 then 3 else 0)"
    "v \<notin> {0, 8, 13, 14, 32, 33, 128} \<Longrightarrow> idt t v = idt s v"
    "system_base (gdt t ! 5) (gdt t ! 6) = tss_addr" "segment_limit (gdt t ! 5) = 109"
    "rsp0 (kernel_tss t) = stack_addr + 4096" "length (tss_bytes (kernel_tss t)) = 110"
    "\<forall>i < 5. gdt t ! i = gdt_initial ! i" "limit (gdtr t) = 55" "limit (idtr t) = 4095"
proof -
  have i: "idt t = (\<lambda>v. if v = 128 then idt (idt_set_gate v (isr128 st) IDT_USER_INTERUPT_GATE s) v
      else if v = 33 then idt (idt_set_gate v (irq1 st) IDT_INTERRUPT_GATE s) v
      else if v = 32 then idt (idt_set_gate v (irq0 st) IDT_INTERRUPT_GATE s) v
      else if v = 14 then idt (idt_set_gate v (isr14 st) IDT_INTERRUPT_GATE s) v
      else if v = 13 then idt (idt_set_gate v (isr13 st) IDT_INTERRUPT_GATE s) v
      else if v = 8 then idt (idt_set_gate v (isr8 st) IDT_INTERRUPT_GATE s) v
      else if v = 0 then idt (idt_set_gate v (isr0 st) IDT_INTERRUPT_GATE s) v else idt s v)"
    by (simp add: t_eq init_idt_def init_gdt_def idt_set_gate_def Let_def fun_eq_iff IRQ_BASE_def)
  have g: "selector (idt (idt_set_gate v a f s) v) = 0x08" "type_attr (idt (idt_set_gate v a f s) v) = f" for v a f
    by (simp_all add: idt_set_gate_def)
  have k: "gate_present (idt (idt_set_gate v a IDT_INTERRUPT_GATE s) v)"
    "gate_dpl (idt (idt_set_gate v a IDT_INTERRUPT_GATE s) v) = 0"
    "gate_present (idt (idt_set_gate v a IDT_USER_INTERUPT_GATE s) v)"
    "gate_dpl (idt (idt_set_gate v a IDT_USER_INTERUPT_GATE s) v) = 3" for v a
    by (simp_all add: gate_present_def gate_dpl_def g IDT_INTERRUPT_GATE_def IDT_USER_INTERUPT_GATE_def)
  show "\<forall>(v, a) \<in> {(0, isr0 st), (8, isr8 st), (13, isr13 st), (14, isr14 st), (32, irq0 st), (33, irq1 st), (128, isr128 st)}.
      gate_offset (idt t v) = a \<and> gate_present (idt t v) \<and> selector (idt t v) = 0x08 \<and>
      gate_dpl (idt t v) = (if v = 128 then 3 else 0)"
    by (simp add: i gate_offset_set g k)
  show "v \<notin> {0, 8, 13, 14, 32, 33, 128} \<Longrightarrow> idt t v = idt s v" by (simp add: i)
  have l: "Suc 5 < length gdt_initial" by (simp add: gdt_initial_def)
  have t: "gdt t = set_tss_descriptor 5 tss_addr 109 gdt_initial" "gdtr t = \<lparr>limit = of_nat (8 * length gdt_initial) - 1, base = gdt_addr\<rparr>"
    "kernel_tss t = tss_zero\<lparr>rsp0 := stack_addr + 4096\<rparr>" "idtr t = \<lparr>limit = of_nat (256 * 16) - 1, base = idt_addr\<rparr>"
    using assms(1) by (simp_all add: t_eq init_idt_def init_gdt_def idt_set_gate_def Let_def IDT_ENTRIES_def sizeof_tss_def)
  show "system_base (gdt t ! 5) (gdt t ! 6) = tss_addr"
    using system_base_set [OF l] by (simp add: t)
  show "segment_limit (gdt t ! 5) = 109"
    unfolding t by (rule segment_limit_set [OF l]) simp
  show "\<forall>i < 5. gdt t ! i = gdt_initial ! i" by (simp add: t set_tss_nth(3) [OF l])
  show "limit (gdtr t) = 55" "limit (idtr t) = 4095" "rsp0 (kernel_tss t) = stack_addr + 4096"
    by (simp_all add: t gdt_initial_def)
  show "length (tss_bytes (kernel_tss t)) = 110" by (simp add: t tss_start_bytes length_le_bytes)
qed

text \<open>
  C33. What the processor reads in the descriptor tables is what the kernel put there: every
  gate leads to its stub and only the system call gate is open to user code; the task segment
  lies at the kernel's TSS and ends with the last of the 110 bytes of the packed structure,
  whose stack is the top of the initial kernel stack; all other gates and segments are as
  before.
\<close>

theorem descriptor_tables:
  assumes "gdt s = gdt_initial"
    and "t = init_idt st idt_addr (init_gdt tss_addr stack_addr gdt_addr s)"
  shows "(\<forall>(v, a) \<in> {(0, isr0 st), (8, isr8 st), (13, isr13 st), (14, isr14 st), (32, irq0 st), (33, irq1 st), (128, isr128 st)}.
      gate_offset (idt t v) = a \<and> gate_present (idt t v) \<and> selector (idt t v) = 0x08 \<and>
      gate_dpl (idt t v) = (if v = 128 then 3 else 0)) \<and>
    (\<forall>v. v \<notin> {0, 8, 13, 14, 32, 33, 128} \<longrightarrow> idt t v = idt s v) \<and>
    system_base (gdt t ! 5) (gdt t ! 6) = tss_addr \<and> segment_limit (gdt t ! 5) = 109 \<and>
    length (tss_bytes (kernel_tss t)) = Suc (unat (segment_limit (gdt t ! 5))) \<and>
    rsp0 (kernel_tss t) = stack_addr + 4096 \<and>
    (\<forall>i < 5. gdt t ! i = gdt_initial ! i) \<and> limit (gdtr t) = 55 \<and> limit (idtr t) = 4095"
  using table_entries [OF assms] by simp

definition arch_zero :: arch where
  "arch_zero = fds.extend fds_zero (arch.fields
     (\<lambda>_. \<lparr>offset_low = 0, selector = 0, ist = 0, type_attr = 0, offset_mid = 0, offset_high = 0, zero = 0\<rparr>)
     gdt_initial tss_zero \<lparr>limit = 0, base = 0\<rparr> \<lparr>limit = 0, base = 0\<rparr> 0 0)"

lemma arch_zero_simps: "gdt arch_zero = gdt_initial" "con arch_zero = small_console" "ram arch_zero = sample_ram"
  by (simp_all add: arch_zero_def fds.defs arch.defs fds_zero_simps)

definition sample_stubs :: stubs where
  "sample_stubs = \<lparr>isr0 = 0xFFFFFFFF80001000, isr8 = 0xFFFFFFFF80001020, isr13 = 0xFFFFFFFF80001040,
     isr14 = 0xFFFFFFFF80001060, irq0 = 0xFFFFFFFF80001080, irq1 = 0xFFFFFFFF800010A0, isr128 = 0xFFFFFFFF800010C0\<rparr>"

lemma descriptor_tables_witness:
  "gate_offset (idt (init_idt sample_stubs 0x5000 (init_gdt 0xFFFFFFFF80003000 0x4000 0x6000 arch_zero)) 14) = 0xFFFFFFFF80001060 \<and>
   system_base (gdt (init_idt sample_stubs 0x5000 (init_gdt 0xFFFFFFFF80003000 0x4000 0x6000 arch_zero)) ! 5)
     (gdt (init_idt sample_stubs 0x5000 (init_gdt 0xFFFFFFFF80003000 0x4000 0x6000 arch_zero)) ! 6) = 0xFFFFFFFF80003000"
  using descriptor_tables [OF arch_zero_simps(1) refl, of sample_stubs "0x5000" "0xFFFFFFFF80003000" "0x4000" "0x6000"]
  by (simp add: sample_stubs_def)

end
