(* ===== verification/Partition.thy ===== *)
theory Partition
  imports Block
begin

text \<open>
  Partition tables: the master boot record, whose partitions become block devices
  (\<open>fs/part/mbr.c\<close>), and the GUID partition table (\<open>fs/part/gpt.c\<close>), which is only listed.
  Sectors are read where the code reads them, in the bytes of a buffer in memory.
\<close>


subsection \<open>GUID partition table\<close>

record guid =
  time_low :: u32
  time_mid :: u16
  time_hi_and_version :: u16
  clock_seq_hi_and_reserved :: u8
  clock_seq_low :: u8
  guid_node :: "u8 list"

definition load_guid :: "memory \<Rightarrow> u64 \<Rightarrow> guid" where
  "load_guid m a = \<lparr>time_low = load32 m a, time_mid = load16 m (a + 4), time_hi_and_version = load16 m (a + 6),
     clock_seq_hi_and_reserved = m (a + 8), clock_seq_low = m (a + 9), guid_node = bytes_at m (a + 10) 6\<rparr>"

definition LINUX_DATA_GUID :: guid where
  "LINUX_DATA_GUID = \<lparr>time_low = 0x0FC63DAF, time_mid = 0x8483, time_hi_and_version = 0x4772,
     clock_seq_hi_and_reserved = 0x8E, clock_seq_low = 0x79, guid_node = [0x3D, 0x69, 0xD8, 0x47, 0x7D, 0xE4]\<rparr>"

definition guid_equals :: "guid \<Rightarrow> guid \<Rightarrow> bool" where
  "guid_equals a b \<longleftrightarrow>
     \<not> (time_low a \<noteq> time_low b \<or> time_mid a \<noteq> time_mid b \<or> time_hi_and_version a \<noteq> time_hi_and_version b \<or>
        clock_seq_hi_and_reserved a \<noteq> clock_seq_hi_and_reserved b \<or> clock_seq_low a \<noteq> clock_seq_low b) \<and>
     list_all (\<lambda>i. guid_node a ! i = guid_node b ! i) [0..<6]"

text \<open>The members of \<open>gpt_header_t\<close> and \<open>gpt_entry_t\<close>, at their offsets in the packed structures.\<close>

definition GPT_SIGNATURE :: u64 where "GPT_SIGNATURE = 0x5452415020494645"
definition gh_signature :: "memory \<Rightarrow> u64 \<Rightarrow> u64" where "gh_signature m h = load64 m h"
definition gh_header_size :: "memory \<Rightarrow> u64 \<Rightarrow> u32" where "gh_header_size m h = load32 m (h + 12)"
definition gh_my_lba :: "memory \<Rightarrow> u64 \<Rightarrow> u64" where "gh_my_lba m h = load64 m (h + 24)"
definition gh_partition_entry_lba :: "memory \<Rightarrow> u64 \<Rightarrow> u64" where "gh_partition_entry_lba m h = load64 m (h + 72)"
definition gh_num_partition_entries :: "memory \<Rightarrow> u64 \<Rightarrow> u32" where "gh_num_partition_entries m h = load32 m (h + 80)"
definition gh_size_of_partition_entry :: "memory \<Rightarrow> u64 \<Rightarrow> u32" where "gh_size_of_partition_entry m h = load32 m (h + 84)"
definition ge_type_guid :: "memory \<Rightarrow> u64 \<Rightarrow> guid" where "ge_type_guid m e = load_guid m e"
definition ge_starting_lba :: "memory \<Rightarrow> u64 \<Rightarrow> u64" where "ge_starting_lba m e = load64 m (e + 32)"
definition ge_ending_lba :: "memory \<Rightarrow> u64 \<Rightarrow> u64" where "ge_ending_lba m e = load64 m (e + 40)"
definition sizeof_gpt_entry :: u32 where "sizeof_gpt_entry = 128"

text \<open>
  The loop over the entries of one sector, with the number of rounds left. \<open>header\<close> points
  into the same buffer as the entries, so its members are read from what is there now; an
  entry that does not lie in the 512 bytes of the buffer is undefined.
\<close>

fun gpt_entries :: "nat \<Rightarrow> u64 \<Rightarrow> u32 \<Rightarrow> u32 \<Rightarrow> 'a machine_scheme \<Rightarrow> (u32 \<times> 'a machine_scheme) option" where
  "gpt_entries 0 sector_buf i parsed s = Some (parsed, s)"
| "gpt_entries (Suc n) sector_buf i parsed s =
     (if parsed \<ge> gh_num_partition_entries (ram s) sector_buf then Some (parsed, s)
      else
        let offset = i * gh_size_of_partition_entry (ram s) sector_buf;
            entry = sector_buf + ucast offset
        in if unat offset + 128 > 512 then None
        else if time_low (ge_type_guid (ram s) entry) = 0 \<and> time_mid (ge_type_guid (ram s) entry) = 0 then
          gpt_entries n sector_buf (i + 1) (parsed + 1) s
        else do {
          s1 \<leftarrow> say ([(''  GPT Partition %d:\<newline>'', 0x00FFFF, [AInt (parsed + 1)]),
              (''    Start LBA: %d\<newline>'', 0xFFFFFF, [AInt (ucast (ge_starting_lba (ram s) entry))]),
              (''    End LBA:   %d\<newline>'', 0xFFFFFF, [AInt (ucast (ge_ending_lba (ram s) entry))])] @
            (if guid_equals (ge_type_guid (ram s) entry) LINUX_DATA_GUID
             then [(''    Type: Linux Data Partition\<newline>'', 0x00FF00, [])] else [])) s;
          gpt_entries n sector_buf (i + 1) (parsed + 1) s1 })"

partial_function (option) gpt_loop :: "u64 \<Rightarrow> u64 \<Rightarrow> u32 \<Rightarrow> u32 \<Rightarrow> 'a machine_scheme \<Rightarrow> (int \<times> 'a machine_scheme) option" where
  "gpt_loop sector_buf entry_lba entries_per_sector parsed s =
     (if parsed < gh_num_partition_entries (ram s) sector_buf then do {
        (ok, s1) \<leftarrow> ata_read_sector28 (ucast entry_lba) sector_buf s;
        if \<not> ok then do {
          s2 \<leftarrow> kprintf ''GPT: Failed reading partition array LBA %d\<newline>'' 0xFF0000 [AInt (ucast entry_lba)] s1;
          Some (0, s2) }
        else do {
          (parsed', s2) \<leftarrow> gpt_entries (unat entries_per_sector) sector_buf 0 parsed s1;
          gpt_loop sector_buf (entry_lba + 1) entries_per_sector parsed' s2 } }
      else Some (1, s))"

declare gpt_loop.simps [code]

definition gpt_layout_ok :: "memory \<Rightarrow> u64 \<Rightarrow> bool" where
  "gpt_layout_ok m h \<longleftrightarrow>
     \<not> (gh_header_size m h < 92 \<or> gh_header_size m h > 512 \<or> gh_my_lba m h \<noteq> 1 \<or>
        gh_num_partition_entries m h = 0 \<or> gh_size_of_partition_entry m h \<noteq> sizeof_gpt_entry \<or>
        512 mod gh_size_of_partition_entry m h \<noteq> 0)"

text \<open>\<open>sector_buf\<close> is the place of the local array.\<close>

definition gpt_parse :: "u64 \<Rightarrow> 'a machine_scheme \<Rightarrow> (int \<times> 'a machine_scheme) option" where
  "gpt_parse sector_buf s = do {
     (ok, s1) \<leftarrow> ata_read_sector28 1 sector_buf s;
     if \<not> ok then do {
       s2 \<leftarrow> kprintf ''GPT: Failed to read LBA 1 header\<newline>'' 0xFF0000 [] s1;
       Some (0, s2) }
     else if gh_signature (ram s1) sector_buf \<noteq> GPT_SIGNATURE then do {
       s2 \<leftarrow> kprintf ''GPT: Invalid signature: 0x%lx\<newline>'' 0xFF0000 [AInt (ucast (gh_signature (ram s1) sector_buf))] s1;
       Some (0, s2) }
     else if \<not> gpt_layout_ok (ram s1) sector_buf then do {
       s2 \<leftarrow> kprintf ''GPT: Invalid header layout\<newline>'' 0xFF0000 [] s1;
       Some (0, s2) }
     else do {
       s2 \<leftarrow> say [(''GPT: Valid GPT header detected\<newline>'', 0x00FF00, []),
         (''  Entries: %d, Entry Size: %d bytes\<newline>'', 0x00FFFF,
          [AInt (gh_num_partition_entries (ram s1) sector_buf), AInt (gh_size_of_partition_entry (ram s1) sector_buf)])] s1;
       gpt_loop sector_buf (gh_partition_entry_lba (ram s2) sector_buf)
         (512 div gh_size_of_partition_entry (ram s2) sector_buf) 0 s2 } }"


subsection \<open>Master boot record\<close>

text \<open>The members of \<open>mbr_sector_t\<close> and of its entries, at their offsets.\<close>

definition mbr_signature :: "memory \<Rightarrow> u64 \<Rightarrow> u16" where "mbr_signature m sector = load16 m (sector + 510)"
definition mbr_entry :: "u64 \<Rightarrow> nat \<Rightarrow> u64" where "mbr_entry sector i = sector + 446 + of_nat (16 * i)"
definition me_boot_indicator :: "memory \<Rightarrow> u64 \<Rightarrow> u8" where "me_boot_indicator m e = m e"
definition me_partition_type :: "memory \<Rightarrow> u64 \<Rightarrow> u8" where "me_partition_type m e = m (e + 4)"
definition me_lba_start :: "memory \<Rightarrow> u64 \<Rightarrow> u32" where "me_lba_start m e = load32 m (e + 8)"
definition me_sector_count :: "memory \<Rightarrow> u64 \<Rightarrow> u32" where "me_sector_count m e = load32 m (e + 12)"

definition part_dev :: "memory \<Rightarrow> u64 \<Rightarrow> nat \<Rightarrow> block_dev" where
  "part_dev m sector i =
     \<lparr>bname = str ''sda'' @ [0x31 + of_nat i], sector_size = 512,
      total_sectors = ucast (me_sector_count m (mbr_entry sector i)),
      start_lba = ucast (me_lba_start m (mbr_entry sector i)),
      bread = ATA_BLOCK_READ, bwrite = NULL_BLOCK_FN, priv_data = 0\<rparr>"

definition describe_partition :: "memory \<Rightarrow> u64 \<Rightarrow> nat \<Rightarrow> (string \<times> u32 \<times> arg list) list" where
  "describe_partition m sector i =
     (let e = mbr_entry sector i; t = me_partition_type m e in
      [(''  Partition %d:\<newline>'', 0x00FFFF, [AInt (of_nat (i + 1))]),
       (''    Bootable: %s\<newline>'', 0xFFFFFF, [AStr (if me_boot_indicator m e AND 0x80 \<noteq> 0 then str ''Yes'' else str ''No'')]),
       (''    Type: 0x%x '', 0xFFFFFF, [AInt (ucast t)]),
       (if t = 0x83 then (''(Linux)\<newline>'', 0xFFFFFF, [])
        else if t = 0x8C then (''(FAT32 LBA)\<newline>'', 0xFFFFFF, [])
        else if t = 0xEE then (''(GPT Protective)\<newline>'', 0xFFFFFF, [])
        else (''(Unknown)\<newline>'', 0xFF0000, [])),
       (''    Start LBA: %d\<newline>'', 0xFFFFFF, [AInt (me_lba_start m e)]),
       (''    Sectors: %d\<newline>'', 0xFFFFFF, [AInt (me_sector_count m e)])])"

text \<open>The loop over the four entries; \<open>gpt_buf\<close> is the place of the local array of \<open>gpt_parse\<close>.\<close>

fun mbr_loop :: "u64 \<Rightarrow> u64 \<Rightarrow> nat list \<Rightarrow> 'a blocks_scheme \<Rightarrow> 'a blocks_scheme option" where
  "mbr_loop gpt_buf sector [] s = Some s"
| "mbr_loop gpt_buf sector (i # is) s =
     (let t = me_partition_type (ram s) (mbr_entry sector i) in
      if t = 0 then mbr_loop gpt_buf sector is s
      else do {
        s1 \<leftarrow> say (describe_partition (ram s) sector i) s;
        if t = 0xEE then do {
          s2 \<leftarrow> kprintf ''MBR: Partition type 0xEE (GPT Protective MBR) detected.\<newline>'' 0xFFFF00 [] s1;
          (_, s3) \<leftarrow> gpt_parse gpt_buf s2;
          Some s3 }
        else do {
          s2 \<leftarrow> kprintf ''  Partition %d: Type 0x%x, Start LBA: %d, Sectors: %d\<newline>'' 0x00FFFF
            [AInt (of_nat (i + 1)), AInt (ucast t), AInt (me_lba_start (ram s) (mbr_entry sector i)),
             AInt (me_sector_count (ram s) (mbr_entry sector i))] s1;
          (_, s3) \<leftarrow> register_block_device (part_dev (ram s) sector i) s2;
          mbr_loop gpt_buf sector is s3 } })"

definition mbr_parse :: "u64 \<Rightarrow> u64 \<Rightarrow> 'a blocks_scheme \<Rightarrow> 'a blocks_scheme option" where
  "mbr_parse gpt_buf sector_buffer s =
     (let magic = mbr_signature (ram s) sector_buffer in
      if magic \<noteq> 0xAA55 then kprintf ''MBR: Invalid boot signature: 0x%x\<newline>'' 0xFF0000 [AInt (ucast magic)] s
      else do {
        s1 \<leftarrow> kprintf ''MBR: Valid MBR signature 0x%x detected!\<newline>'' 0x00FF00 [AInt (ucast magic)] s;
        mbr_loop gpt_buf sector_buffer [0..<4] s1 })"


subsection \<open>The partitions become devices\<close>

text \<open>An entry of a partition whose numbers can be printed.\<close>

definition plain_entry :: "memory \<Rightarrow> u64 \<Rightarrow> nat \<Rightarrow> bool" where
  "plain_entry m sector i \<longleftrightarrow> me_partition_type m (mbr_entry sector i) \<noteq> 0xEE \<and>
     sint (me_lba_start m (mbr_entry sector i)) \<noteq> - (2 ^ 31) \<and>
     sint (me_sector_count m (mbr_entry sector i)) \<noteq> - (2 ^ 31)"

definition add_partition :: "memory \<Rightarrow> u64 \<Rightarrow> nat \<Rightarrow> 'a blocks_scheme \<Rightarrow> 'a blocks_scheme" where
  "add_partition m sector i s =
     (if me_partition_type m (mbr_entry sector i) = 0 then s else add_device (part_dev m sector i) s)"

lemma part_printable:
  assumes "plain_entry m sector i" "i < 4"
  shows "printable (part_dev m sector i)"
proof -
  have "(ucast (ucast x :: u64) :: u32) = x" for x :: u32
    by (rule bit_word_eqI) (auto simp: bit_simps)
  moreover have "i \<in> {0, 1, 2, 3}" using assms(2) by auto
  then have "no_nul (str ''sda'' @ [0x31 + of_nat i])" by (auto simp: str_def)
  ultimately show ?thesis
    using assms(1) by (simp add: printable_def part_dev_def plain_entry_def str_def)
qed


lemma prints_partition:
  assumes "plain_entry m sector i" "i < 4"
  shows "\<forall>(f, c, a) \<in> set (describe_partition m sector i). prints f a"
    "prints ''  Partition %d: Type 0x%x, Start LBA: %d, Sectors: %d\<newline>''
       [AInt (of_nat (i + 1)), AInt (ucast (me_partition_type m (mbr_entry sector i))),
        AInt (me_lba_start m (mbr_entry sector i)), AInt (me_sector_count m (mbr_entry sector i))]"
proof -
  let ?e = "mbr_entry sector i"
  have "i \<in> {0, 1, 2, 3}" using assms(2) by auto
  then have i: "sint (of_nat (i + 1) :: u32) \<noteq> - (2 ^ 31)" by auto
  have t: "0 \<le> sint (ucast (me_partition_type m ?e) :: u32)"
  proof -
    have "\<not> bit (ucast (me_partition_type m ?e) :: u32) 31"
      by (auto simp: bit_simps dest: bit_imp_le_length)
    then show ?thesis using bit_last_iff [of "ucast (me_partition_type m ?e) :: u32"] by simp
  qed
  have n: "sint (me_lba_start m ?e) \<noteq> - (2 ^ 31)" "sint (me_sector_count m ?e) \<noteq> - (2 ^ 31)"
    using assms(1) by (simp_all add: plain_entry_def)
  have "prints ''  Partition %d:\<newline>'' [AInt (of_nat (i + 1))]" by (rule printsI) (use i in \<open>auto simp: str_def\<close>)
  moreover have "prints ''    Bootable: %s\<newline>'' [AStr (if b then str ''Yes'' else str ''No'')]" for b
    by (rule printsI) (auto simp: str_def)
  moreover have "prints ''    Type: 0x%x '' [AInt (ucast (me_partition_type m ?e))]" by (rule printsI) (use t in \<open>auto simp: str_def\<close>)
  moreover have "prints ''(Linux)\<newline>'' []" by (rule printsI) (auto simp: str_def)
  moreover have "prints ''(FAT32 LBA)\<newline>'' []" by (rule printsI) (auto simp: str_def)
  moreover have "prints ''(GPT Protective)\<newline>'' []" by (rule printsI) (auto simp: str_def)
  moreover have "prints ''(Unknown)\<newline>'' []" by (rule printsI) (auto simp: str_def)
  moreover have "prints ''    Start LBA: %d\<newline>'' [AInt (me_lba_start m ?e)]" by (rule printsI) (use n in \<open>auto simp: str_def\<close>)
  moreover have "prints ''    Sectors: %d\<newline>'' [AInt (me_sector_count m ?e)]" by (rule printsI) (use n in \<open>auto simp: str_def\<close>)
  ultimately show "\<forall>(f, c, a) \<in> set (describe_partition m sector i). prints f a"
    by (simp add: describe_partition_def Let_def)
  show "prints ''  Partition %d: Type 0x%x, Start LBA: %d, Sectors: %d\<newline>''
       [AInt (of_nat (i + 1)), AInt (ucast (me_partition_type m ?e)), AInt (me_lba_start m ?e), AInt (me_sector_count m ?e)]"
    by (rule printsI) (use i t n in \<open>auto simp: str_def\<close>)
qed

lemma add_partition_con: "add_partition m sector i (s\<lparr>con := c\<rparr>) = (add_partition m sector i s)\<lparr>con := c\<rparr>"
  by (simp add: add_partition_def add_device_def)

lemma fold_partition_con: "fold (add_partition m sector) is (s\<lparr>con := c\<rparr>) = (fold (add_partition m sector) is s)\<lparr>con := c\<rparr>"
  by (induction "is" arbitrary: s) (simp_all add: add_partition_con)

lemma fold_partition_ram:
  "ram (fold (add_partition m sector) is s) = ram s" "con (fold (add_partition m sector) is s) = con s"
  "io_in (fold (add_partition m sector) is s) = io_in s" "io_log (fold (add_partition m sector) is s) = io_log s"
  by (induction "is" arbitrary: s) (simp_all add: add_partition_def add_device_def)

lemma upto_con_fold:
  assumes "upto_con s t"
  shows "upto_con (fold (add_partition m sector) is s) (fold (add_partition m sector) is t)"
proof -
  obtain c where c: "t = s\<lparr>con := c\<rparr>" "\<not> fb_lock (con s) \<longrightarrow> \<not> fb_lock c" using assms by (auto simp: upto_con_def)
  then show ?thesis
    unfolding upto_con_def by (intro exI [of _ c]) (simp add: fold_partition_con fold_partition_ram)
qed

lemma upto_con_ram: "upto_con s t \<Longrightarrow> ram t = ram s \<and> (\<not> fb_lock (con s) \<longrightarrow> \<not> fb_lock (con t))"
  by (auto simp: upto_con_def)

lemma mbr_loop_spec:
  assumes "\<forall>i \<in> set is. i < 4 \<and> plain_entry (ram s) sector i" "\<not> fb_lock (con s)"
  shows "\<exists>t. mbr_loop gb sector is s = Some t \<and> upto_con (fold (add_partition (ram s) sector) is s) t"
  using assms
proof (induction "is" arbitrary: s)
  case (Cons i "is")
  let ?m = "ram s"
  have i: "i < 4" "plain_entry ?m sector i" using Cons.prems by simp_all
  show ?case
  proof (cases "me_partition_type ?m (mbr_entry sector i) = 0")
    case True
    with Cons.IH [of s] Cons.prems show ?thesis by (simp add: add_partition_def)
  next
    case False
    obtain s1 where s1: "say (describe_partition ?m sector i) s = Some s1" "upto_con s s1" "\<not> fb_lock (con s1)"
      using say_upto [OF prints_partition(1) [OF i(2,1)] Cons.prems(2)] by blast
    obtain s2 where s2: "kprintf ''  Partition %d: Type 0x%x, Start LBA: %d, Sectors: %d\<newline>'' 0x00FFFF
        [AInt (of_nat (i + 1)), AInt (ucast (me_partition_type ?m (mbr_entry sector i))),
         AInt (me_lba_start ?m (mbr_entry sector i)), AInt (me_sector_count ?m (mbr_entry sector i))] s1 = Some s2"
      "upto_con s1 s2" "\<not> fb_lock (con s2)"
      using kprintf_upto [OF prints_partition(2) [OF i(2,1)] s1(3)] by blast
    obtain r s3 where s3: "register_block_device (part_dev ?m sector i) s2 = Some (r, s3)"
      "upto_con (add_device (part_dev ?m sector i) s2) s3" "\<not> fb_lock (con s3)"
      using register_add [OF part_printable [OF i(2,1)] s2(3)] by blast
    have m: "ram s3 = ?m"
      using upto_con_ram [OF s3(2)] upto_con_ram [OF s2(2)] upto_con_ram [OF s1(2)] by (simp add: add_device_def)
    have "upto_con (add_partition ?m sector i s) (add_partition ?m sector i s2)"
      using upto_con_fold [OF upto_con_trans [OF s1(2) s2(2)], of ?m sector "[i]"] by simp
    then have a: "upto_con (add_partition ?m sector i s) s3"
      using upto_con_trans s3(2) False by (simp add: add_partition_def)
    obtain t where t: "mbr_loop gb sector is s3 = Some t" "upto_con (fold (add_partition ?m sector) is s3) t"
      using Cons.IH [of s3] Cons.prems s3(3) m by auto
    have "mbr_loop gb sector (i # is) s = Some t"
      using False i(2) s1(1) s2(1) s3(1) t(1) by (simp add: Let_def plain_entry_def)
    moreover have "upto_con (fold (add_partition ?m sector) (i # is) s) t"
      using upto_con_trans [OF upto_con_fold [OF a] t(2)] by simp
    ultimately show ?thesis by blast
  qed
qed simp

text \<open>A device is found under its name.\<close>

definition has_device :: "'a blocks_scheme \<Rightarrow> block_dev \<Rightarrow> bool" where
  "has_device s d \<longleftrightarrow> (\<exists>k. get_block_device (bname d) s = Some k \<and> k < num_block_devices s \<and> block_devices s k = d)"

lemma add_device_has:
  assumes "names_ok s" "no_nul (bname d)" "num_block_devices s < MAX_BLOCK_DEVICES" "get_block_device (bname d) s = None"
  shows "has_device (add_device d s) d"
    "has_device s e \<Longrightarrow> no_nul (bname e) \<Longrightarrow> bname e \<noteq> bname d \<Longrightarrow> has_device (add_device d s) e"
proof -
  note f = add_device_find [OF assms(1,2,3,4)]
  have a: "block_devices (add_device d s) = (block_devices s)(num_block_devices s := d)"
    "num_block_devices (add_device d s) = Suc (num_block_devices s)"
    using assms(3) by (simp_all add: add_device_def)
  show "has_device (add_device d s) d"
    unfolding has_device_def a by (intro exI [of _ "num_block_devices s"]) (simp add: f(1))
  assume "has_device s e" "no_nul (bname e)" "bname e \<noteq> bname d"
  then obtain k where "get_block_device (bname e) s = Some k" "k < num_block_devices s" "block_devices s k = e"
    by (auto simp: has_device_def)
  with f(2) [OF \<open>bname e \<noteq> bname d\<close> \<open>no_nul (bname e)\<close>] show "has_device (add_device d s) e"
    unfolding has_device_def a by (intro exI [of _ k]) simp
qed

definition part_name :: "nat \<Rightarrow> cstring" where
  "part_name i = str ''sda'' @ [0x31 + of_nat i]"

lemma part_name:
  "bname (part_dev m sector i) = part_name i" "i < 4 \<Longrightarrow> no_nul (part_name i)"
  "i < 4 \<Longrightarrow> j < 4 \<Longrightarrow> part_name i = part_name j \<longleftrightarrow> i = j"
proof -
  show "bname (part_dev m sector i) = part_name i" by (simp add: part_dev_def part_name_def)
  have four: "k < 4 \<Longrightarrow> k \<in> {0, 1, 2, 3}" for k :: nat by auto
  show "i < 4 \<Longrightarrow> no_nul (part_name i)" using four by (fastforce simp: part_name_def str_def)
  show "i < 4 \<Longrightarrow> j < 4 \<Longrightarrow> part_name i = part_name j \<longleftrightarrow> i = j"
    using four [of i] four [of j] by (auto simp: part_name_def)
qed

lemma fold_partitions:
  assumes "names_ok s" "distinct is" "\<forall>i \<in> set is. i < 4" "num_block_devices s + length is \<le> MAX_BLOCK_DEVICES"
    and "\<forall>i \<in> set is. get_block_device (part_name i) s = None"
  shows "names_ok (fold (add_partition m sector) is s) \<and>
    (\<forall>i \<in> set is. me_partition_type m (mbr_entry sector i) \<noteq> 0 \<longrightarrow>
       has_device (fold (add_partition m sector) is s) (part_dev m sector i)) \<and>
    (\<forall>d. has_device s d \<longrightarrow> no_nul (bname d) \<longrightarrow> bname d \<notin> part_name ` set is \<longrightarrow>
       has_device (fold (add_partition m sector) is s) d)"
  using assms
proof (induction "is" arbitrary: s)
  case (Cons i "is")
  let ?d = "part_dev m sector i" and ?s = "add_partition m sector i s"
  show ?case
  proof (cases "me_partition_type m (mbr_entry sector i) = 0")
    case True
    then have "?s = s" by (simp add: add_partition_def)
    with Cons.IH [of s] Cons.prems True show ?thesis by auto
  next
    case False
    then have s: "?s = add_device ?d s" by (simp add: add_partition_def)
    have i: "i < 4" "get_block_device (bname ?d) s = None" "no_nul (bname ?d)"
      "num_block_devices s < MAX_BLOCK_DEVICES"
      using Cons.prems part_name(2) by (simp_all add: part_name(1))
    note a = add_device_find [OF Cons.prems(1) i(3,4,2)] add_device_has [OF Cons.prems(1) i(3,4,2)]
    have ne: "part_name j \<noteq> part_name i" if "j \<in> set is" for j
      using that Cons.prems(2,3) part_name(3) [of j i] by auto
    have "get_block_device (part_name j) ?s = None" if "j \<in> set is" for j
      using a(2) [of "part_name j"] ne [OF that] part_name(2) [of j] Cons.prems(3,5) that
      by (simp add: s part_name(1))
    moreover have "num_block_devices ?s + length is \<le> MAX_BLOCK_DEVICES"
      using Cons.prems(4) i(4) by (simp add: s add_device_def)
    ultimately have ih: "names_ok (fold (add_partition m sector) is ?s)"
      "\<forall>j \<in> set is. me_partition_type m (mbr_entry sector j) \<noteq> 0 \<longrightarrow> has_device (fold (add_partition m sector) is ?s) (part_dev m sector j)"
      "\<forall>d. has_device ?s d \<longrightarrow> no_nul (bname d) \<longrightarrow> bname d \<notin> part_name ` set is \<longrightarrow> has_device (fold (add_partition m sector) is ?s) d"
      using Cons.IH [of ?s] a(3) Cons.prems(2,3) by (simp_all add: s)
    have "has_device (fold (add_partition m sector) is ?s) ?d"
      using ih(3) [rule_format, of ?d] a(4) i(3) ne by (fastforce simp: s part_name(1))
    then show ?thesis using ih a(5) by (auto simp: s part_name(1))
  qed
qed simp


subsection \<open>Properties\<close>

lemma upto_con_has: "upto_con s t \<Longrightarrow> has_device s d \<Longrightarrow> has_device t d"
  unfolding has_device_def using upto_con_devices [of s t] get_block_device_cong [of t s] by metis

lemma mbr_parse_spec:
  assumes sig: "mbr_signature (ram s) sector = 0xAA55" and e: "\<forall>i < 4. plain_entry (ram s) sector i"
    and l: "\<not> fb_lock (con s)" and ok: "names_ok s" "num_block_devices s + 4 \<le> MAX_BLOCK_DEVICES"
    and new: "\<forall>i < 4. get_block_device (part_name i) s = None"
  shows "\<exists>t. mbr_parse gb sector s = Some t \<and> upto_con (fold (add_partition (ram s) sector) [0..<4] s) t \<and>
    (\<forall>i < 4. me_partition_type (ram s) (mbr_entry sector i) \<noteq> 0 \<longrightarrow> has_device t (part_dev (ram s) sector i)) \<and>
    (\<forall>d. has_device s d \<longrightarrow> no_nul (bname d) \<longrightarrow> bname d \<notin> part_name ` {..<4} \<longrightarrow> has_device t d)"
proof -
  have "prints ''MBR: Valid MBR signature 0x%x detected!\<newline>'' [AInt (ucast (0xAA55 :: u16))]"
    by (rule printsI) (auto simp: str_def)
  from kprintf_upto [OF this l] obtain s1 where
    s1: "kprintf ''MBR: Valid MBR signature 0x%x detected!\<newline>'' 0x00FF00 [AInt (ucast (0xAA55 :: u16))] s = Some s1"
    "upto_con s s1" "\<not> fb_lock (con s1)" by blast
  note r = upto_con_ram [OF s1(2)]
  obtain t where t: "mbr_loop gb sector [0..<4] s1 = Some t" "upto_con (fold (add_partition (ram s1) sector) [0..<4] s1) t"
    using mbr_loop_spec [of "[0..<4]" s1 sector gb] e r s1(3) by auto
  have "mbr_parse gb sector s = Some t" using sig s1(1) t(1) by (simp add: mbr_parse_def)
  moreover have u: "upto_con (fold (add_partition (ram s) sector) [0..<4] s) t"
    using upto_con_trans [OF upto_con_fold [OF s1(2)] t(2)] r by simp
  have "names_ok (fold (add_partition (ram s) sector) [0..<4] s) \<and>
    (\<forall>i \<in> set [0..<4]. me_partition_type (ram s) (mbr_entry sector i) \<noteq> 0 \<longrightarrow>
       has_device (fold (add_partition (ram s) sector) [0..<4] s) (part_dev (ram s) sector i)) \<and>
    (\<forall>d. has_device s d \<longrightarrow> no_nul (bname d) \<longrightarrow> bname d \<notin> part_name ` set [0..<4] \<longrightarrow>
       has_device (fold (add_partition (ram s) sector) [0..<4] s) d)"
    by (rule fold_partitions) (use ok new in auto)
  ultimately show ?thesis using u upto_con_has [OF u] by (auto simp: atLeast0LessThan)
qed

text \<open>
  C34. After the partition table of a disk is parsed, each used entry \<open>i\<close> is a block device
  named \<open>sda1\<close> to \<open>sda4\<close>, and reading from it delivers the sectors of the disk from the
  partition's first one on; devices registered before are still found.
\<close>

theorem mbr_partitions_read:
  assumes "mbr_signature (ram s) sector_buffer = 0xAA55" "\<forall>i < 4. plain_entry (ram s) sector_buffer i"
    and "\<not> fb_lock (con s)" "names_ok s" "num_block_devices s + 4 \<le> MAX_BLOCK_DEVICES"
    and "\<forall>i < 4. get_block_device (part_name i) s = None" and "ata_drive sector (io_in s)"
    and "drive_idle s"
  shows "\<exists>t. mbr_parse gb sector_buffer s = Some t \<and>
    (\<forall>d. has_device s d \<longrightarrow> no_nul (bname d) \<longrightarrow> bname d \<notin> part_name ` {..<4} \<longrightarrow> has_device t d) \<and>
    (\<forall>i < 4. me_partition_type (ram s) (mbr_entry sector_buffer i) \<noteq> 0 \<longrightarrow>
      (\<exists>k. get_block_device (part_name i) t = Some k \<and>
        (\<forall>lba count buf. buf \<noteq> 0 \<longrightarrow>
          unat (me_lba_start (ram s) (mbr_entry sector_buffer i)) + unat lba + unat count \<le> 2 ^ 28 \<longrightarrow>
          unat buf + 512 * unat count \<le> 2 ^ 64 \<longrightarrow> 512 * unat count < 2 ^ 32 \<longrightarrow>
          (\<exists>u. block_read (Some k) lba count buf t = Some (True, u) \<and>
            (\<forall>j b. j < unat count \<longrightarrow> b < 512 \<longrightarrow> ram u (buf + of_nat (512 * j + b)) =
               sector_byte (sector (unat (me_lba_start (ram s) (mbr_entry sector_buffer i)) + unat lba + j)) b)))))"
proof -
  from mbr_parse_spec [OF assms(1-6)] obtain t where t: "mbr_parse gb sector_buffer s = Some t"
    "upto_con (fold (add_partition (ram s) sector_buffer) [0..<4] s) t"
    "\<And>i. i < 4 \<Longrightarrow> me_partition_type (ram s) (mbr_entry sector_buffer i) \<noteq> 0 \<Longrightarrow> has_device t (part_dev (ram s) sector_buffer i)"
    "\<forall>d. has_device s d \<longrightarrow> no_nul (bname d) \<longrightarrow> bname d \<notin> part_name ` {..<4} \<longrightarrow> has_device t d"
    by blast
  have io: "ata_drive sector (io_in t)" "drive_idle t"
    using upto_con_devices [OF t(2)] assms(7,8) by (simp_all add: fold_partition_ram drive_idle_def)
  show ?thesis
  proof (rule exI [of _ t], intro conjI t(1,4) allI impI)
    fix i
    assume i: "i < 4" "me_partition_type (ram s) (mbr_entry sector_buffer i) \<noteq> 0"
    let ?d = "part_dev (ram s) sector_buffer i" and ?lba = "me_lba_start (ram s) (mbr_entry sector_buffer i)"
    from t(3) [OF i] obtain k where k: "get_block_device (part_name i) t = Some k" "block_devices t k = ?d"
      by (auto simp: has_device_def part_name(1))
    show "\<exists>k. get_block_device (part_name i) t = Some k \<and>
        (\<forall>lba count buf. buf \<noteq> 0 \<longrightarrow> unat ?lba + unat lba + unat count \<le> 2 ^ 28 \<longrightarrow>
          unat buf + 512 * unat count \<le> 2 ^ 64 \<longrightarrow> 512 * unat count < 2 ^ 32 \<longrightarrow>
          (\<exists>u. block_read (Some k) lba count buf t = Some (True, u) \<and>
            (\<forall>j b. j < unat count \<longrightarrow> b < 512 \<longrightarrow> ram u (buf + of_nat (512 * j + b)) =
               sector_byte (sector (unat ?lba + unat lba + j)) b)))"
    proof (rule exI [of _ k], intro conjI k(1) allI impI)
      fix lba buf :: u64 and count :: u32
      assume h: "buf \<noteq> 0" "unat ?lba + unat lba + unat count \<le> 2 ^ 28"
        "unat buf + 512 * unat count \<le> 2 ^ 64" "512 * unat count < 2 ^ 32"
      have a: "unat (ucast ?lba + lba) = unat ?lba + unat lba"
        using unat_add_small [of "ucast ?lba" lba] h(2) by simp
      from sectors_loop_spec [OF io(1) h(1) _ _ _ io(2), of "ucast ?lba + lba" 0 "unat count"] h(2-4)
      show "\<exists>u. block_read (Some k) lba count buf t = Some (True, u) \<and>
            (\<forall>j b. j < unat count \<longrightarrow> b < 512 \<longrightarrow> ram u (buf + of_nat (512 * j + b)) =
               sector_byte (sector (unat ?lba + unat lba + j)) b)"
        by (auto simp: block_read_def k(2) part_dev_def ata_block_read_def a)
    qed
  qed
qed

text \<open>A sector with one Linux partition of 100 sectors that starts at sector 2048.\<close>

definition sample_mbr :: memory where
  "sample_mbr = (\<lambda>_. 0)(0x81FE := 0x55, 0x81FF := 0xAA, 0x81C2 := 0x83, 0x81C7 := 0x08, 0x81CA := 100)"

lemma sample_mbr_fields:
  "mbr_signature sample_mbr 0x8000 = 0xAA55" "me_partition_type sample_mbr (mbr_entry 0x8000 0) = 0x83"
  "me_lba_start sample_mbr (mbr_entry 0x8000 0) = 2048" "\<forall>i < 4. plain_entry sample_mbr 0x8000 i"
proof -
  have all: "(\<forall>i < 4. P i) \<longleftrightarrow> P 0 \<and> P 1 \<and> P 2 \<and> P 3" for P :: "nat \<Rightarrow> bool"
    by (simp add: numeral_eq_Suc All_less_Suc) blast
  note f = mbr_signature_def mbr_entry_def me_partition_type_def me_lba_start_def me_sector_count_def
    load16_def load32_def sample_mbr_def
  show "mbr_signature sample_mbr 0x8000 = 0xAA55" by (simp add: f)
  show "me_partition_type sample_mbr (mbr_entry 0x8000 0) = 0x83" by (simp add: f)
  show "me_lba_start sample_mbr (mbr_entry 0x8000 0) = 2048" by (simp add: f)
  show "\<forall>i < 4. plain_entry sample_mbr 0x8000 i" unfolding all plain_entry_def by (simp add: f)
qed

lemma mbr_partitions_read_witness:
  "\<exists>t k. mbr_parse 0x9000 0x8000 (blocks_zero\<lparr>ram := sample_mbr, io_in := sample_io\<rparr>) = Some t \<and>
    get_block_device (str ''sda1'') t = Some k \<and>
    (\<exists>u. block_read (Some k) 3 1 0xA000 t = Some (True, u) \<and> ram u 0xA004 = 2053 mod 256)"
proof -
  let ?s = "blocks_zero\<lparr>ram := sample_mbr, io_in := sample_io\<rparr>"
  have p: "names_ok ?s" "num_block_devices ?s + 4 \<le> MAX_BLOCK_DEVICES" "\<forall>i < 4. get_block_device (part_name i) ?s = None"
    "\<not> fb_lock (con ?s)" "mbr_signature (ram ?s) 0x8000 = 0xAA55" "\<forall>i < 4. plain_entry (ram ?s) 0x8000 i"
    "ata_drive (\<lambda>n k. of_nat (n + k)) (io_in ?s)" "drive_idle ?s"
    using sample_drive sample_mbr_fields
    by (simp_all add: drive_idle_def blocks_zero_log names_ok_def blocks_zero_simps MAX_BLOCK_DEVICES_def get_block_device_def small_console_ok)
  have z: "(0 :: nat) < 4" "me_partition_type (ram ?s) (mbr_entry 0x8000 0) \<noteq> 0"
    "part_name 0 = str ''sda1''" "me_lba_start (ram ?s) (mbr_entry 0x8000 0) = 2048"
    using sample_mbr_fields by (simp_all add: part_name_def str_def)
  from mbr_partitions_read [OF p(5,6,4,1,2,3,7,8), of "0x9000"] z obtain t k where
    t: "mbr_parse 0x9000 0x8000 ?s = Some t" "get_block_device (str ''sda1'') t = Some k"
    and r: "\<And>lba count buf. buf \<noteq> 0 \<Longrightarrow> 2048 + unat lba + unat count \<le> 2 ^ 28 \<Longrightarrow>
      unat buf + 512 * unat count \<le> 2 ^ 64 \<Longrightarrow> 512 * unat count < 2 ^ 32 \<Longrightarrow>
      \<exists>u. block_read (Some k) lba count buf t = Some (True, u) \<and>
        (\<forall>j b. j < unat count \<longrightarrow> b < 512 \<longrightarrow> ram u (buf + of_nat (512 * j + b)) =
           sector_byte (\<lambda>k. of_nat (2048 + unat lba + j + k)) b)"
    by fastforce
  from r [of "0xA000" 3 1] obtain u where u: "block_read (Some k) 3 1 0xA000 t = Some (True, u)"
    "\<And>b. b < 512 \<Longrightarrow> ram u (0xA000 + of_nat b) = sector_byte (\<lambda>k. of_nat (2051 + k)) b" by fastforce
  from u(2) [of 4] have "ram u 0xA004 = 2053 mod 256" by (simp add: sector_byte_def)
  with t u(1) show ?thesis by blast
qed


subsection \<open>The header is overwritten\<close>

text \<open>
  The entries are read into the buffer the header lies in, so the number of entries is from
  then on taken from bytes 80 to 83 of the first entry, the thirteenth and fourteenth
  character of its name. When the name is shorter, nothing is listed at all.
\<close>

definition holds_sector :: "memory \<Rightarrow> u64 \<Rightarrow> (nat \<Rightarrow> u16) \<Rightarrow> bool" where
  "holds_sector m b w \<longleftrightarrow> (\<forall>k < 512. m (b + of_nat k) = sector_byte w k)"

lemma holds_sector_byte:
  assumes "holds_sector m b w" "holds_sector h b w"
  shows "m b = h b" "numeral n < (512 :: nat) \<Longrightarrow> m (b + numeral n) = h (b + numeral n)" "m (b + 1) = h (b + 1)"
proof -
  have k: "m (b + of_nat k) = h (b + of_nat k)" if "k < 512" for k
    using assms that by (simp add: holds_sector_def)
  show "m b = h b" using k [of 0] by simp
  show "m (b + 1) = h (b + 1)" using k [of 1] by simp
  show "numeral n < (512 :: nat) \<Longrightarrow> m (b + numeral n) = h (b + numeral n)" using k [of "numeral n"] by simp
qed

lemma gpt_header_cong:
  assumes "holds_sector m b w" "holds_sector h b w"
  shows "gh_signature m b = gh_signature h b" "gpt_layout_ok m b = gpt_layout_ok h b"
    "gh_num_partition_entries m b = gh_num_partition_entries h b"
    "gh_size_of_partition_entry m b = gh_size_of_partition_entry h b"
    "gh_partition_entry_lba m b = gh_partition_entry_lba h b"
proof -
  note c = holds_sector_byte [OF assms]
  note l = load64_def load32_def load16_def
  have f: "gh_header_size m b = gh_header_size h b" "gh_my_lba m b = gh_my_lba h b"
    by (simp_all add: gh_header_size_def gh_my_lba_def l c add.assoc)
  show s: "gh_num_partition_entries m b = gh_num_partition_entries h b"
    "gh_size_of_partition_entry m b = gh_size_of_partition_entry h b"
    by (simp_all add: gh_num_partition_entries_def gh_size_of_partition_entry_def l c add.assoc)
  show "gh_signature m b = gh_signature h b" "gh_partition_entry_lba m b = gh_partition_entry_lba h b"
    by (simp_all add: gh_signature_def gh_partition_entry_lba_def l c add.assoc)
  show "gpt_layout_ok m b = gpt_layout_ok h b" by (simp add: gpt_layout_ok_def f s)
qed

lemma gpt_lists_nothing:
  fixes s :: "'a machine_scheme"
  assumes d: "ata_drive sector (io_in s)" "drive_idle s" and b: "buf \<noteq> 0" "unat buf + 512 \<le> 2 ^ 64" and l: "\<not> fb_lock (con s)"
    and h: "holds_sector h buf (sector 1)" "gh_signature h buf = GPT_SIGNATURE" "gpt_layout_ok h buf"
      "sint (gh_num_partition_entries h buf) \<noteq> - (2 ^ 31)"
    and e: "holds_sector e buf (sector (unat (ucast (gh_partition_entry_lba h buf) :: u32) mod 2 ^ 28))"
      "gh_num_partition_entries e buf = 0"
  shows "\<exists>(s1 :: 'a machine_scheme) s2 t. gpt_parse buf s = Some (1, t) \<and> con s1 = con s \<and> con t = con s2 \<and>
    say [(''GPT: Valid GPT header detected\<newline>'', 0x00FF00, []),
      (''  Entries: %d, Entry Size: %d bytes\<newline>'', 0x00FFFF, [AInt (gh_num_partition_entries h buf), AInt 128])] s1 = Some s2"
proof -
  obtain l1 m1 where r1: "ata_read_sector28 1 buf s = Some (True, s\<lparr>io_log := l1, ram := m1\<rparr>)"
    and m1: "holds_sector m1 buf (sector 1)" and i1: "drive_idle (s\<lparr>io_log := l1, ram := m1\<rparr>)"
    using ata_sector_spec [OF d b, of 1] by (auto simp: holds_sector_def)
  let ?s1 = "s\<lparr>io_log := l1, ram := m1\<rparr>"
  note c = gpt_header_cong [OF m1 h(1)]
  have size: "gh_size_of_partition_entry h buf = 128" "gh_num_partition_entries h buf \<noteq> 0"
    using h(3) by (simp_all add: gpt_layout_ok_def sizeof_gpt_entry_def)
  let ?msgs = "[(''GPT: Valid GPT header detected\<newline>'', 0x00FF00, []),
      (''  Entries: %d, Entry Size: %d bytes\<newline>'', 0x00FFFF, [AInt (gh_num_partition_entries h buf), AInt 128])]"
  have p: "prints ''GPT: Valid GPT header detected\<newline>'' []" by (rule printsI) (auto simp: str_def)
  have q: "prints ''  Entries: %d, Entry Size: %d bytes\<newline>'' [AInt (gh_num_partition_entries h buf), AInt 128]"
    by (rule printsI) (use h(4) in \<open>auto simp: str_def\<close>)
  from say_upto [of ?msgs ?s1] p q l obtain s2 where s2: "say ?msgs ?s1 = Some s2" "upto_con ?s1 s2" "\<not> fb_lock (con s2)"
    by auto
  obtain k where k: "s2 = ?s1\<lparr>con := k\<rparr>" using s2(2) by (auto simp: upto_con_def)
  have d2: "ata_drive sector (io_in s2)" "drive_idle s2" and m2: "ram s2 = m1"
    using d i1 by (simp_all add: k drive_idle_def)
  let ?lba = "ucast (gh_partition_entry_lba h buf) :: u32"
  obtain l3 m3 where r3: "ata_read_sector28 ?lba buf s2 = Some (True, s2\<lparr>io_log := l3, ram := m3\<rparr>)"
    and m3: "holds_sector m3 buf (sector (unat ?lba mod 2 ^ 28))"
    using ata_sector_spec [OF d2 b, of ?lba] by (auto simp: holds_sector_def)
  have zero: "gh_num_partition_entries m3 buf = 0" using gpt_header_cong(3) [OF m3 e(1)] e(2) by simp
  let ?t = "s2\<lparr>io_log := l3, ram := m3\<rparr>"
  have "gpt_entries n buf 0 0 ?t = Some (0, ?t)" for n by (cases n) (simp_all add: zero)
  moreover have "gpt_loop buf a n 0 ?t = Some (1, ?t)" for a n
    by (subst gpt_loop.simps) (simp add: zero)
  moreover have "gpt_loop buf (gh_partition_entry_lba h buf) 4 0 s2 =
      Option.bind (gpt_entries 4 buf 0 0 ?t) (\<lambda>(parsed', s). gpt_loop buf (gh_partition_entry_lba h buf + 1) 4 parsed' s)"
    by (subst gpt_loop.simps) (simp add: m2 c size r3 word_gt_0)
  ultimately have "gpt_loop buf (gh_partition_entry_lba h buf) 4 0 s2 = Some (1, ?t)" by simp
  then have "gpt_parse buf s = Some (1, ?t)"
    using r1 s2(1) by (simp add: gpt_parse_def c h(2,3) size m2)
  then show ?thesis using s2(1) by (intro exI [of _ ?s1] exI [of _ s2] exI [of _ ?t]) simp
qed

text \<open>\<open>printf\<close> has no \<open>%lx\<close>: the number is left out.\<close>

lemma gpt_signature_text: "render (str ''GPT: Invalid signature: 0x%lx'') [AInt v] = Some (str ''GPT: Invalid signature: 0xx'')"
  by (simp add: str_def)

end
