(* ===== verification/Elf.thy ===== *)
theory Elf
  imports Fd
begin

text \<open>
  The ELF format, \<open>elf/elf.h\<close>, and the loader of user programs, \<open>elf/loader.c\<close>. The
  members of the structures are read where the code reads them, in the bytes of the image in
  memory. The frames of the program are filled through the direct map.
\<close>


subsection \<open>The format\<close>

definition ELFMAG0 :: u8 where "ELFMAG0 = 0x7F"
definition ELFMAG1 :: u8 where "ELFMAG1 = 0x45"
definition ELFMAG2 :: u8 where "ELFMAG2 = 0x4C"
definition ELFMAG3 :: u8 where "ELFMAG3 = 0x46"
definition ELFCLASS64 :: u8 where "ELFCLASS64 = 2"
definition ET_REL :: u16 where "ET_REL = 1"
definition ET_EXEC :: u16 where "ET_EXEC = 2"
definition EM_X86_64 :: u16 where "EM_X86_64 = 62"
definition SHT_SYMTAB :: u32 where "SHT_SYMTAB = 2"
definition SHT_STRTAB :: u32 where "SHT_STRTAB = 3"
definition SHT_RELA :: u32 where "SHT_RELA = 4"
definition SHT_NOBITS :: u32 where "SHT_NOBITS = 8"
definition SHF_ALLOC :: u64 where "SHF_ALLOC = 0x2"
definition SHN_UNDEF :: u16 where "SHN_UNDEF = 0"
definition SHN_ABS :: u16 where "SHN_ABS = 0xfff1"
definition R_X86_64_NONE :: u32 where "R_X86_64_NONE = 0"
definition R_X86_64_64 :: u32 where "R_X86_64_64 = 1"
definition R_X86_64_PC32 :: u32 where "R_X86_64_PC32 = 2"
definition R_X86_64_PLT32 :: u32 where "R_X86_64_PLT32 = 4"
definition R_X86_64_32 :: u32 where "R_X86_64_32 = 10"
definition R_X86_64_32S :: u32 where "R_X86_64_32S = 11"
definition PT_LOAD :: u32 where "PT_LOAD = 1"
definition PF_W :: u32 where "PF_W = 0x2"

text \<open>\<open>Elf64_Ehdr\<close>, 64 bytes.\<close>

definition sizeof_Ehdr :: u64 where "sizeof_Ehdr = 64"
definition e_ident :: "memory \<Rightarrow> u64 \<Rightarrow> u64 \<Rightarrow> u8" where "e_ident m h i = m (h + i)"
definition e_type :: "memory \<Rightarrow> u64 \<Rightarrow> u16" where "e_type m h = load16 m (h + 16)"
definition e_machine :: "memory \<Rightarrow> u64 \<Rightarrow> u16" where "e_machine m h = load16 m (h + 18)"
definition e_entry :: "memory \<Rightarrow> u64 \<Rightarrow> u64" where "e_entry m h = load64 m (h + 24)"
definition e_phoff :: "memory \<Rightarrow> u64 \<Rightarrow> u64" where "e_phoff m h = load64 m (h + 32)"
definition e_shoff :: "memory \<Rightarrow> u64 \<Rightarrow> u64" where "e_shoff m h = load64 m (h + 40)"
definition e_phnum :: "memory \<Rightarrow> u64 \<Rightarrow> u16" where "e_phnum m h = load16 m (h + 56)"
definition e_shentsize :: "memory \<Rightarrow> u64 \<Rightarrow> u16" where "e_shentsize m h = load16 m (h + 58)"
definition e_shnum :: "memory \<Rightarrow> u64 \<Rightarrow> u16" where "e_shnum m h = load16 m (h + 60)"

text \<open>\<open>Elf64_Shdr\<close>, 64 bytes.\<close>

definition sizeof_Shdr :: u64 where "sizeof_Shdr = 64"
definition sh_type :: "memory \<Rightarrow> u64 \<Rightarrow> u32" where "sh_type m h = load32 m (h + 4)"
definition sh_flags :: "memory \<Rightarrow> u64 \<Rightarrow> u64" where "sh_flags m h = load64 m (h + 8)"
definition sh_addr :: "memory \<Rightarrow> u64 \<Rightarrow> u64" where "sh_addr m h = load64 m (h + 16)"
definition sh_offset :: "memory \<Rightarrow> u64 \<Rightarrow> u64" where "sh_offset m h = load64 m (h + 24)"
definition sh_size :: "memory \<Rightarrow> u64 \<Rightarrow> u64" where "sh_size m h = load64 m (h + 32)"
definition sh_link :: "memory \<Rightarrow> u64 \<Rightarrow> u32" where "sh_link m h = load32 m (h + 40)"
definition sh_info :: "memory \<Rightarrow> u64 \<Rightarrow> u32" where "sh_info m h = load32 m (h + 44)"
definition sh_addralign :: "memory \<Rightarrow> u64 \<Rightarrow> u64" where "sh_addralign m h = load64 m (h + 48)"

text \<open>\<open>Elf64_Sym\<close> and \<open>Elf64_Rela\<close>, 24 bytes each.\<close>

definition sizeof_Sym :: u64 where "sizeof_Sym = 24"
definition st_name :: "memory \<Rightarrow> u64 \<Rightarrow> u32" where "st_name m h = load32 m h"
definition st_shndx :: "memory \<Rightarrow> u64 \<Rightarrow> u16" where "st_shndx m h = load16 m (h + 6)"
definition st_value :: "memory \<Rightarrow> u64 \<Rightarrow> u64" where "st_value m h = load64 m (h + 8)"
definition sizeof_Rela :: u64 where "sizeof_Rela = 24"
definition r_offset :: "memory \<Rightarrow> u64 \<Rightarrow> u64" where "r_offset m h = load64 m h"
definition r_info :: "memory \<Rightarrow> u64 \<Rightarrow> u64" where "r_info m h = load64 m (h + 8)"
definition r_addend :: "memory \<Rightarrow> u64 \<Rightarrow> u64" where "r_addend m h = load64 m (h + 16)"
definition ELF64_R_SYM :: "u64 \<Rightarrow> u64" where "ELF64_R_SYM info = drop_bit 32 info"
definition ELF64_R_TYPE :: "u64 \<Rightarrow> u32" where "ELF64_R_TYPE info = ucast info"

text \<open>\<open>Elf64_Phdr\<close>, 56 bytes.\<close>

definition sizeof_Phdr :: u64 where "sizeof_Phdr = 56"
definition p_type :: "memory \<Rightarrow> u64 \<Rightarrow> u32" where "p_type m h = load32 m h"
definition p_flags :: "memory \<Rightarrow> u64 \<Rightarrow> u32" where "p_flags m h = load32 m (h + 4)"
definition p_offset :: "memory \<Rightarrow> u64 \<Rightarrow> u64" where "p_offset m h = load64 m (h + 8)"
definition p_vaddr :: "memory \<Rightarrow> u64 \<Rightarrow> u64" where "p_vaddr m h = load64 m (h + 16)"
definition p_filesz :: "memory \<Rightarrow> u64 \<Rightarrow> u64" where "p_filesz m h = load64 m (h + 32)"
definition p_memsz :: "memory \<Rightarrow> u64 \<Rightarrow> u64" where "p_memsz m h = load64 m (h + 40)"

definition elf_magic :: "memory \<Rightarrow> u64 \<Rightarrow> bool" where
  "elf_magic m h \<longleftrightarrow> \<not> (e_ident m h 0 \<noteq> ELFMAG0 \<or> e_ident m h 1 \<noteq> ELFMAG1 \<or>
     e_ident m h 2 \<noteq> ELFMAG2 \<or> e_ident m h 3 \<noteq> ELFMAG3)"


subsection \<open>Loading a program\<close>

text \<open>The bytes of one page: cleared, then the part of the segment's file data that falls into it.\<close>

definition fill_page :: "u64 \<Rightarrow> u64 \<Rightarrow> u64 \<Rightarrow> u64 \<Rightarrow> u64 \<Rightarrow> u64 \<Rightarrow> memory \<Rightarrow> memory" where
  "fill_page elf_binary virt_page curr_page_vaddr vaddr filesz offset m =
     (let m1 = for_up 0 4096 (\<lambda>b m. m(virt_page + b := 0)) m;
          seg_start = vaddr; seg_end = vaddr + filesz;
          copy_start = (if curr_page_vaddr < seg_start then seg_start else curr_page_vaddr);
          copy_end = (if curr_page_vaddr + 0x1000 > seg_end then seg_end else curr_page_vaddr + 0x1000)
      in if copy_start < copy_end then
        let amount = copy_end - copy_start;
            src = elf_binary + (offset + (copy_start - seg_start));
            dest = virt_page + (copy_start - curr_page_vaddr)
        in for_up 0 amount (\<lambda>j m. m(dest + j := m (src + j))) m1
      else m1)"

text \<open>The body of the loop over the pages of a segment. The result of \<open>pmm_alloc\<close> is not checked.\<close>

definition load_page :: "u64 \<Rightarrow> u64 \<Rightarrow> u64 \<Rightarrow> u64 \<Rightarrow> u64 \<Rightarrow> u64 \<Rightarrow> 'a machine_scheme \<Rightarrow> 'a machine_scheme option" where
  "load_page elf_binary phdr vaddr filesz offset p s =
     (let page_vaddr = page_base vaddr;
          (phys_frame, s1) = pmm_alloc s;
          flgs = (if p_flags (ram s1) phdr AND PF_W \<noteq> 0 then PTE_PRESENT OR PTE_USER OR PTE_WRITE
                  else PTE_PRESENT OR PTE_USER)
      in do {
        s2 \<leftarrow> vmm_map_page (page_vaddr + p * 0x1000) phys_frame flgs s1;
        Some (s2\<lparr>ram := fill_page elf_binary (phys_to_virt s2 phys_frame) (page_vaddr + p * 0x1000)
          vaddr filesz offset (ram s2)\<rparr>) })"

definition segment_pages :: "u64 \<Rightarrow> u64 \<Rightarrow> u64" where
  "segment_pages vaddr memsz = ((memsz + (vaddr AND 0xFFF)) + 0xFFF) div 0x1000"

definition load_segment :: "u64 \<Rightarrow> u64 \<Rightarrow> 'a machine_scheme \<Rightarrow> 'a machine_scheme option" where
  "load_segment elf_binary phdr s =
     (if p_type (ram s) phdr = PT_LOAD then
        for_opt 0 (segment_pages (p_vaddr (ram s) phdr) (p_memsz (ram s) phdr))
          (load_page elf_binary phdr (p_vaddr (ram s) phdr) (p_filesz (ram s) phdr) (p_offset (ram s) phdr)) s
      else Some s)"

text \<open>The number of program headers is read again before every round.\<close>

function load_segments :: "u64 \<Rightarrow> u64 \<Rightarrow> nat \<Rightarrow> 'a machine_scheme \<Rightarrow> 'a machine_scheme option" where
  "load_segments elf_binary phdr i s =
     (if i < unat (e_phnum (ram s) elf_binary) then do {
        s1 \<leftarrow> load_segment elf_binary (phdr + of_nat i * sizeof_Phdr) s;
        load_segments elf_binary phdr (Suc i) s1 }
      else Some s)"
  by pat_completeness auto

termination
proof (relation "measure (\<lambda>(b, p, i, s). 2 ^ 16 - i)")
  fix b p i s s1
  assume "i < unat (e_phnum (ram s) b)"
  moreover have "unat (e_phnum (ram s) b) < 2 ^ 16" using unsigned_less [of "e_phnum (ram s) b"] by simp
  ultimately show "((b, p, Suc i, s1), (b, p, i, s)) \<in> measure (\<lambda>(b, p, i, s). 2 ^ 16 - i)" by simp
qed simp

declare load_segments.simps [simp del]

text \<open>
  The arguments of the last message are in the wrong order: the entry point is passed as the
  colour and the colour as the number.
\<close>

definition elf_load :: "bool \<Rightarrow> u64 \<Rightarrow> u64 \<Rightarrow> 'a machine_scheme \<Rightarrow> (u64 \<times> 'a machine_scheme) option" where
  "elf_load debug elf_binary user_pml4 s =
     (if \<not> elf_magic (ram s) elf_binary then do {
        s1 \<leftarrow> (if debug then kprintf ''ELF: Invalid magic number\<newline>'' 0xFF0000 [] s else Some s);
        Some (0, s1) }
      else if e_machine (ram s) elf_binary \<noteq> EM_X86_64 \<or> e_type (ram s) elf_binary \<noteq> ET_EXEC then do {
        s1 \<leftarrow> (if debug then kprintf ''ELF: Not a valid x86_64 executable\<newline>'' 0xFF0000 [] s else Some s);
        Some (0, s1) }
      else do {
        s1 \<leftarrow> load_segments elf_binary (elf_binary + e_phoff (ram s) elf_binary) 0 s;
        s2 \<leftarrow> (if debug then kprintf ''ELF: Successfully loaded executable. Entry: 0x%x\<newline>''
                 (ucast (e_entry (ram s1) elf_binary)) [AInt 0x00FF00] s1 else Some s1);
        Some (e_entry (ram s2) elf_binary, s2) })"


subsection \<open>Filling a page\<close>

lemma fill_page_spec:
  assumes c: "unat cur + 4096 < 2 ^ 64" and v: "unat vaddr + unat filesz < 2 ^ 64"
    and src: "\<And>k. k < filesz \<Longrightarrow> \<not> (bin + (offset + k)) - vp < 4096"
  shows "fill_page bin vp cur vaddr filesz offset m x =
    (if x - vp < 4096 then
       if vaddr \<le> cur + (x - vp) \<and> cur + (x - vp) < vaddr + filesz then m (bin + (offset + (cur + (x - vp) - vaddr))) else 0
     else m x)"
proof -
  define y where "y = x - vp"
  define cs where "cs = (if cur < vaddr then vaddr else cur)"
  define ce where "ce = (if cur + 0x1000 > vaddr + filesz then vaddr + filesz else cur + 0x1000)"
  define m1 where "m1 = for_up 0 4096 (\<lambda>b m. m(vp + b := 0)) m"
  have m1: "m1 z = (if z - vp < 4096 then 0 else m z)" for z
    using memset_spec [of vp 0 4096 m z] by (simp add: m1_def memset_def)
  have u: "unat (cur + 0x1000) = unat cur + 4096" "unat (vaddr + filesz) = unat vaddr + unat filesz"
    using c v by (subst unat_add_small; simp)+
  have cs: "unat cs = max (unat cur) (unat vaddr)" by (simp add: cs_def word_less_nat_alt)
  have ce: "unat ce = min (unat cur + 4096) (unat vaddr + unat filesz)"
    unfolding ce_def word_less_nat_alt u by (simp add: u)
  have f: "fill_page bin vp cur vaddr filesz offset m =
      (if cs < ce then memcpy (vp + (cs - cur)) (bin + (offset + (cs - vaddr))) (ce - cs) m1 else m1)"
    by (simp add: fill_page_def Let_def cs_def ce_def m1_def memcpy_def)
  show ?thesis
  proof (cases "cs < ce")
    case False
    then have "unat ce \<le> unat cs" by (simp add: word_less_nat_alt)
    have "\<not> (vaddr \<le> cur + y \<and> cur + y < vaddr + filesz)" if y: "y < 4096"
    proof -
      have "unat (cur + y) = unat cur + unat y"
        using c y by (subst unat_add_small) (simp_all add: word_less_nat_alt)
      with y \<open>unat ce \<le> unat cs\<close> show ?thesis unfolding cs ce word_le_nat_alt word_less_nat_alt u
        by (simp split: split_max split_min) linarith
    qed
    with False show ?thesis unfolding f by (auto simp: m1 y_def)
  next
    case True
    then have lt: "unat cs < unat ce" by (simp add: word_less_nat_alt)
    have d: "unat (cs - cur) = unat cs - unat cur" "unat (ce - cs) = unat ce - unat cs" "unat (cs - vaddr) = unat cs - unat vaddr"
      using lt by (simp_all add: unat_sub word_le_nat_alt cs)
    have room: "unat (cs - cur) + unat (ce - cs) \<le> 4096" using lt unfolding d ce cs by linarith
    have k: "unat (cs - vaddr + j) = unat (cs - vaddr) + unat j" "cs - vaddr + j < filesz" if "j < ce - cs" for j
    proof -
      have j: "unat j < unat ce - unat cs" using that d(2) by (simp add: word_less_nat_alt)
      then have "unat cs - unat vaddr + unat j < unat filesz" unfolding ce cs by linarith
      then show "unat (cs - vaddr + j) = unat (cs - vaddr) + unat j"
        unfolding d(3) [symmetric] using unat_u64 [of filesz] by (intro unat_add_small) linarith
      with \<open>unat cs - unat vaddr + unat j < unat filesz\<close> show "cs - vaddr + j < filesz"
        unfolding word_less_nat_alt d(3) by simp
    qed
    have out: "\<not> (bin + (offset + (cs - vaddr))) + j - vp < 4096" if "j < ce - cs" for j
      using src [OF k(2) [OF that]] by (simp add: add.assoc)
    have ne: "(vp + (cs - cur)) + i \<noteq> (bin + (offset + (cs - vaddr))) + j" if ij: "i < ce - cs" "j < ce - cs" for i j
    proof
      assume e: "(vp + (cs - cur)) + i = (bin + (offset + (cs - vaddr))) + j"
      have "unat (cs - cur + i) = unat (cs - cur) + unat i"
        using room ij(1) by (intro unat_add_small) (simp add: word_less_nat_alt)
      then have "cs - cur + i < 4096" using room ij(1) by (simp add: word_less_nat_alt)
      moreover have "(vp + (cs - cur)) + i - vp = cs - cur + i" by simp
      ultimately have "(bin + (offset + (cs - vaddr))) + j - vp < 4096" by (simp only: e [symmetric])
      with out [OF ij(2)] show False by blast
    qed
    have "unat y < 2 ^ 64" by (rule unat_u64)
    have inx: "x - (vp + (cs - cur)) < ce - cs \<longleftrightarrow> unat (cs - cur) \<le> unat y \<and> unat cur + unat y < unat ce"
    proof -
      have e: "x - (vp + (cs - cur)) = y - (cs - cur)" by (simp add: y_def algebra_simps)
      show ?thesis
      proof (cases "unat (cs - cur) \<le> unat y")
        case le: True
        then have "unat (y - (cs - cur)) = unat y - unat (cs - cur)" by (simp add: unat_sub word_le_nat_alt)
        then show ?thesis unfolding e word_less_nat_alt d using le lt unfolding d cs by linarith
      next
        case gt: False
        have "unat (y - (cs - cur)) = unat y + (2 ^ 64 - unat (cs - cur))"
          using gt unat_u64 [of "cs - cur"] by (simp add: unat_word_ariths unat_sub_if_size word_size mod_if)
        then have "\<not> y - (cs - cur) < ce - cs" using room gt unfolding word_less_nat_alt by simp
        with gt show ?thesis unfolding e by simp
      qed
    qed
    have v1: "(bin + (offset + (cs - vaddr))) + (x - (vp + (cs - cur))) = bin + (offset + (cur + y - vaddr))"
      by (simp add: y_def algebra_simps)
    have page: "(unat (cs - cur) \<le> unat y \<and> unat cur + unat y < unat ce) \<longleftrightarrow>
        y < 4096 \<and> vaddr \<le> cur + y \<and> cur + y < vaddr + filesz"
    proof (cases "unat y < 4096")
      case y: True
      have "unat (cur + y) = unat cur + unat y" using c y by (subst unat_add_small) simp_all
      with y show ?thesis unfolding word_le_nat_alt word_less_nat_alt u d ce cs by (simp split: split_max split_min) linarith
    next
      case False
      then show ?thesis unfolding word_less_nat_alt ce by simp
    qed
    have "memcpy (vp + (cs - cur)) (bin + (offset + (cs - vaddr))) (ce - cs) m1 x =
        (if x - (vp + (cs - cur)) < ce - cs then m1 (bin + (offset + (cur + y - vaddr))) else m1 x)"
      by (rule memcpy_spec [OF ne, where m = m1 and a = x, unfolded v1])
    moreover have "m1 (bin + (offset + (cur + y - vaddr))) = m (bin + (offset + (cur + y - vaddr)))"
      if "x - (vp + (cs - cur)) < ce - cs"
      using out [OF that] unfolding v1 m1 by simp
    ultimately show ?thesis
      using True unfolding f y_def [symmetric] m1 inx page by auto
  qed
qed


subsection \<open>Mapping and filling one page\<close>

lemma pmm_alloc_inv:
  fixes s :: "'a vmm_scheme"
  assumes inv: "vmm_inv s" and a: "pmm_alloc s = (p, s')"
  shows "vmm_inv s'" "mapping s' w = mapping s w" "path_4k s' w = path_4k s w"
proof -
  note v = pmm_alloc_vmm [OF a]
  have n: "next_table s' t i = next_table s t i" for t i
    by (simp add: next_table_def Let_def v phys_to_virt_def)
  have "table_at s' t q = table_at s t q" for t q
    by (induction q arbitrary: t) (simp_all add: n)
  then have t: "tab s' q = tab s q" for q by (simp add: tab_def v)
  have "pmm_wf s" using inv by (rule vmm_inv_pmm)
  note pmm.alloc_inv [OF this a] pmm.alloc_free_subset [OF this a]
  then show "vmm_inv s'" using inv by (auto simp: vmm_inv_def t v direct_map_ok_def)
  show "mapping s' w = mapping s w" by (simp add: mapping_def t v)
  show "path_4k s' w = path_4k s w" by (simp add: path_4k_def huge_at_def t v)
qed

text \<open>The bytes of a page a program sees, from the image.\<close>

definition page_byte :: "memory \<Rightarrow> u64 \<Rightarrow> u64 \<Rightarrow> u64 \<Rightarrow> u64 \<Rightarrow> u64 \<Rightarrow> u8" where
  "page_byte m bin vaddr filesz offset v =
     (if vaddr \<le> v \<and> v < vaddr + filesz then m (bin + (offset + (v - vaddr))) else 0)"

definition page_flags :: "u32 \<Rightarrow> u64" where
  "page_flags fl = (if fl AND PF_W \<noteq> 0 then PTE_PRESENT OR PTE_USER OR PTE_WRITE else PTE_PRESENT OR PTE_USER)"

lemma load_page_spec:
  fixes s :: "'a machine_scheme"
  assumes inv: "vmm_inv s" and path: "path_4k s cur" and fr: "4 \<le> card (free_frames s)"
    and cur: "cur = page_base va + p * 0x1000" "unat cur + 4096 < 2 ^ 64"
    and v: "unat va + unat fsz < 2 ^ 64"
    and src: "\<And>f k. f \<in> free_frames s \<Longrightarrow> k < fsz \<Longrightarrow>
      \<not> (bin + (off + k)) - (f + hhdm_offset s) < 4096"
  shows "\<exists>f s'. load_page bin phdr va fsz off p s = Some s' \<and> f \<in> free_frames s \<and> f \<notin> free_frames s' \<and>
    vmm_inv s' \<and> free_frames s' \<subseteq> free_frames s \<and> card (free_frames s) \<le> card (free_frames s') + 4 \<and>
    (\<forall>w. path_4k s w \<longrightarrow> path_4k s' w) \<and> hhdm_offset s' = hhdm_offset s \<and>
    (\<forall>w. mapping s' w = (if same_page cur w then Some (f OR page_flags (p_flags (ram s) phdr)) else mapping s w)) \<and>
    (\<forall>x. ram s' x = (if x - (f + hhdm_offset s) < 4096 then
       page_byte (ram s) bin va fsz off
         (cur + (x - (f + hhdm_offset s))) else ram s x)) \<and>
    con s' = con s"
proof -
  let ?m = "ram s" and ?fl = "page_flags (p_flags (ram s) phdr)"
  have wf: "pmm_wf s" using inv by (rule vmm_inv_pmm)
  obtain f s1 where a: "pmm_alloc s = (f, s1)" by force
  have ne: "free_frames s \<noteq> {}" using fr by auto
  note al = pmm.alloc_take [OF wf ne a] pmm.alloc_card [OF wf a]
  note a1 = pmm_alloc_inv [OF inv a]
  have ram1: "ram s1 = ram s" "con s1 = con s" "hhdm_offset s1 = hhdm_offset s"
    using a by (auto simp: pmm_alloc_def split: option.splits)
  have f: "page_aligned f" "f \<noteq> 0" using free_frame_addr [OF wf] al by auto
  have "3 \<le> card (free_frames s1)" using al(2) fr by simp
  with vmm_map_page_total [of s1 cur f ?fl] al obtain s2 where
    s2: "vmm_map_page cur f ?fl s1 = Some s2" "card (free_frames s1) \<le> card (free_frames s2) + 3" by auto
  have p1: "path_4k s1 cur" using a1(3) path by simp
  note e = vmm_map_page_effect [OF a1(1) p1 s2(1)]
  obtain b m where u: "s2 = s1\<lparr>bitmap := b, ptes := m\<rparr>" using vmm_map_page_only_tables [OF s2(1)] by blast
  have ram2: "ram s2 = ram s" "con s2 = con s" "hhdm_offset s2 = hhdm_offset s"
    by (simp_all add: u ram1)
  let ?v = "f + hhdm_offset s"
  let ?s' = "s2\<lparr>ram := fill_page bin ?v cur va fsz off ?m\<rparr>"
  have "load_page bin phdr va fsz off p s = Some ?s'"
    using s2(1) by (simp add: load_page_def a ram1 cur(1) [symmetric] page_flags_def [symmetric] phys_to_virt_def ram2 Let_def)
  moreover have k: "vmm_inv ?s' = vmm_inv s2" "free_frames ?s' = free_frames s2" "mapping ?s' w = mapping s2 w"
    "path_4k ?s' w = path_4k s2 w" for w
  proof -
    have n: "next_table ?s' = next_table s2"
      by (intro ext) (simp add: next_table_def Let_def phys_to_virt_def)
    have t: "table_at ?s' t q = table_at s2 t q" for t q
      by (induction q arbitrary: t) (simp_all add: n)
    show "free_frames ?s' = free_frames s2" by (simp add: free_frames_def page_free_def)
    then show "vmm_inv ?s' = vmm_inv s2" by (simp add: vmm_inv_def tab_def t pmm_wf_def direct_map_ok_def)
    show "mapping ?s' w = mapping s2 w" "path_4k ?s' w = path_4k s2 w"
      by (simp_all add: mapping_def path_4k_def huge_at_def tab_def t n)
  qed
  moreover have "path_4k s w \<Longrightarrow> path_4k s2 w" for w
    using vmm_map_page_path [OF a1(1) p1 s2(1)] a1(3) by simp
  moreover have "page_base f OR ?fl OR PTE_PRESENT = f OR ?fl"
    using page_base_aligned [OF f(1)] by (simp add: page_flags_def or.assoc or.commute or.left_commute)
  moreover have "ram ?s' x = (if x - ?v < 4096 then
      page_byte ?m bin va fsz off (cur + (x - ?v)) else ?m x)" for x
    using fill_page_spec [OF cur(2) v src, of f] al by (simp add: page_byte_def)
  ultimately show ?thesis
    using e al s2(2) a1(2) ram2 by (intro exI [of _ f] exI [of _ ?s']) auto
qed

subsection \<open>Loading all segments\<close>

text \<open>
  What a program sees at an address of its half: the byte of the frame mapped there with
  user access.
\<close>

definition user_byte :: "'a machine_scheme \<Rightarrow> u64 \<Rightarrow> u8 option" where
  "user_byte s v = (case mapping s v of
     None \<Rightarrow> None
   | Some e \<Rightarrow> if e AND PTE_USER = 0 then None else Some (ram s (phys_to_virt s (page_base e) + (v AND 0xFFF))))"

definition user_writable :: "'a machine_scheme \<Rightarrow> u64 \<Rightarrow> bool" where
  "user_writable s v \<longleftrightarrow> (case mapping s v of None \<Rightarrow> False | Some e \<Rightarrow> e AND PTE_WRITE \<noteq> 0)"

text \<open>The program headers to load, and the pages of one.\<close>

definition load_headers :: "memory \<Rightarrow> u64 \<Rightarrow> u64 list" where
  "load_headers m bin = filter (\<lambda>h. p_type m h = PT_LOAD)
     (map (\<lambda>i. bin + e_phoff m bin + of_nat i * sizeof_Phdr) [0..<unat (e_phnum m bin)])"

definition header_pages :: "memory \<Rightarrow> u64 \<Rightarrow> (u64 \<times> u64) list" where
  "header_pages m h = map (\<lambda>p. (page_base (p_vaddr m h) + of_nat p * 0x1000, h))
     [0..<unat (segment_pages (p_vaddr m h) (p_memsz m h))]"

definition program_pages :: "memory \<Rightarrow> u64 \<Rightarrow> (u64 \<times> u64) list" where
  "program_pages m bin = concat (map (header_pages m) (load_headers m bin))"

text \<open>An address that no free frame holds, seen through the direct map.\<close>

definition outside :: "'a pmm_scheme \<Rightarrow> u64 \<Rightarrow> bool" where
  "outside s x \<longleftrightarrow> (\<forall>f \<in> free_frames s. \<not> x - (f + hhdm_offset s) < 4096)"

definition segment_ok :: "'a machine_scheme \<Rightarrow> u64 \<Rightarrow> u64 \<Rightarrow> bool" where
  "segment_ok s bin h \<longleftrightarrow>
     (let m = ram s in unat (p_vaddr m h) + unat (p_memsz m h) < 2 ^ 47 \<and> p_filesz m h \<le> p_memsz m h \<and>
       (\<forall>k < p_filesz m h. outside s (bin + (p_offset m h + k))))"

definition image_ok :: "'a machine_scheme \<Rightarrow> u64 \<Rightarrow> bool" where
  "image_ok s bin \<longleftrightarrow> elf_magic (ram s) bin \<and> e_machine (ram s) bin = EM_X86_64 \<and> e_type (ram s) bin = ET_EXEC \<and>
     (\<forall>k < sizeof_Ehdr. outside s (bin + k)) \<and>
     (\<forall>i < unat (e_phnum (ram s) bin). \<forall>k < sizeof_Phdr.
        outside s (bin + e_phoff (ram s) bin + of_nat i * sizeof_Phdr + k)) \<and>
     (\<forall>h \<in> set (load_headers (ram s) bin). segment_ok s bin h) \<and>
     distinct (map fst (program_pages (ram s) bin)) \<and> (\<forall>c \<in> fst ` set (program_pages (ram s) bin). path_4k s c)"

lemma phdr_cong:
  assumes "\<And>k. k < sizeof_Phdr \<Longrightarrow> m (h + k) = m' (h + k)"
  shows "p_type m h = p_type m' h" "p_flags m h = p_flags m' h" "p_offset m h = p_offset m' h"
    "p_vaddr m h = p_vaddr m' h" "p_filesz m h = p_filesz m' h" "p_memsz m h = p_memsz m' h"
  using assms assms [of 0]
  by (simp_all add: sizeof_Phdr_def p_type_def p_flags_def p_offset_def p_vaddr_def p_filesz_def p_memsz_def
      load64_def load32_def load16_def add.assoc)

lemma ehdr_cong:
  assumes "\<And>k. k < sizeof_Ehdr \<Longrightarrow> m (h + k) = m' (h + k)"
  shows "e_phnum m h = e_phnum m' h" "e_entry m h = e_entry m' h"
  using assms by (simp_all add: sizeof_Ehdr_def e_phnum_def e_entry_def load64_def load32_def load16_def add.assoc)

text \<open>The pages loaded so far, against the state at the start.\<close>

definition pages_loaded :: "'a machine_scheme \<Rightarrow> u64 \<Rightarrow> (u64 \<times> u64) list \<Rightarrow> 'a machine_scheme \<Rightarrow> bool" where
  "pages_loaded s0 bin D s \<longleftrightarrow>
     vmm_inv s \<and> free_frames s \<subseteq> free_frames s0 \<and>
     card (free_frames s0) \<le> card (free_frames s) + 4 * length D \<and> hhdm_offset s = hhdm_offset s0 \<and> con s = con s0 \<and>
     (\<forall>w. path_4k s0 w \<longrightarrow> path_4k s w) \<and> (\<forall>x. outside s0 x \<longrightarrow> ram s x = ram s0 x) \<and>
     (\<forall>w. (\<forall>(c, h) \<in> set D. \<not> same_page c w) \<longrightarrow> mapping s w = mapping s0 w) \<and>
     (\<forall>(c, h) \<in> set D. \<exists>f \<in> free_frames s0 - free_frames s.
        (\<forall>w. same_page c w \<longrightarrow> mapping s w = Some (f OR page_flags (p_flags (ram s0) h))) \<and>
        (\<forall>y < 4096. ram s (f + hhdm_offset s0 + y) =
           page_byte (ram s0) bin (p_vaddr (ram s0) h) (p_filesz (ram s0) h) (p_offset (ram s0) h) (c + y)))"

lemma page_disjoint:
  assumes "page_aligned f" "page_aligned g" "f \<noteq> g" "y < 4096"
  shows "\<not> (f + b + y) - (g + b) < (4096 :: u64)"
proof
  assume z: "(f + b + y) - (g + b) < 4096"
  define z where "z = (f + b + y) - (g + b)"
  have e: "f + y = g + z" by (simp add: z_def algebra_simps)
  have "unat (f + y) = unat f + unat y" "unat (g + z) = unat g + unat z"
    using page_aligned_room [OF assms(1)] page_aligned_room [OF assms(2)] assms(4) z
    by (subst unat_add_small; simp add: word_less_nat_alt z_def)+
  with e have "unat f + unat y = unat g + unat z" by simp
  then have "unat f = unat g"
    using page_split_unique [of "unat f" "unat g" "unat y" "unat z"] assms z
    by (simp add: page_aligned_def word_less_nat_alt z_def)
  with assms(3) show False by (simp add: word_unat_eq_iff)
qed

lemma pages_loaded_start: "vmm_inv s \<Longrightarrow> pages_loaded s bin [] s"
  by (simp add: pages_loaded_def)

lemma pages_loaded_step:
  fixes s s0 :: "'a machine_scheme"
  assumes l: "pages_loaded s0 bin D s" and inv0: "vmm_inv s0"
    and new: "\<And>c' h'. (c', h') \<in> set D \<Longrightarrow> \<not> same_page c' cur"
    and path: "path_4k s0 cur" and fr: "4 * (length D + 1) \<le> card (free_frames s0)"
    and seg: "segment_ok s0 bin h" and hdr: "\<And>k. k < sizeof_Phdr \<Longrightarrow> outside s0 (h + k)"
    and cur: "cur = page_base (p_vaddr (ram s0) h) + p * 0x1000" "unat cur + 4096 < 2 ^ 64"
  shows "\<exists>s'. load_page bin h (p_vaddr (ram s0) h) (p_filesz (ram s0) h) (p_offset (ram s0) h) p s = Some s' \<and>
    pages_loaded s0 bin (D @ [(cur, h)]) s'"
proof -
  let ?va = "p_vaddr (ram s0) h" and ?fsz = "p_filesz (ram s0) h" and ?off = "p_offset (ram s0) h"
  have inv: "vmm_inv s" and sub: "free_frames s \<subseteq> free_frames s0" and hh: "hhdm_offset s = hhdm_offset s0"
    and ram: "\<And>x. outside s0 x \<Longrightarrow> ram s x = ram s0 x"
    using l by (simp_all add: pages_loaded_def)
  have flg: "p_flags (ram s) h = p_flags (ram s0) h" by (rule phdr_cong(2)) (simp add: ram hdr)
  have al: "page_aligned f" if "f \<in> free_frames s0" for f
    using free_frame_addr [OF vmm_inv_pmm [OF inv0] that] by simp
  have "4 \<le> card (free_frames s)" using l fr by (simp add: pages_loaded_def)
  moreover have "path_4k s cur" using l path by (simp add: pages_loaded_def)
  moreover have "unat ?va + unat ?fsz < 2 ^ 64"
    using seg by (simp add: segment_ok_def Let_def word_le_nat_alt)
  moreover have dat: "outside s0 (bin + (?off + k))" if "k < ?fsz" for k
    using seg that by (simp add: segment_ok_def Let_def)
  then have "\<not> (bin + (?off + k)) - (f + hhdm_offset s) < 4096" if "f \<in> free_frames s" "k < ?fsz" for f k
    using that sub hh unfolding outside_def by auto
  ultimately obtain f s' where s': "load_page bin h ?va ?fsz ?off p s = Some s'"
    and f: "f \<in> free_frames s" "f \<notin> free_frames s'"
    and r: "vmm_inv s'" "free_frames s' \<subseteq> free_frames s" "card (free_frames s) \<le> card (free_frames s') + 4"
      "\<And>w. path_4k s w \<Longrightarrow> path_4k s' w" "hhdm_offset s' = hhdm_offset s" "con s' = con s"
    and mp: "\<And>w. mapping s' w = (if same_page cur w then Some (f OR page_flags (p_flags (ram s) h)) else mapping s w)"
    and mem: "\<And>x. ram s' x = (if x - (f + hhdm_offset s) < 4096 then
        page_byte (ram s) bin ?va ?fsz ?off (cur + (x - (f + hhdm_offset s))) else ram s x)"
    using load_page_spec [OF inv _ _ cur(1,2), of ?fsz bin ?off h] by blast
  have pb: "page_byte (ram s) bin ?va ?fsz ?off v = page_byte (ram s0) bin ?va ?fsz ?off v" for v
  proof (cases "?va \<le> v \<and> v < ?va + ?fsz")
    case True
    have "unat ?va + unat ?fsz < 2 ^ 64" using seg by (simp add: segment_ok_def Let_def word_le_nat_alt)
    then have "unat (?va + ?fsz) = unat ?va + unat ?fsz" by (rule unat_add_small)
    then have "v - ?va < ?fsz" using True by (simp add: word_less_nat_alt word_le_nat_alt unat_sub) linarith
    with ram [OF dat] True show ?thesis by (simp add: page_byte_def)
  qed (auto simp: page_byte_def)
  have keep: "ram s' x = ram s x" if "outside s0 x" for x
    using that f(1) sub hh unfolding outside_def by (auto simp: mem)
  have old: "\<exists>g \<in> free_frames s0 - free_frames s'.
      (\<forall>w. same_page c w \<longrightarrow> mapping s' w = Some (g OR page_flags (p_flags (ram s0) h'))) \<and>
      (\<forall>y < 4096. ram s' (g + hhdm_offset s0 + y) =
         page_byte (ram s0) bin (p_vaddr (ram s0) h') (p_filesz (ram s0) h') (p_offset (ram s0) h') (c + y))"
    if ch: "(c, h') \<in> set D" for c h'
  proof -
    from l ch obtain g where g: "g \<in> free_frames s0" "g \<notin> free_frames s"
      "\<And>w. same_page c w \<Longrightarrow> mapping s w = Some (g OR page_flags (p_flags (ram s0) h'))"
      "\<And>y. y < 4096 \<Longrightarrow> ram s (g + hhdm_offset s0 + y) =
         page_byte (ram s0) bin (p_vaddr (ram s0) h') (p_filesz (ram s0) h') (p_offset (ram s0) h') (c + y)"
      by (fastforce simp: pages_loaded_def)
    have "g \<noteq> f" using g(2) f(1) by blast
    then have "\<not> (g + hhdm_offset s0 + y) - (f + hhdm_offset s) < 4096" if "y < 4096" for y
      using page_disjoint [OF al [OF g(1)] al _ that, of f] f(1) sub hh by auto
    moreover have "\<not> same_page cur w" if "same_page c w" for w
      using new [OF ch] that by (auto simp: same_page_def)
    ultimately show ?thesis using g r(2) by (intro bexI [of _ g]) (auto simp: mem mp)
  qed
  have now: "\<exists>g \<in> free_frames s0 - free_frames s'.
      (\<forall>w. same_page cur w \<longrightarrow> mapping s' w = Some (g OR page_flags (p_flags (ram s0) h))) \<and>
      (\<forall>y < 4096. ram s' (g + hhdm_offset s0 + y) = page_byte (ram s0) bin ?va ?fsz ?off (cur + y))"
    using f sub by (intro bexI [of _ f]) (auto simp: mem mp flg pb hh)
  have "pages_loaded s0 bin (D @ [(cur, h)]) s'"
    unfolding pages_loaded_def
  proof (intro conjI)
    show "\<forall>w. (\<forall>(c, h) \<in> set (D @ [(cur, h)]). \<not> same_page c w) \<longrightarrow> mapping s' w = mapping s0 w"
      using l by (auto simp: mp pages_loaded_def)
  next
    show "\<forall>(c, h) \<in> set (D @ [(cur, h)]). \<exists>f \<in> free_frames s0 - free_frames s'.
        (\<forall>w. same_page c w \<longrightarrow> mapping s' w = Some (f OR page_flags (p_flags (ram s0) h))) \<and>
        (\<forall>y < 4096. ram s' (f + hhdm_offset s0 + y) =
           page_byte (ram s0) bin (p_vaddr (ram s0) h) (p_filesz (ram s0) h) (p_offset (ram s0) h) (c + y))"
      using old now by auto
  qed (use l r keep in \<open>auto simp: pages_loaded_def\<close>)
  with s' show ?thesis by blast
qed

lemma user_same_page:
  assumes "v < 2 ^ 48" "w < 2 ^ 48"
  shows "same_page v w \<longleftrightarrow> page_base v = page_base w"
proof -
  have high: "\<not> bit x n" if "x < 2 ^ 48" "48 \<le> n" for x :: u64 and n
    proof -
    have "(2 :: nat) ^ 48 \<le> 2 ^ n" using that(2) by (rule power_increasing) simp
    moreover have "unat x < 2 ^ 48" using that(1) by (simp add: word_less_nat_alt)
    ultimately have "unat x < 2 ^ n" by linarith
    then have "unat x div 2 ^ n = 0" by simp
    then have "drop_bit n (unat x) = 0" by (simp add: drop_bit_eq_div)
    then have "drop_bit n x = 0" by (simp add: word_unat_eq_iff unat_drop_bit_eq)
    then show ?thesis by (simp add: bit_iff_and_drop_bit_eq_1)
  qed
  show ?thesis
    unfolding same_page_bits u64_eq_bits bit_page_base
  proof (rule iffI; intro allI impI)
    fix n :: nat
    assume mid: "\<forall>n. 12 \<le> n \<and> n < 48 \<longrightarrow> bit v n = bit w n" and n: "n < 64"
    show "(12 \<le> n \<and> bit v n) = (12 \<le> n \<and> bit w n)"
      using high [OF assms(1), of n] high [OF assms(2), of n] mid by (cases "n < 48") auto
  next
    fix n :: nat
    assume e: "\<forall>n < 64. (12 \<le> n \<and> bit v n) = (12 \<le> n \<and> bit w n)" and n: "12 \<le> n \<and> n < 48"
    from e [rule_format, of n] n show "bit v n = bit w n" by simp
  qed
qed

lemma unat_page_offset: "unat (v AND 0xFFF :: u64) = unat v mod 4096"
proof -
  have m: "(0xFFF :: u64) = semiring_bit_operations_class.mask 12" by (simp add: mask_eq_exp_minus_1)
  show ?thesis unfolding m take_bit_eq_mask [symmetric] by (simp add: unsigned_take_bit_eq take_bit_nat_def)
qed

lemma segment_pages_bound:
  assumes "unat va + unat msz < 2 ^ 47"
  shows "unat (segment_pages va msz) = (unat msz + unat va mod 4096 + 4095) div 4096"
proof -
  have "unat va mod 4096 \<le> unat va" by simp
  then have "unat (msz + (va AND 0xFFF) + 0xFFF) = unat msz + unat va mod 4096 + 4095"
    using assms by (simp add: unat_word_ariths unat_page_offset)
  then show ?thesis by (simp add: segment_pages_def unat_div)
qed

lemma segment_page_address:
  assumes "unat va + unat msz < 2 ^ 47" "unat p < unat (segment_pages va msz)"
  shows "unat (page_base va + p * 0x1000) = unat va div 4096 * 4096 + unat p * 4096"
    "unat va div 4096 * 4096 + unat p * 4096 < unat va + unat msz"
proof -
  have "unat p + 1 \<le> (unat msz + unat va mod 4096 + 4095) div 4096"
    using assms(2) by (simp add: segment_pages_bound [OF assms(1)])
  then have "(unat p + 1) * 4096 \<le> unat msz + unat va mod 4096 + 4095"
    by (simp add: less_eq_div_iff_mult_less_eq)
  then have "unat p * 4096 < unat msz + unat va mod 4096" by simp
  moreover have "unat va div 4096 * 4096 + unat va mod 4096 = unat va" by simp
  ultimately show b: "unat va div 4096 * 4096 + unat p * 4096 < unat va + unat msz" by linarith
  with assms(1) have "unat va div 4096 * 4096 + unat p * 4096 < 2 ^ 64" by simp
  then show "unat (page_base va + p * 0x1000) = unat va div 4096 * 4096 + unat p * 4096"
    by (simp add: unat_word_ariths unat_page_base)
qed

lemma header_pages_range:
  assumes "segment_ok s bin h" "c \<in> fst ` set (header_pages (ram s) h)"
  shows "page_aligned c \<and> unat c < 2 ^ 47"
proof -
  have b: "unat (p_vaddr (ram s) h) + unat (p_memsz (ram s) h) < 2 ^ 47"
    using assms(1) by (simp add: segment_ok_def Let_def)
  obtain p where p: "p < unat (segment_pages (p_vaddr (ram s) h) (p_memsz (ram s) h))"
    "c = page_base (p_vaddr (ram s) h) + of_nat p * 0x1000"
    using assms(2) by (auto simp: header_pages_def)
  have "p < 2 ^ 64" using p(1) unat_u64 less_trans by blast
  then have "unat (of_nat p :: u64) = p" by (simp add: unat_of_nat)
  with segment_page_address [OF b, of "of_nat p"] p b show ?thesis
    by (simp add: page_aligned_def)
qed

lemma header_pages_disjoint:
  assumes "page_aligned c" "page_aligned d" "unat c < 2 ^ 47" "unat d < 2 ^ 47" "c \<noteq> d"
  shows "\<not> same_page c d"
proof -
  have "c < 2 ^ 48" "d < 2 ^ 48" using assms(3,4) by (simp_all add: word_less_nat_alt)
  then show ?thesis using assms by (simp add: user_same_page page_base_aligned)
qed

lemma load_segment_spec:
  fixes s s0 :: "'a machine_scheme"
  assumes l: "pages_loaded s0 bin D s" and inv0: "vmm_inv s0"
    and t: "p_type (ram s0) h = PT_LOAD" and seg: "segment_ok s0 bin h" and hdr: "\<And>k. k < sizeof_Phdr \<Longrightarrow> outside s0 (h + k)"
    and D: "\<And>c. c \<in> fst ` set D \<Longrightarrow> page_aligned c \<and> unat c < 2 ^ 47"
    and dis: "distinct (map fst (D @ header_pages (ram s0) h))"
    and path: "\<And>c. c \<in> fst ` set (header_pages (ram s0) h) \<Longrightarrow> path_4k s0 c"
    and fr: "4 * length (D @ header_pages (ram s0) h) \<le> card (free_frames s0)"
  shows "\<exists>s'. load_segment bin h s = Some s' \<and> pages_loaded s0 bin (D @ header_pages (ram s0) h) s'"
proof -
  define va where "va = p_vaddr (ram s0) h"
  define n where "n = segment_pages va (p_memsz (ram s0) h)"
  define P where "P = (\<lambda>k :: nat. map (\<lambda>p. (page_base va + of_nat p * 0x1000, h)) [0..<k])"
  have P: "header_pages (ram s0) h = P (unat n)" by (simp add: P_def header_pages_def va_def n_def)
  have b: "unat va + unat (p_memsz (ram s0) h) < 2 ^ 47"
    using seg by (simp add: segment_ok_def Let_def va_def)
  have ram: "ram s x = ram s0 x" if "outside s0 x" for x using l that by (simp add: pages_loaded_def)
  note cong = phdr_cong [where m = "ram s" and m' = "ram s0" and h = h, OF ram [OF hdr]]
  let ?body = "load_page bin h va (p_filesz (ram s0) h) (p_offset (ram s0) h)"
  have "\<exists>s'. for_opt 0 n ?body s = Some s' \<and> pages_loaded s0 bin (D @ P (unat n)) s'"
  proof (rule for_opt_total [where P = "\<lambda>k. pages_loaded s0 bin (D @ P (unat k))"])
    show "pages_loaded s0 bin (D @ P (unat (0 :: u64))) s" using l by (simp add: P_def)
    fix k s1
    assume k: "k < n" and l1: "pages_loaded s0 bin (D @ P (unat k)) s1"
    define c where "c = page_base va + k * 0x1000"
    have un: "unat (k + 1) = Suc (unat k)" using less_inc_le [OF k] by simp
    have lt: "unat k < unat n" using k by (simp add: word_less_nat_alt)
    have Pk: "P (unat (k + 1)) = P (unat k) @ [(c, h)]" by (simp add: un P_def c_def)
    have "P (unat n) = P (Suc (unat k)) @ map (\<lambda>p. (page_base va + of_nat p * 0x1000, h)) [Suc (unat k)..<unat n]"
      using lt upt_add_eq_append [of 0 "Suc (unat k)" "unat n - Suc (unat k)"] by (simp add: P_def)
    then have pre: "P (unat n) = P (unat k) @ (c, h) # map (\<lambda>p. (page_base va + of_nat p * 0x1000, h)) [Suc (unat k)..<unat n]"
      using Pk by (simp add: un)
    have mem: "c \<in> fst ` set (header_pages (ram s0) h)" "fst ` set (P (unat k)) \<subseteq> fst ` set (header_pages (ram s0) h)"
      unfolding P pre by auto
    have "distinct (map fst (D @ P (unat k)) @ c # map fst (map (\<lambda>p. (page_base va + of_nat p * 0x1000, h)) [Suc (unat k)..<unat n]))"
      using dis unfolding P pre by (simp only: map_append list.map append_assoc fst_conv)
    then have fresh: "c \<notin> fst ` set (D @ P (unat k))" by (simp only: distinct_append) auto
    have "\<exists>s'. ?body k s1 = Some s' \<and> pages_loaded s0 bin ((D @ P (unat k)) @ [(c, h)]) s'"
      unfolding va_def
    proof (rule pages_loaded_step [OF l1 inv0 _ path [OF mem(1)] _ seg hdr])
      fix c' h' assume m: "(c', h') \<in> set (D @ P (unat k))"
      then have "c' \<in> fst ` set D \<or> c' \<in> fst ` set (header_pages (ram s0) h)" using mem(2) by force
      then have "page_aligned c' \<and> unat c' < 2 ^ 47" using D header_pages_range [OF seg] by blast
      moreover have "c' \<noteq> c" using fresh imageI [OF m, of fst] by auto
      ultimately show "\<not> same_page c' c" using header_pages_range [OF seg mem(1)] by (simp add: header_pages_disjoint)
    next
      show "4 * (length (D @ P (unat k)) + 1) \<le> card (free_frames s0)" using fr unfolding P pre by simp
      show "c = page_base (p_vaddr (ram s0) h) + k * 0x1000" by (simp add: c_def va_def)
      show "unat c + 4096 < 2 ^ 64" using header_pages_range [OF seg mem(1)] by simp
    qed
    then show "\<exists>s'. ?body k s1 = Some s' \<and> pages_loaded s0 bin (D @ P (unat (k + 1))) s'" unfolding Pk by simp
  qed simp
  then show ?thesis using t by (simp add: load_segment_def cong P n_def va_def)
qed

lemma load_segments_spec:
  fixes s s0 :: "'a machine_scheme"
  assumes inv0: "vmm_inv s0" and im: "image_ok s0 bin"
    and fr: "4 * length (program_pages (ram s0) bin) \<le> card (free_frames s0)"
  shows "\<exists>s'. load_segments bin (bin + e_phoff (ram s0) bin) 0 s0 = Some s' \<and>
    pages_loaded s0 bin (program_pages (ram s0) bin) s'"
proof -
  define hd where "hd = (\<lambda>i. bin + e_phoff (ram s0) bin + of_nat i * sizeof_Phdr)"
  define n where "n = unat (e_phnum (ram s0) bin)"
  define D where "D = (\<lambda>l. concat (map (header_pages (ram s0)) (filter (\<lambda>h. p_type (ram s0) h = PT_LOAD) (map hd l))))"
  have Dn: "program_pages (ram s0) bin = D [0..<n]"
    by (simp add: D_def program_pages_def load_headers_def hd_def n_def)
  have hdr: "outside s0 (hd i + k)" if "i < n" "k < sizeof_Phdr" for i k
    using im that by (simp add: image_ok_def hd_def n_def)
  have paths: "\<forall>c \<in> fst ` set (program_pages (ram s0) bin). path_4k s0 c" using im by (simp add: image_ok_def)
  have D_range: "page_aligned c \<and> unat c < 2 ^ 47" if c: "c \<in> fst ` set (program_pages (ram s0) bin)" for c
  proof -
    obtain h where "h \<in> set (load_headers (ram s0) bin)" "c \<in> fst ` set (header_pages (ram s0) h)"
      using c by (auto simp: program_pages_def)
    moreover from this im have "segment_ok s0 bin h" by (simp add: image_ok_def)
    ultimately show ?thesis using header_pages_range by blast
  qed
  have step: "\<exists>s'. load_segments bin (bin + e_phoff (ram s0) bin) i s = Some s' \<and> pages_loaded s0 bin (D [0..<n]) s'"
    if "pages_loaded s0 bin (D [0..<i]) s" "i \<le> n" for i s
    using that
  proof (induction "n - i" arbitrary: i s)
    case 0
    then have ph: "e_phnum (ram s) bin = e_phnum (ram s0) bin"
      using im by (intro ehdr_cong) (simp add: pages_loaded_def image_ok_def)
    from 0 show ?case by (subst load_segments.simps) (simp add: ph n_def)
  next
    case (Suc d)
    have ph: "e_phnum (ram s) bin = e_phnum (ram s0) bin"
      using Suc.prems im by (intro ehdr_cong) (simp add: pages_loaded_def image_ok_def)
    have i: "i < n" using Suc.hyps(2) by simp
    have all: "D [0..<n] = D [0..<Suc i] @ D [Suc i..<n]"
      using i upt_add_eq_append [of 0 "Suc i" "n - Suc i"] by (simp add: D_def)
    have "\<exists>s1. load_segment bin (hd i) s = Some s1 \<and> pages_loaded s0 bin (D [0..<Suc i]) s1"
    proof (cases "p_type (ram s0) (hd i) = PT_LOAD")
      case False
      have "p_type (ram s) (hd i) = p_type (ram s0) (hd i)"
        using Suc.prems(1) hdr [OF i] by (intro phdr_cong) (simp add: pages_loaded_def)
      with False Suc.prems(1) show ?thesis by (simp add: load_segment_def D_def)
    next
      case True
      then have snoc: "D [0..<Suc i] = D [0..<i] @ header_pages (ram s0) (hd i)" by (simp add: D_def)
      have "hd i \<in> set (load_headers (ram s0) bin)"
        using i True by (auto simp: load_headers_def hd_def n_def)
      then have seg: "segment_ok s0 bin (hd i)" using im by (simp add: image_ok_def)
      have sub: "fst ` set (D [0..<i]) \<subseteq> fst ` set (program_pages (ram s0) bin)"
        "fst ` set (header_pages (ram s0) (hd i)) \<subseteq> fst ` set (program_pages (ram s0) bin)"
        unfolding Dn all snoc by auto
      show ?thesis unfolding snoc
      proof (rule load_segment_spec [OF Suc.prems(1) inv0 True seg hdr [OF i]])
        show "page_aligned c \<and> unat c < 2 ^ 47" if "c \<in> fst ` set (D [0..<i])" for c
          using that sub(1) D_range by blast
        have "distinct (map fst (program_pages (ram s0) bin))" using im by (simp add: image_ok_def)
        then have "distinct (map fst (D [0..<i] @ header_pages (ram s0) (hd i)) @ map fst (D [Suc i..<n]))"
          unfolding Dn all snoc by (simp only: map_append append_assoc)
        then show "distinct (map fst (D [0..<i] @ header_pages (ram s0) (hd i)))"
          by (simp only: distinct_append)
        show "path_4k s0 c" if "c \<in> fst ` set (header_pages (ram s0) (hd i))" for c
          using paths subsetD [OF sub(2) that] by (rule bspec)
        show "4 * length (D [0..<i] @ header_pages (ram s0) (hd i)) \<le> card (free_frames s0)"
          using fr unfolding Dn all snoc by simp
      qed
    qed
    then obtain s1 where s1: "load_segment bin (hd i) s = Some s1" "pages_loaded s0 bin (D [0..<Suc i]) s1" by blast
    from Suc.hyps(1) [OF _ s1(2)] Suc.hyps(2) i show ?case
      by (subst load_segments.simps) (simp add: ph s1(1) [unfolded hd_def] flip: n_def)
  qed
  have "pages_loaded s0 bin (D [0..<0]) s0" using pages_loaded_start [OF inv0] by (simp add: D_def)
  from step [OF this] show ?thesis by (simp add: Dn)
qed

text \<open>What the program sees on a page that was loaded.\<close>

lemma flags_bits: "page_base (f OR page_flags fl) = f" "(f OR page_flags fl) AND PTE_USER \<noteq> 0"
  "(f OR page_flags fl) AND PTE_WRITE \<noteq> 0 \<longleftrightarrow> fl AND PF_W \<noteq> 0" if "page_aligned f"
proof -
  have small: "page_flags fl < 4096" by (simp add: page_flags_def PTE_PRESENT_def PTE_USER_def PTE_WRITE_def)
  show "page_base (f OR page_flags fl) = f"
    by (simp add: page_base_or page_base_small [OF small] page_base_aligned [OF that])
  show "(f OR page_flags fl) AND PTE_USER \<noteq> 0" "(f OR page_flags fl) AND PTE_WRITE \<noteq> 0 \<longleftrightarrow> fl AND PF_W \<noteq> 0"
    using page_aligned_and_small [OF that, of PTE_USER] page_aligned_and_small [OF that, of PTE_WRITE]
    by (simp_all add: page_flags_def PTE_PRESENT_def PTE_USER_def PTE_WRITE_def bit.conj_disj_distrib2)
qed

lemma loaded_byte:
  fixes s s0 :: "'a machine_scheme"
  assumes l: "pages_loaded s0 bin (program_pages (ram s0) bin) s" and inv0: "vmm_inv s0" and im: "image_ok s0 bin"
    and h: "h \<in> set (load_headers (ram s0) bin)" and k: "k < p_memsz (ram s0) h"
  shows "user_byte s (p_vaddr (ram s0) h + k) =
      Some (if k < p_filesz (ram s0) h then ram s0 (bin + p_offset (ram s0) h + k) else 0)"
    "user_writable s (p_vaddr (ram s0) h + k) \<longleftrightarrow> p_flags (ram s0) h AND PF_W \<noteq> 0"
proof -
  let ?va = "p_vaddr (ram s0) h" and ?msz = "p_memsz (ram s0) h" and ?fsz = "p_filesz (ram s0) h"
  have seg: "segment_ok s0 bin h" using im h by (simp add: image_ok_def)
  then have b: "unat ?va + unat ?msz < 2 ^ 47" and le: "unat ?fsz \<le> unat ?msz"
    by (simp_all add: segment_ok_def Let_def word_le_nat_alt)
  define v where "v = ?va + k"
  have uv: "unat v = unat ?va + unat k"
    unfolding v_def using b k by (intro unat_add_small) (simp add: word_less_nat_alt)
  define p where "p = (unat v - unat ?va div 4096 * 4096) div 4096"
  have lo: "unat ?va div 4096 * 4096 \<le> unat v" using uv by (simp add: order_trans [OF div_times_less_eq_dividend])
  have pn: "p < unat (segment_pages ?va ?msz)"
  proof -
    have "unat v - unat ?va div 4096 * 4096 < unat ?msz + unat ?va mod 4096"
      using k div_mult_mod_eq [of "unat ?va" 4096] unfolding uv word_less_nat_alt by linarith
    then show ?thesis unfolding segment_pages_bound [OF b] p_def by linarith
  qed
  have "p < 2 ^ 64" using pn unat_u64 less_trans by blast
  then have up: "unat (of_nat p :: u64) = p" by (simp add: unat_of_nat)
  define c where "c = page_base ?va + of_nat p * 0x1000"
  have uc: "unat c = unat v div 4096 * 4096"
  proof -
    have "p * 4096 + unat ?va div 4096 * 4096 = unat v div 4096 * 4096"
    proof -
      obtain d where "unat v = unat ?va div 4096 * 4096 + d" using lo le_Suc_ex by blast
      then show ?thesis by (simp add: p_def)
    qed
    with segment_page_address(1) [OF b, of "of_nat p"] pn up show ?thesis by (simp add: c_def)
  qed
  then have c: "c = page_base v" by (simp add: word_unat_eq_iff unat_page_base)
  have mem: "(c, h) \<in> set (program_pages (ram s0) bin)"
    using h pn by (auto simp: program_pages_def header_pages_def c_def intro!: bexI [of _ h])
  have "v < 2 ^ 48" "c < 2 ^ 48"
    using uv b k page_base_le [of v] by (simp_all add: word_less_nat_alt word_le_nat_alt c)
  then have sp: "same_page c v" by (simp add: user_same_page c page_base_aligned page_aligned_base)
  from l mem obtain f where f: "f \<in> free_frames s0"
    and m: "mapping s v = Some (f OR page_flags (p_flags (ram s0) h))"
    and y: "\<And>y. y < 4096 \<Longrightarrow> ram s (f + hhdm_offset s0 + y) = page_byte (ram s0) bin ?va ?fsz (p_offset (ram s0) h) (c + y)"
    using sp by (fastforce simp: pages_loaded_def)
  have al: "page_aligned f" using free_frame_addr [OF vmm_inv_pmm [OF inv0] f] by simp
  have y4: "v AND 0xFFF < 4096" by (simp add: word_less_nat_alt unat_page_offset)
  have cy: "c + (v AND 0xFFF) = v"
    using unat_u64 [of v] by (simp add: word_unat_eq_iff unat_word_ariths uc unat_page_offset)
  have hh: "hhdm_offset s = hhdm_offset s0" using l by (simp add: pages_loaded_def)
  have "ram s (f + hhdm_offset s0 + (v AND 0xFFF)) = page_byte (ram s0) bin ?va ?fsz (p_offset (ram s0) h) v"
    using y [OF y4] by (simp only: cy)
  moreover have "unat (?va + ?fsz) = unat ?va + unat ?fsz" using b le by (intro unat_add_small) simp
  then have "page_byte (ram s0) bin ?va ?fsz (p_offset (ram s0) h) v =
      (if k < ?fsz then ram s0 (bin + p_offset (ram s0) h + k) else 0)"
    by (simp add: page_byte_def word_le_nat_alt word_less_nat_alt uv) (simp add: v_def add.assoc)
  ultimately show "user_byte s (?va + k) = Some (if k < ?fsz then ram s0 (bin + p_offset (ram s0) h + k) else 0)"
    unfolding v_def [symmetric] user_byte_def m by (simp add: flags_bits [OF al] phys_to_virt_def hh)
  show "user_writable s (?va + k) \<longleftrightarrow> p_flags (ram s0) h AND PF_W \<noteq> 0"
    unfolding v_def [symmetric] user_writable_def m by (simp add: flags_bits [OF al])
qed

text \<open>
  C35. \<open>elf_load\<close> on a well-formed executable, with four frames free for every page: it
  returns the entry point; the program then reads, at every address of a segment to load, the
  byte of the file or 0 behind the file's part, may write there exactly if the segment is
  writable, and the mapping of every page of no segment is what it was.
\<close>

theorem elf_load_program:
  fixes s :: "'a machine_scheme"
  assumes "vmm_inv s" and "image_ok s bin" and "4 * length (program_pages (ram s) bin) \<le> card (free_frames s)"
  shows "\<exists>s'. elf_load False bin user_pml4 s = Some (e_entry (ram s) bin, s') \<and> vmm_inv s' \<and>
    (\<forall>h \<in> set (load_headers (ram s) bin). \<forall>k < p_memsz (ram s) h.
       user_byte s' (p_vaddr (ram s) h + k) =
         Some (if k < p_filesz (ram s) h then ram s (bin + p_offset (ram s) h + k) else 0) \<and>
       (user_writable s' (p_vaddr (ram s) h + k) \<longleftrightarrow> p_flags (ram s) h AND PF_W \<noteq> 0)) \<and>
    (\<forall>w. (\<forall>c \<in> fst ` set (program_pages (ram s) bin). \<not> same_page c w) \<longrightarrow> mapping s' w = mapping s w)"
proof -
  obtain s' where s': "load_segments bin (bin + e_phoff (ram s) bin) 0 s = Some s'"
    "pages_loaded s bin (program_pages (ram s) bin) s'"
    using load_segments_spec [OF assms] by blast
  have "e_entry (ram s') bin = e_entry (ram s) bin"
    using s'(2) assms(2) by (intro ehdr_cong) (simp add: pages_loaded_def image_ok_def)
  then have "elf_load False bin user_pml4 s = Some (e_entry (ram s) bin, s')"
    using assms(2) s'(1) by (simp add: elf_load_def image_ok_def)
  moreover have "vmm_inv s'" using s'(2) by (simp add: pages_loaded_def)
  moreover have "mapping s' w = mapping s w" if "\<forall>c \<in> fst ` set (program_pages (ram s) bin). \<not> same_page c w" for w
    using s'(2) that by (fastforce simp: pages_loaded_def)
  ultimately show ?thesis using loaded_byte [OF s'(2) assms(1,2)] by blast
qed


subsection \<open>A small executable\<close>

text \<open>One writable segment at \<open>0x400010\<close>: two bytes of data and one byte of zeros.\<close>

definition elf_image :: memory where
  "elf_image = (\<lambda>_. 0)(0x200000 := 0x7F, 0x200001 := 0x45, 0x200002 := 0x4C, 0x200003 := 0x46,
     0x200010 := 2, 0x200012 := 62, 0x200018 := 0x10, 0x20001A := 0x40, 0x200020 := 64, 0x200038 := 1,
     0x200040 := 1, 0x200044 := 6, 0x200048 := 120, 0x200050 := 0x10, 0x200052 := 0x40, 0x200060 := 2,
     0x200068 := 3, 0x200078 := 0xAA, 0x200079 := 0xBB)"

definition elf_ex :: machine where
  "elf_ex = machine_zero\<lparr>hhdm_offset := 0x100000, bitmap := (\<lambda>_. 3), page_count := 8, bitmap_bytes := 1,
     pml4 := 0x101000, cr3 := 0x1000, ptes := (\<lambda>_. 0), ram := elf_image\<rparr>"

lemma elf_ex_headers: "load_headers elf_image 0x200000 = [0x200040]"
  "program_pages elf_image 0x200000 = [(0x400000, 0x200040)]"
  "elf_magic elf_image 0x200000" "e_machine elf_image 0x200000 = EM_X86_64" "e_type elf_image 0x200000 = ET_EXEC"
  "unat (e_phnum elf_image 0x200000) = 1" "e_phoff elf_image 0x200000 = 64" "e_entry elf_image 0x200000 = 0x400010"
  "p_vaddr elf_image 0x200040 = 0x400010" "p_memsz elf_image 0x200040 = 3" "p_filesz elf_image 0x200040 = 2"
  "p_offset elf_image 0x200040 = 120" "p_flags elf_image 0x200040 = 6" "elf_image 0x200078 = 0xAA"
  "page_free elf_ex 2" "page_free elf_ex 3" "page_free elf_ex 4" "page_free elf_ex 5" "\<not> page_free elf_ex 1"
  by code_simp+

lemma elf_ex_state:
  "ram elf_ex = elf_image" "hhdm_offset elf_ex = 0x100000" "page_count elf_ex = 8" "pml4 elf_ex = 0x101000" "ptes elf_ex = (\<lambda>_. 0)"
  by (simp_all add: elf_ex_def)

lemma elf_ex_inv: "vmm_inv elf_ex" "path_4k elf_ex v" "4 \<le> card (free_frames elf_ex)"
proof -
  have wf: "pmm_wf elf_ex" by (simp add: pmm_wf_def elf_ex_state)
  have t: "tab elf_ex q = (if q = [] then Some 0x101000 else None)" for q
    by (cases q) (simp_all add: tab_def next_table_def elf_ex_state)
  have "1 * 4096 \<notin> free_frames elf_ex"
    using frame_addr_inj [of 1] page_free_bound [OF wf] elf_ex_headers by (auto simp: free_frames_def)
  then show inv: "vmm_inv elf_ex"
    by (auto simp: vmm_inv_def t wf direct_map_ok_def page_aligned_def elf_ex_state split: if_splits)
  show "path_4k elf_ex v" by (simp add: path_4k_def huge_at_def t elf_ex_state)
  have "{2 * 4096, 3 * 4096, 4 * 4096, 5 * 4096} \<subseteq> free_frames elf_ex"
    unfolding free_frames_def using elf_ex_headers by blast
  then have "card {0x2000, 0x3000, 0x4000, 0x5000 :: u64} \<le> card (free_frames elf_ex)"
    by (intro card_mono pmm.finite_free [OF wf]) simp
  then show "4 \<le> card (free_frames elf_ex)" by simp
qed

lemma elf_ex_outside: "k < 0x1000 \<Longrightarrow> outside elf_ex (0x200000 + k)"
proof -
  assume k: "k < 0x1000"
  have "\<not> (0x200000 + k) - (f + 0x100000) < 4096" if "f \<in> free_frames elf_ex" for f
  proof
    assume a: "(0x200000 + k) - (f + 0x100000) < 4096"
    have wf: "pmm_wf elf_ex" by (simp add: pmm_wf_def elf_ex_state)
    have "unat f + 4096 \<le> 8 * 4096"
      using free_frame_bound [OF wf that] by (simp add: elf_ex_state)
    then have "unat (f + 0x100000) = unat f + 0x100000" "unat (0x200000 + k) = 0x200000 + unat k"
      using k by (subst unat_add_small; simp add: word_less_nat_alt)+
    moreover from this \<open>unat f + 4096 \<le> 8 * 4096\<close>
    have "unat ((0x200000 + k) - (f + 0x100000)) = unat (0x200000 + k) - unat (f + 0x100000)"
      by (intro unat_sub) (simp add: word_le_nat_alt)
    ultimately show False using a \<open>unat f + 4096 \<le> 8 * 4096\<close> by (simp add: word_less_nat_alt)
  qed
  then show ?thesis by (simp add: outside_def elf_ex_state)
qed

lemma elf_ex_image: "image_ok elf_ex 0x200000"
proof -
  have o: "outside elf_ex (0x200000 + (j + k))" if "j \<le> 120" "k < 64" for j k
  proof (rule elf_ex_outside)
    show "j + k < 0x1000" using that by unat_arith
  qed
  have "segment_ok elf_ex 0x200000 0x200040"
  proof -
    have "k < 64" if "k < 2" for k :: u64 using that by unat_arith
    then show ?thesis using o [of 120] by (simp add: segment_ok_def elf_ex_state elf_ex_headers)
  qed
  moreover have "outside elf_ex (0x200000 + k)" if "k < sizeof_Ehdr" for k
    using o [of 0 k] that by (simp add: sizeof_Ehdr_def)
  moreover have "outside elf_ex (0x200040 + k)" if "k < sizeof_Phdr" for k
    using o [of 64 k] that less_trans [of k 56 64] by (simp add: sizeof_Phdr_def add.assoc)
  ultimately show ?thesis
    by (simp add: image_ok_def elf_ex_state elf_ex_headers elf_ex_inv)
qed

theorem elf_load_program_witness:
  "\<exists>s'. elf_load False 0x200000 0x1000 elf_ex = Some (0x400010, s') \<and> user_byte s' 0x400010 = Some 0xAA \<and>
    user_byte s' 0x400012 = Some 0 \<and> user_writable s' 0x400010"
proof -
  have f: "4 * length (program_pages (ram elf_ex) 0x200000) \<le> card (free_frames elf_ex)"
    using elf_ex_inv(3) by (simp add: elf_ex_state elf_ex_headers)
  obtain s' where s': "elf_load False 0x200000 0x1000 elf_ex = Some (e_entry (ram elf_ex) 0x200000, s')"
    and b: "\<forall>h \<in> set (load_headers (ram elf_ex) 0x200000). \<forall>k < p_memsz (ram elf_ex) h.
       user_byte s' (p_vaddr (ram elf_ex) h + k) = Some (if k < p_filesz (ram elf_ex) h
         then ram elf_ex (0x200000 + p_offset (ram elf_ex) h + k) else 0) \<and>
       (user_writable s' (p_vaddr (ram elf_ex) h + k) \<longleftrightarrow> p_flags (ram elf_ex) h AND PF_W \<noteq> 0)"
    using elf_load_program [OF elf_ex_inv(1) elf_ex_image f, of "0x1000"] by blast
  have h: "0x200040 \<in> set (load_headers (ram elf_ex) 0x200000)" by (simp add: elf_ex_state elf_ex_headers)
  note b' = b [rule_format, OF h, unfolded elf_ex_state elf_ex_headers]
  from b' [of 0] b' [of 2] s' show ?thesis
    by (simp add: elf_ex_state elf_ex_headers PF_W_def)
qed

end
