(* ===== verification/Ksym.thy ===== *)
theory Ksym
  imports CString
begin

text \<open>
  The table of kernel symbols exported to modules, \<open>src/modules/ksym.c\<close>: the linker lays
  the entries of \<open>EXPORT_SYMBOL\<close> out one after the other between \<open>__start_ksymtab\<close> and
  \<open>__stop_ksymtab\<close>; that range is a list of entries here.
\<close>

record kernel_symbol =
  sym_name :: cstring
  sym_addr :: u64

function ksym_strcmp :: "cstring \<Rightarrow> cstring \<Rightarrow> int" where
  "ksym_strcmp s1 s2 =
     (if cget s1 0 \<noteq> 0 \<and> cget s1 0 = cget s2 0 then ksym_strcmp (tl s1) (tl s2)
      else uint (cget s1 0) - uint (cget s2 0))"
  by pat_completeness auto
termination by (relation "measure (\<lambda>(s1, s2). length s1)") (auto simp: cget_def split: if_splits)

declare ksym_strcmp.simps [simp del]

fun ksym_lookup :: "kernel_symbol list \<Rightarrow> cstring \<Rightarrow> u64" where
  "ksym_lookup [] name = 0"
| "ksym_lookup (e # tab) name =
     (if ksym_strcmp (sym_name e) name = 0 then sym_addr e else ksym_lookup tab name)"

lemma ksym_strcmp_str_cmp: "ksym_strcmp s t = str_cmp s t"
proof (induction s t rule: str_cmp.induct)
  case (1 c s d t)
  then show ?case by (subst ksym_strcmp.simps) simp
qed (subst ksym_strcmp.simps; simp)+

interpretation ksym: name_compare ksym_strcmp
  by unfold_locales (simp add: ksym_strcmp_str_cmp str_cmp_eq)

text \<open>The lookup answers the first entry of the name, and 0 when there is none.\<close>

lemma ksym_lookup_find:
  "ksym_lookup tab name =
     (case List.find (\<lambda>e. ksym_strcmp (sym_name e) name = 0) tab of None \<Rightarrow> 0 | Some e \<Rightarrow> sym_addr e)"
  by (induction tab) auto

lemma ksym_lookup_first:
  assumes "\<forall>e \<in> set tab. no_nul (sym_name e)" "no_nul name"
  shows "ksym_lookup tab name =
    (case List.find (\<lambda>e. sym_name e = name) tab of None \<Rightarrow> 0 | Some e \<Rightarrow> sym_addr e)"
  unfolding ksym_lookup_find ksym.find_by_name [OF assms] by simp

end
