(* ===== verification/ModLoader.thy ===== *)
theory ModLoader
  imports Elf Ksym
begin

text \<open>
  The loader of kernel modules, \<open>modules/loader.c\<close>: relocatable ELF files in memory, placed
  section by section in a heap block and relocated there. Everything the loader reads and
  writes (the file, the module, its \<open>kernel_module_t\<close>) is in the bytes of memory, and is read
  again where the code reads it again. The module's own \<open>module_init\<close> is a parameter.
\<close>


definition VFS_FLAG_READ :: u32 where "VFS_FLAG_READ = 0x01"


subsection \<open>The module record\<close>

text \<open>\<open>kernel_module_t\<close>, 96 bytes: the name at offset 0, then four 64-bit members.\<close>

definition sizeof_kernel_module :: u64 where "sizeof_kernel_module = 96"
definition mod_memory_base :: u64 where "mod_memory_base = 64"
definition mod_memory_size :: u64 where "mod_memory_size = 72"
definition mod_init :: u64 where "mod_init = 80"
definition mod_cleanup :: u64 where "mod_cleanup = 88"


subsection \<open>Loops over the section headers\<close>

text \<open>
  \<open>for (int i = 0; i < ehdr->e_shnum; i++)\<close> with a body that may leave the function: the
  number of headers is read again before every round. The state of the loop is a local
  variable and the machine; \<open>Fails\<close> is the return of NULL.
\<close>

datatype ('s, 'x) flow = Fails 's | Next 'x 's

lemma count_bound: "i < unat (n :: u16) \<Longrightarrow> 65536 - Suc i < 65536 - i"
proof -
  assume "i < unat n"
  moreover have "unat n < 2 ^ 16" using unsigned_less [of n] by simp
  ultimately show ?thesis by simp
qed

function for_sections ::
  "u64 \<Rightarrow> (nat \<Rightarrow> 'x \<Rightarrow> 'a machine_scheme \<Rightarrow> ('a machine_scheme, 'x) flow option) \<Rightarrow>
   nat \<Rightarrow> 'x \<Rightarrow> 'a machine_scheme \<Rightarrow> ('a machine_scheme, 'x) flow option" where
  "for_sections ehdr body i x s =
     (if i < unat (e_shnum (ram s) ehdr) then
        case body i x s of
          None \<Rightarrow> None
        | Some (Fails s') \<Rightarrow> Some (Fails s')
        | Some (Next x' s') \<Rightarrow> for_sections ehdr body (Suc i) x' s'
      else Some (Next x s))"
  by pat_completeness auto

termination
  by (relation "measure (\<lambda>(e, b, i, x, s). 2 ^ 16 - i)") (auto dest: count_bound)

declare for_sections.simps [simp del]

text \<open>\<open>for (size_t j = 0; j < bound; j++)\<close> with a bound that is read from memory.\<close>

function for_bound :: "(memory \<Rightarrow> u64) \<Rightarrow> (u64 \<Rightarrow> memory \<Rightarrow> memory) \<Rightarrow> u64 \<Rightarrow> memory \<Rightarrow> memory" where
  "for_bound bound f j m = (if j < bound m then for_bound bound f (j + 1) (f j m) else m)"
  by pat_completeness auto

termination
proof (relation "measure (\<lambda>(bound, f, j, m). 2 ^ 64 - unat j)")
  fix bound f and j :: u64 and m :: memory
  assume "j < bound m"
  then have "unat (j + 1) = unat j + 1" by (simp add: less_inc_le)
  then show "((bound, f, j + 1, f j m), (bound, f, j, m)) \<in> measure (\<lambda>(bound, f, j, m). 2 ^ 64 - unat j)"
    using unat_u64 [of j] by simp
qed simp

declare for_bound.simps [simp del]

definition shdr :: "u64 \<Rightarrow> nat \<Rightarrow> u64" where
  "shdr shdrs i = shdrs + of_nat i * sizeof_Shdr"


subsection \<open>Validation\<close>

definition elf_validate :: "u64 \<Rightarrow> u64 \<Rightarrow> 'a machine_scheme \<Rightarrow> (bool \<times> 'a machine_scheme) option" where
  "elf_validate ehdr file_size s =
     (let refuse = (\<lambda>msg. map_option (Pair False) (kprintf msg 0xFF0000 [] s)); m = ram s in
      if file_size < sizeof_Ehdr then refuse ''LOADER: Module is too small for an ELF header.\<newline>''
      else if \<not> elf_magic m ehdr then refuse ''LOADER: Invalid ELF magic bytes.\<newline>''
      else if e_ident m ehdr 4 \<noteq> ELFCLASS64 then refuse ''LOADER: Module is not 64-bit.\<newline>''
      else if e_machine m ehdr \<noteq> EM_X86_64 then refuse ''LOADER: Module is not compiled for x86_64.\<newline>''
      else if e_type m ehdr \<noteq> ET_REL then
        refuse ''LOADER: Module is not a relocatable file (ET_REL).\<newline>''
      else if ucast (e_shentsize m ehdr) \<noteq> sizeof_Shdr \<or> e_shoff m ehdr > file_size \<or>
          ucast (e_shnum m ehdr) > (file_size - e_shoff m ehdr) div sizeof_Shdr then
        refuse ''LOADER: Invalid section header table.\<newline>''
      else Some (True, s))"


subsection \<open>Placing the sections\<close>

definition align_to :: "u64 \<Rightarrow> u64 \<Rightarrow> u64" where
  "align_to offset align = (if align > 1 then (offset + align - 1) AND NOT (align - 1) else offset)"

definition size_section ::
  "bool \<Rightarrow> u64 \<Rightarrow> u64 \<Rightarrow> nat \<Rightarrow> u64 \<Rightarrow> 'a machine_scheme \<Rightarrow> ('a machine_scheme, u64) flow option" where
  "size_section debug shdrs file_size i total_size s =
     (let h = shdr shdrs i; m = ram s in
      if sh_flags m h AND SHF_ALLOC \<noteq> 0 then
        if sh_type m h \<noteq> SHT_NOBITS \<and> (sh_offset m h > file_size \<or> sh_size m h > file_size - sh_offset m h) then
          map_option Fails (if debug then kprintf ''LOADER: Invalid allocatable section.\<newline>'' 0xFF0000 [] s else Some s)
        else Some (Next (align_to total_size (sh_addralign m h) + sh_size m h) s)
      else Some (Next total_size s))"

text \<open>The address of the section is stored in its header, in the file's buffer.\<close>

definition place_section :: "u64 \<Rightarrow> u64 \<Rightarrow> u64 \<Rightarrow> nat \<Rightarrow> u64 \<Rightarrow> memory \<Rightarrow> u64 \<times> memory" where
  "place_section file_buffer module_memory shdrs i current_offset m =
     (let h = shdr shdrs i in
      if sh_flags m h AND SHF_ALLOC \<noteq> 0 then
        let offset = align_to current_offset (sh_addralign m h);
            m1 = store64 (h + 16) (module_memory + offset) m;
            dst = sh_addr m1 h;
            m2 = (if sh_type m1 h = SHT_NOBITS then for_bound (\<lambda>m. sh_size m h) (\<lambda>j m. m(dst + j := 0)) 0 m1
                  else let src = file_buffer + sh_offset m1 h in
                    for_bound (\<lambda>m. sh_size m h) (\<lambda>j m. m(dst + j := m (src + j))) 0 m1)
        in (offset + sh_size m2 h, m2)
      else (current_offset, m))"

definition place_sections :: "u64 \<Rightarrow> u64 \<Rightarrow> u64 \<Rightarrow> u64 \<Rightarrow> 'a machine_scheme \<Rightarrow> ('a machine_scheme, u64) flow option" where
  "place_sections ehdr file_buffer module_memory shdrs s =
     for_sections ehdr (\<lambda>i offset s. case place_section file_buffer module_memory shdrs i offset (ram s) of
        (offset', m) \<Rightarrow> Some (Next offset' (s\<lparr>ram := m\<rparr>))) 0 0 s"

subsection \<open>Relocation\<close>

text \<open>The locals of \<open>load_module\<close> that the relocations use.\<close>

record load_frame =
  l_ehdr :: u64
  l_shdrs :: u64
  l_symtab :: u64
  l_strtab :: u64
  l_syms :: u64
  l_strings :: u64
  l_memory :: u64

definition give_up :: "string \<Rightarrow> arg list \<Rightarrow> u64 \<Rightarrow> 'a machine_scheme \<Rightarrow> ('a machine_scheme, 'x) flow option" where
  "give_up msg args module_memory s = do {
     s1 \<leftarrow> kprintf msg 0xFF0000 args s;
     s2 \<leftarrow> kfree module_memory s1;
     Some (Fails s2) }"

text \<open>The index of the first symbol table, as the address of its header.\<close>

definition find_symtab :: "memory \<Rightarrow> u64 \<Rightarrow> u64 \<Rightarrow> u64" where
  "find_symtab m ehdr shdrs =
     (case List.find (\<lambda>i. sh_type m (shdr shdrs i) = SHT_SYMTAB) [0..<unat (e_shnum m ehdr)] of
        None \<Rightarrow> 0 | Some i \<Rightarrow> shdr shdrs i)"

definition outside_file :: "memory \<Rightarrow> u64 \<Rightarrow> u64 \<Rightarrow> bool" where
  "outside_file m h file_size \<longleftrightarrow> sh_offset m h > file_size \<or> sh_size m h > file_size - sh_offset m h"

text \<open>The value of a symbol, or the message it is refused with.\<close>

datatype resolved = Refused string "arg list" | Value u64

definition symbol_value :: "kernel_symbol list \<Rightarrow> load_frame \<Rightarrow> u64 \<Rightarrow> memory \<Rightarrow> resolved option" where
  "symbol_value ksymtab F smb m =
     (let shndx = st_shndx m smb in
      if ucast (st_name m smb) \<ge> sh_size m (l_strtab F) then Some (Refused ''LOADER: Invalid symbol name.\<newline>'' [])
      else if shndx = SHN_UNDEF then do {
        name \<leftarrow> cstr_at m (l_strings F + ucast (st_name m smb));
        let sym_val = ksym_lookup ksymtab name;
        Some (if sym_val = 0 then Refused ''LOADER: Unresolved external symbol: %s\<newline>'' [AStr name] else Value sym_val) }
      else if shndx = SHN_ABS then Some (Value (st_value m smb))
      else if shndx \<ge> e_shnum m (l_ehdr F) \<or> sh_flags m (shdr (l_shdrs F) (unat shndx)) AND SHF_ALLOC = 0 then
        Some (Refused ''LOADER: Invalid defined symbol.\<newline>'' [])
      else Some (Value (sh_addr m (shdr (l_shdrs F) (unat shndx)) + st_value m smb)))"

text \<open>The bytes a relocation stores, and the store.\<close>

definition patch_size :: "u32 \<Rightarrow> u64" where
  "patch_size rel_type = (if rel_type = R_X86_64_64 then 8 else 4)"

definition patch :: "u32 \<Rightarrow> u64 \<Rightarrow> u64 \<Rightarrow> u64 \<Rightarrow> memory \<Rightarrow> memory option" where
  "patch rel_type sym_val addend patch_addr m =
     (if rel_type = R_X86_64_NONE then Some m
      else if rel_type = R_X86_64_64 then Some (store64 patch_addr (sym_val + addend) m)
      else if rel_type = R_X86_64_PC32 \<or> rel_type = R_X86_64_PLT32 then
        Some (store32 patch_addr (ucast (sym_val + addend - patch_addr)) m)
      else if rel_type = R_X86_64_32 \<or> rel_type = R_X86_64_32S then
        Some (store32 patch_addr (ucast (sym_val + addend)) m)
      else None)"

text \<open>
  The counts and indices are C \<open>int\<close>s: the number of symbols is cut to 32 bits, and an index
  whose top bit is set is negative and passes the check.
\<close>

definition int_of :: "u64 \<Rightarrow> int" where
  "int_of x = sint (ucast x :: u32)"

definition symbol_at :: "load_frame \<Rightarrow> int \<Rightarrow> u64" where
  "symbol_at F idx = l_syms F + of_int idx * sizeof_Sym"

definition apply_rela ::
  "kernel_symbol list \<Rightarrow> load_frame \<Rightarrow> u64 \<Rightarrow> u64 \<Rightarrow> 'a machine_scheme \<Rightarrow> ('a machine_scheme, unit) flow option" where
  "apply_rela ksymtab F target rela s =
     (let m = ram s; sym_idx = int_of (ELF64_R_SYM (r_info m rela)); rel_type = ELF64_R_TYPE (r_info m rela);
          num_syms = int_of (sh_size m (l_symtab F) div sizeof_Sym) in
      if sym_idx \<ge> num_syms then give_up ''LOADER: Invalid relocation symbol index.\<newline>'' [] (l_memory F) s
      else do {
        v \<leftarrow> symbol_value ksymtab F (symbol_at F sym_idx) m;
        case v of
          Refused msg args \<Rightarrow> give_up msg args (l_memory F) s
        | Value sym_val \<Rightarrow>
            let patch_addr = sh_addr m target + r_offset m rela in
            if rel_type \<noteq> R_X86_64_NONE \<and>
               (r_offset m rela > sh_size m target \<or> patch_size rel_type > sh_size m target - r_offset m rela) then
              give_up ''LOADER: Relocation is outside its target section.\<newline>'' [] (l_memory F) s
            else (case patch rel_type sym_val (r_addend m rela) patch_addr m of
                Some m' \<Rightarrow> Some (Next () (s\<lparr>ram := m'\<rparr>))
              | None \<Rightarrow> give_up ''LOADER: Unsupported relocation type: %d\<newline>'' [AInt rel_type] (l_memory F) s) })"

fun apply_relas ::
  "kernel_symbol list \<Rightarrow> load_frame \<Rightarrow> u64 \<Rightarrow> u64 list \<Rightarrow> 'a machine_scheme \<Rightarrow> ('a machine_scheme, unit) flow option" where
  "apply_relas ksymtab F target [] s = Some (Next () s)"
| "apply_relas ksymtab F target (rela # relas) s = do {
     r \<leftarrow> apply_rela ksymtab F target rela s;
     case r of
       Fails s' \<Rightarrow> Some (Fails s')
     | Next _ s' \<Rightarrow> apply_relas ksymtab F target relas s' }"

definition relocate_section ::
  "kernel_symbol list \<Rightarrow> load_frame \<Rightarrow> u64 \<Rightarrow> u64 \<Rightarrow> nat \<Rightarrow> unit \<Rightarrow> 'a machine_scheme \<Rightarrow>
   ('a machine_scheme, unit) flow option" where
  "relocate_section ksymtab F file_buffer file_size i _ s =
     (let m = ram s; h = shdr (l_shdrs F) i in
      if sh_type m h \<noteq> SHT_RELA then Some (Next () s)
      else if sh_info m h \<ge> ucast (e_shnum m (l_ehdr F)) \<or> outside_file m h file_size \<or>
          sh_size m h mod sizeof_Rela \<noteq> 0 then
        give_up ''LOADER: Invalid relocation target section.\<newline>'' [] (l_memory F) s
      else
        let target = shdr (l_shdrs F) (unat (sh_info m h)) in
        if sh_flags m target AND SHF_ALLOC = 0 then Some (Next () s)
        else
          let relas = file_buffer + sh_offset m h; num_relas = int_of (sh_size m h div sizeof_Rela) in
          apply_relas ksymtab F target (List.map (\<lambda>j. relas + of_nat j * sizeof_Rela) [0..<nat num_relas]) s)"


subsection \<open>The module record and its entry points\<close>

definition copy_module_name :: "u64 \<Rightarrow> cstring \<Rightarrow> memory \<Rightarrow> memory" where
  "copy_module_name md name m =
     fold (\<lambda>i m. m(md + of_nat i := cget name i, md + of_nat i + 1 := 0))
       [0..<length (takeWhile (\<lambda>c. c \<noteq> 0) (take 63 name))] m"

definition note_entry :: "load_frame \<Rightarrow> u64 \<Rightarrow> u64 \<Rightarrow> memory \<Rightarrow> memory" where
  "note_entry F md smb m =
     (let shndx = st_shndx m smb in
      if shndx = SHN_UNDEF \<or> shndx = SHN_ABS \<or> shndx \<ge> e_shnum m (l_ehdr F) then m
      else
        let sym_name = l_strings F + ucast (st_name m smb);
            addr = sh_addr m (shdr (l_shdrs F) (unat shndx)) + st_value m smb in
        if spells m sym_name (str ''module_init'') then store64 (md + mod_init) addr m
        else if spells m sym_name (str ''module_cleanup'') then store64 (md + mod_cleanup) addr m
        else m)"

definition fill_module :: "load_frame \<Rightarrow> u64 \<Rightarrow> cstring \<Rightarrow> u64 \<Rightarrow> memory \<Rightarrow> memory" where
  "fill_module F md name total_size m =
     (let m1 = store64 (md + mod_cleanup) 0 (store64 (md + mod_init) 0 (store64 (md + mod_memory_size) total_size
                 (store64 (md + mod_memory_base) (l_memory F) (copy_module_name md name m))));
          num_total_syms = int_of (sh_size m1 (l_symtab F) div sizeof_Sym)
      in fold (\<lambda>i. note_entry F md (symbol_at F (int i))) [0..<nat num_total_syms] m1)"


subsection \<open>Loading a module\<close>

text \<open>
  The part of \<open>load_module\<close> after the sections are in place. \<open>run\<close> is the execution of the
  module's code from an address until it returns, \<open>ksymtab\<close> the table of exported symbols.
\<close>

definition say :: "bool \<Rightarrow> string \<Rightarrow> u32 \<Rightarrow> arg list \<Rightarrow> 'a machine_scheme \<Rightarrow> 'a machine_scheme option" where
  "say debug msg color args s = (if debug then kprintf msg color args s else Some s)"

fun null_or :: "('a machine_scheme, 'x) flow \<Rightarrow> ('x \<Rightarrow> 'a machine_scheme \<Rightarrow> (u64 \<times> 'a machine_scheme) option) \<Rightarrow>
    (u64 \<times> 'a machine_scheme) option" where
  "null_or (Fails s) k = Some (0, s)"
| "null_or (Next x s) k = k x s"

definition start_module ::
  "bool \<Rightarrow> (u64 \<Rightarrow> 'a machine_scheme \<Rightarrow> 'a machine_scheme option) \<Rightarrow> cstring \<Rightarrow> u64 \<Rightarrow> 'a machine_scheme \<Rightarrow>
   (u64 \<times> 'a machine_scheme) option" where
  "start_module debug run name md s =
     (if load64 (ram s) (md + mod_init) = 0 then
        map_option (Pair md) (kprintf ''LOADER: No module_init() found in %s\<newline>'' 0xFFFF00 [AStr name] s)
      else do {
        s1 \<leftarrow> say debug ''LOADER: init pointer = 0x%x\<newline>'' 0xFFFFFF [AInt (ucast (load64 (ram s) (md + mod_init)))] s;
        s2 \<leftarrow> say debug ''LOADER: About to execute module_init()\<newline>'' 0xFFFF00 [] s1;
        s3 \<leftarrow> run (load64 (ram s2) (md + mod_init)) s2;
        s4 \<leftarrow> say debug ''LOADER: Returned from module_init()\<newline>'' 0x00FF00 [] s3;
        s5 \<leftarrow> say debug ''LOADER: Module %s successfully initialized!\<newline>'' 0x00FF00 [AStr name] s4;
        Some (md, s5) })"

definition finish_module ::
  "bool \<Rightarrow> (u64 \<Rightarrow> 'a machine_scheme \<Rightarrow> 'a machine_scheme option) \<Rightarrow> load_frame \<Rightarrow> cstring \<Rightarrow> u64 \<Rightarrow>
   'a machine_scheme \<Rightarrow> (u64 \<times> 'a machine_scheme) option" where
  "finish_module debug run F name total_size s = do {
     s1 \<leftarrow> say debug ''LOADER: Relocations processed successfully.\<newline>'' 0x00FF00 [] s;
     (md, s2) \<leftarrow> kmalloc sizeof_kernel_module s1;
     if md = 0 then do {
       r \<leftarrow> give_up ''LOADER: Failed to allocate kernel_module_t.\<newline>'' [] (l_memory F) s2;
       null_or r (\<lambda>(_ :: unit) s. None) }
     else start_module debug run name md (s2\<lparr>ram := fill_module F md name total_size (ram s2)\<rparr>) }"

definition link_module ::
  "bool \<Rightarrow> kernel_symbol list \<Rightarrow> (u64 \<Rightarrow> 'a machine_scheme \<Rightarrow> 'a machine_scheme option) \<Rightarrow>
   cstring \<Rightarrow> u64 \<Rightarrow> u64 \<Rightarrow> u64 \<Rightarrow> u64 \<Rightarrow> u64 \<Rightarrow> 'a machine_scheme \<Rightarrow> (u64 \<times> 'a machine_scheme) option" where
  "link_module debug ksymtab run name file_buffer file_size shdrs module_memory total_size s =
     (let m = ram s; symtab = find_symtab m file_buffer shdrs;
          refuse = (\<lambda>msg. do {
            r \<leftarrow> give_up msg [] module_memory s;
            null_or r (\<lambda>(_ :: unit) s. None) });
          strtab = shdr shdrs (unat (sh_link m symtab));
          F = \<lparr>l_ehdr = file_buffer, l_shdrs = shdrs, l_symtab = symtab, l_strtab = strtab,
               l_syms = file_buffer + sh_offset m symtab, l_strings = file_buffer + sh_offset m strtab,
               l_memory = module_memory\<rparr> in
      if symtab = 0 then refuse ''LOADER: No symbol table found in module.\<newline>''
      else if sh_link m symtab \<ge> ucast (e_shnum m file_buffer) \<or> outside_file m symtab file_size then
        refuse ''LOADER: Invalid symbol table.\<newline>''
      else if sh_type m strtab \<noteq> SHT_STRTAB \<or> outside_file m strtab file_size then
        refuse ''LOADER: Symbol string table is invalid.\<newline>''
      else do {
        r \<leftarrow> for_sections file_buffer (relocate_section ksymtab F file_buffer file_size) 0 () s;
        null_or r (\<lambda>_. finish_module debug run F name total_size) })"

text \<open>The result is the address of the module's record, or 0.\<close>

definition load_module ::
  "bool \<Rightarrow> kernel_symbol list \<Rightarrow> (u64 \<Rightarrow> 'a machine_scheme \<Rightarrow> 'a machine_scheme option) \<Rightarrow>
   cstring option \<Rightarrow> u64 \<Rightarrow> u64 \<Rightarrow> 'a machine_scheme \<Rightarrow> (u64 \<times> 'a machine_scheme) option" where
  "load_module debug ksymtab run name_ptr file_buffer file_size s =
     (case name_ptr of
        None \<Rightarrow> Some (0, s)
      | Some name \<Rightarrow>
          if file_buffer = 0 then Some (0, s)
          else do {
            s0 \<leftarrow> kprintf ''LOADER: Loading module: %s\<newline>'' 0x00FFCC [AStr name] s;
            (valid, s1) \<leftarrow> elf_validate file_buffer file_size s0;
            if \<not> valid then
              map_option (Pair 0) (kprintf ''LOADER: Failed to validate %s\<newline>'' 0xFF0000 [AStr name] s1)
            else do {
              s2 \<leftarrow> say debug ''LOADER: %s is a valid x86_64 relocatable ELF.\<newline>'' 0x00FF00 [AStr name] s1;
              let shdrs = file_buffer + e_shoff (ram s2) file_buffer;
              r \<leftarrow> for_sections file_buffer (size_section debug shdrs file_size) 0 0 s2;
              null_or r (\<lambda>total_size s3. do {
                (module_memory, s4) \<leftarrow> kmalloc total_size s3;
                if module_memory = 0 then
                  map_option (Pair 0) (kprintf ''LOADER: Failed to allocate memory for module.\<newline>'' 0xFF0000 [] s4)
                else do {
                  s5 \<leftarrow> say debug ''LOADER: Allocated %d bytes at 0x%x for module.\<newline>'' 0x00FF00
                          [AInt (ucast total_size), AInt (ucast module_memory)] s4;
                  r \<leftarrow> place_sections file_buffer file_buffer module_memory shdrs s5;
                  null_or r (\<lambda>_. link_module debug ksymtab run name file_buffer file_size shdrs module_memory total_size) } }) } })"

text \<open>
  The message for a missing file passes the path as the format. A NULL path is printed, so it
  is undefined.
\<close>

definition load_module_from_file ::
  "bool \<Rightarrow> kernel_symbol list \<Rightarrow> (u64 \<Rightarrow> 'a vfs_scheme \<Rightarrow> 'a vfs_scheme option) \<Rightarrow>
   cstring option \<Rightarrow> 'a vfs_scheme \<Rightarrow> (u64 \<times> 'a vfs_scheme) option" where
  "load_module_from_file debug ksymtab run path s =
     (case path of
        None \<Rightarrow> None
      | Some filepath \<Rightarrow> do {
          s0 \<leftarrow> say debug ''Fetching module from %s...\<newline>'' 0x00FFFF [AStr filepath] s;
          (mod_file, s1) \<leftarrow> vfs_open (Some filepath) VFS_FLAG_READ s0;
          if mod_file = 0 then do {
            s2 \<leftarrow> kprintf ''LOADER: File not found: '' 0xFF0000 [] s1;
            c \<leftarrow> printf filepath 0xFF0000 [] (con s2);
            map_option (Pair 0) (kprintf ''\<newline>'' 0xFF0000 [] (s2\<lparr>con := c\<rparr>)) }
          else if flags (nodes s1 mod_file) AND FS_FILE = 0 then
            map_option (Pair 0) (kprintf ''LOADER: Path is not a file!\<newline>'' 0xFF0000 [] s1)
          else do {
            let file_size = ucast (flen (nodes s1 mod_file));
            (file_buffer, s2) \<leftarrow> kmalloc file_size s1;
            (loaded_mod, s3) \<leftarrow>
              (if file_buffer \<noteq> 0 then do {
                 (_, s3) \<leftarrow> vfs_read mod_file file_buffer file_size 0 s2;
                 (loaded_mod, s4) \<leftarrow> load_module debug ksymtab run (Some filepath) file_buffer file_size s3;
                 map_option (Pair loaded_mod) (kfree file_buffer s4) }
               else map_option (Pair 0) (kprintf ''Failed to allocate memory for reading %s\<newline>'' 0xFF0000 [AStr filepath] s2));
            map_option (Pair loaded_mod) (vfs_close mod_file s3) } })"


subsection \<open>What a relocation writes\<close>

lemma store_within:
  "\<not> x - a < 8 \<Longrightarrow> store64 a v m x = m x" "\<not> x - a < 4 \<Longrightarrow> store32 a w m x = m x"
  by (auto intro!: store64_other store32_other)

lemma kprintf_ram: "kprintf fmt color args s = Some s' \<Longrightarrow> ram s' = ram s"
  by (auto simp: kprintf_def)

lemma kfree_ram: "kfree p s = Some s' \<Longrightarrow> ram s' = ram (s :: 'a machine_scheme)"
  by (auto simp: kfree_def Let_def bind_eq_Some_conv split: if_splits)

fun flow_state :: "('s, 'x) flow \<Rightarrow> 's" where
  "flow_state (Fails s) = s"
| "flow_state (Next x s) = s"

lemma give_up_ram: "give_up msg args p s = Some r \<Longrightarrow> (\<exists>s'. r = Fails s') \<and> ram (flow_state r) = ram s"
  by (auto simp: give_up_def bind_eq_Some_conv kprintf_ram kfree_ram dest!: kprintf_ram kfree_ram)

lemma offset_in_section: "y < z - r \<Longrightarrow> r \<le> z \<Longrightarrow> y + r < z" for y z r :: u64
proof -
  assume y: "y < z - r" and r: "r \<le> z"
  then have "unat y + unat r < unat z" by (simp add: word_less_nat_alt word_le_nat_alt unat_sub)
  then show ?thesis using unat_u64 [of z] by (simp add: word_less_nat_alt unat_word_ariths)
qed

lemma patch_other:
  assumes "patch rel_type v a p m = Some m'" "\<not> x - p < patch_size rel_type"
  shows "m' x = m x"
  using assms by (auto simp: patch_def patch_size_def store_within R_X86_64_NONE_def R_X86_64_64_def
      R_X86_64_PC32_def R_X86_64_PLT32_def R_X86_64_32_def R_X86_64_32S_def split: if_splits)

lemma patch_NONE: "patch R_X86_64_NONE v a p m = Some m' \<Longrightarrow> m' = m"
  by (simp add: patch_def)

lemma apply_rela_confined:
  assumes r: "apply_rela ksymtab F target rela s = Some r"
    and x: "\<not> x - sh_addr (ram s) target < sh_size (ram s) target"
  shows "ram (flow_state r) x = ram s x"
proof -
  let ?m = "ram s"
  define t where "t = ELF64_R_TYPE (r_info ?m rela)"
  define off where "off = r_offset ?m rela"
  consider (stop) "ram (flow_state r) = ?m"
    | (patch) v m' where "patch t v (r_addend ?m rela) (sh_addr ?m target + off) ?m = Some m'" "r = Next () (s\<lparr>ram := m'\<rparr>)"
      "t = R_X86_64_NONE \<or> off \<le> sh_size ?m target \<and> patch_size t \<le> sh_size ?m target - off"
  proof (cases "int_of (sh_size ?m (l_symtab F) div sizeof_Sym) \<le> int_of (ELF64_R_SYM (r_info ?m rela))")
    case True
    with r show thesis by (intro stop give_up_ram [THEN conjunct2]) (simp add: apply_rela_def Let_def)
  next
    case False
    with r obtain v where v: "symbol_value ksymtab F (symbol_at F (int_of (ELF64_R_SYM (r_info ?m rela)))) ?m = Some v"
      and r': "(case v of Refused msg args \<Rightarrow> give_up msg args (l_memory F) s
        | Value sv \<Rightarrow> if t \<noteq> R_X86_64_NONE \<and> (off > sh_size ?m target \<or> patch_size t > sh_size ?m target - off) then
              give_up ''LOADER: Relocation is outside its target section.\<newline>'' [] (l_memory F) s
            else (case patch t sv (r_addend ?m rela) (sh_addr ?m target + off) ?m of
                Some m' \<Rightarrow> Some (Next () (s\<lparr>ram := m'\<rparr>))
              | None \<Rightarrow> give_up ''LOADER: Unsupported relocation type: %d\<newline>'' [AInt t] (l_memory F) s)) = Some r"
      unfolding t_def off_def by (auto simp: apply_rela_def Let_def bind_eq_Some_conv)
    show thesis
    proof (cases v)
      case Refused
      with r' show thesis by (intro stop give_up_ram [THEN conjunct2]) simp
    next
      case (Value sv)
      show thesis
      proof (cases "t \<noteq> R_X86_64_NONE \<and> (off > sh_size ?m target \<or> patch_size t > sh_size ?m target - off)")
        case True
        with Value r' show thesis by (intro stop give_up_ram [THEN conjunct2]) simp
      next
        case in_bounds: False
        note r'' = r' [unfolded Value resolved.case if_not_P [OF in_bounds]]
        show thesis
        proof (cases "patch t sv (r_addend ?m rela) (sh_addr ?m target + off) ?m")
          case None
          with r'' show thesis by (intro stop give_up_ram [THEN conjunct2]) simp
        next
          case (Some m')
          with r'' in_bounds show thesis by (intro patch [OF Some]) (auto simp: not_less)
        qed
      qed
    qed
  qed
  then show ?thesis
  proof cases
    case patch
    show ?thesis
    proof (cases "t = R_X86_64_NONE")
      case True
      with patch(1,2) show ?thesis by (auto dest: patch_NONE)
    next
      case False
      with patch(3) have b: "off \<le> sh_size ?m target" "patch_size t \<le> sh_size ?m target - off" by simp_all
      have "\<not> x - (sh_addr ?m target + off) < patch_size t"
      proof
        assume "x - (sh_addr ?m target + off) < patch_size t"
        then have "x - (sh_addr ?m target + off) < sh_size ?m target - off" using b(2) by (rule less_le_trans)
        from offset_in_section [OF this b(1)] x show False by (simp add: algebra_simps)
      qed
      with patch_other [OF patch(1)] patch(2) show ?thesis by simp
    qed
  qed simp
qed

text \<open>The value stored by the two kinds of patch.\<close>

lemma patch_value:
  "patch R_X86_64_64 v a p m = Some m' \<Longrightarrow> load64 m' p = v + a"
  "t \<in> {R_X86_64_PC32, R_X86_64_PLT32} \<Longrightarrow> patch t v a p m = Some m' \<Longrightarrow> load32 m' p = ucast (v + a - p)"
  "t \<in> {R_X86_64_32, R_X86_64_32S} \<Longrightarrow> patch t v a p m = Some m' \<Longrightarrow> load32 m' p = ucast (v + a)"
  by (auto simp: patch_def R_X86_64_NONE_def R_X86_64_64_def R_X86_64_PC32_def R_X86_64_PLT32_def
      R_X86_64_32_def R_X86_64_32S_def)


subsection \<open>What the relocations write\<close>

text \<open>
  The file's buffer and the module's memory are apart, the section headers are in the file,
  and the sections to load in the module's memory.
\<close>

definition in_block :: "u64 \<Rightarrow> u64 \<Rightarrow> u64 \<Rightarrow> bool" where
  "in_block b n x \<longleftrightarrow> x - b < n"

definition module_layout :: "memory \<Rightarrow> u64 \<Rightarrow> u64 \<Rightarrow> u64 \<Rightarrow> u64 \<Rightarrow> bool" where
  "module_layout m file_buffer shdrs mm sz \<longleftrightarrow>
     (\<forall>k < sizeof_Ehdr. \<not> in_block mm sz (file_buffer + k)) \<and>
     (\<forall>i < unat (e_shnum m file_buffer). \<forall>k < sizeof_Shdr. \<not> in_block mm sz (shdr shdrs i + k)) \<and>
     (\<forall>i < unat (e_shnum m file_buffer). sh_flags m (shdr shdrs i) AND SHF_ALLOC \<noteq> 0 \<longrightarrow>
        (\<forall>k < sh_size m (shdr shdrs i). in_block mm sz (sh_addr m (shdr shdrs i) + k)))"

lemma shdr_cong:
  assumes "\<And>k. k < sizeof_Shdr \<Longrightarrow> m (h + k) = m' (h + k)"
  shows "sh_type m h = sh_type m' h" "sh_flags m h = sh_flags m' h" "sh_addr m h = sh_addr m' h"
    "sh_offset m h = sh_offset m' h" "sh_size m h = sh_size m' h" "sh_link m h = sh_link m' h"
    "sh_info m h = sh_info m' h" "sh_addralign m h = sh_addralign m' h"
  using assms by (simp_all add: sizeof_Shdr_def sh_type_def sh_flags_def sh_addr_def sh_offset_def sh_size_def
      sh_link_def sh_info_def sh_addralign_def load64_def load32_def load16_def add.assoc)

lemma e_shnum_cong:
  assumes "\<And>k. k < sizeof_Ehdr \<Longrightarrow> m (h + k) = m' (h + k)"
  shows "e_shnum m h = e_shnum m' h"
  using assms by (simp_all add: sizeof_Ehdr_def e_shnum_def load64_def load32_def load16_def add.assoc)

lemma module_layout_kept:
  assumes "module_layout m fb shdrs mm sz" and keep: "\<And>x. \<not> in_block mm sz x \<Longrightarrow> m' x = m x"
  shows "module_layout m' fb shdrs mm sz" "e_shnum m' fb = e_shnum m fb"
    "i < unat (e_shnum m fb) \<Longrightarrow> sh_addr m' (shdr shdrs i) = sh_addr m (shdr shdrs i)"
    "i < unat (e_shnum m fb) \<Longrightarrow> sh_size m' (shdr shdrs i) = sh_size m (shdr shdrs i)"
proof -
  have h: "m' (shdr shdrs i + k) = m (shdr shdrs i + k)" if "i < unat (e_shnum m fb)" "k < sizeof_Shdr" for i k
    using assms(1) that by (intro keep) (simp add: module_layout_def)
  note cong = shdr_cong [where m = m' and m' = m, OF h]
  show n: "e_shnum m' fb = e_shnum m fb"
    using assms(1) by (intro e_shnum_cong keep) (simp add: module_layout_def)
  show "i < unat (e_shnum m fb) \<Longrightarrow> sh_addr m' (shdr shdrs i) = sh_addr m (shdr shdrs i)"
    "i < unat (e_shnum m fb) \<Longrightarrow> sh_size m' (shdr shdrs i) = sh_size m (shdr shdrs i)"
    by (simp_all add: cong)
  show "module_layout m' fb shdrs mm sz"
    using assms(1) unfolding module_layout_def n by (simp add: cong)
qed

lemma apply_relas_confined:
  assumes "apply_relas ksymtab F (shdr shdrs i) relas s = Some r"
    and "module_layout (ram s) fb shdrs mm sz" "i < unat (e_shnum (ram s) fb)"
    and "sh_flags (ram s) (shdr shdrs i) AND SHF_ALLOC \<noteq> 0" "\<not> in_block mm sz x"
  shows "ram (flow_state r) x = ram s x"
  using assms
proof (induction relas arbitrary: s)
  case (Cons rela relas)
  have one: "ram (flow_state q) y = ram s y"
    if "apply_rela ksymtab F (shdr shdrs i) rela s = Some q" "\<not> in_block mm sz y" for q y
  proof (rule apply_rela_confined [OF that(1)])
    show "\<not> y - sh_addr (ram s) (shdr shdrs i) < sh_size (ram s) (shdr shdrs i)"
    proof
      assume "y - sh_addr (ram s) (shdr shdrs i) < sh_size (ram s) (shdr shdrs i)"
      with Cons.prems(2-4) have "in_block mm sz (sh_addr (ram s) (shdr shdrs i) + (y - sh_addr (ram s) (shdr shdrs i)))"
        unfolding module_layout_def by blast
      with that(2) show False by simp
    qed
  qed
  from Cons.prems(1) obtain q where q: "apply_rela ksymtab F (shdr shdrs i) rela s = Some q"
    and r: "(case q of Fails s' \<Rightarrow> Some (Fails s') | Next _ s' \<Rightarrow> apply_relas ksymtab F (shdr shdrs i) relas s') = Some r"
    by (auto simp: bind_eq_Some_conv)
  show ?case
  proof (cases q)
    case (Fails s')
    with r one [OF q Cons.prems(5)] show ?thesis by auto
  next
    case (Next u s')
    then have k: "ram s' y = ram s y" if "\<not> in_block mm sz y" for y using one [OF q that] by simp
    note l = module_layout_kept [OF Cons.prems(2) k]
    have "sh_flags (ram s') (shdr shdrs i) = sh_flags (ram s) (shdr shdrs i)"
      using Cons.prems(2,3) by (intro shdr_cong k) (simp add: module_layout_def)
    then have "ram (flow_state r) x = ram s' x"
      using r Next Cons.prems(3-5) l(1,2) by (intro Cons.IH) simp_all
    with k [OF Cons.prems(5)] show ?thesis by simp
  qed
qed auto

lemma for_sections_rule:
  assumes "for_sections e body i x s = Some r" "P i x s"
    and step: "\<And>i x s q. P i x s \<Longrightarrow> i < unat (e_shnum (ram s) e) \<Longrightarrow> body i x s = Some q \<Longrightarrow>
      (case q of Fails s' \<Rightarrow> Q s' | Next x' s' \<Rightarrow> P (Suc i) x' s')"
  shows "case r of Fails s' \<Rightarrow> Q s' | Next x' s' \<Rightarrow> \<exists>j. P j x' s' \<and> \<not> j < unat (e_shnum (ram s') e)"
  using assms(1,2)
proof (induction "2 ^ 16 - i" arbitrary: i x s rule: less_induct)
  case less
  show ?case
  proof (cases "i < unat (e_shnum (ram s) e)")
    case False
    with less.prems show ?thesis by (subst (asm) for_sections.simps) auto
  next
    case True
    with less.prems(1) obtain q where q: "body i x s = Some q"
      and r: "(case q of Fails s' \<Rightarrow> Some (Fails s') | Next x' s' \<Rightarrow> for_sections e body (Suc i) x' s') = Some r"
      by (subst (asm) for_sections.simps) (auto split: option.splits flow.splits)
    show ?thesis
    proof (cases q)
      case (Fails s')
      with r step [OF less.prems(2) True q] show ?thesis by auto
    next
      case (Next x' s')
      with r step [OF less.prems(2) True q] count_bound [OF True] show ?thesis
        by (intro less.hyps [of "Suc i" x' s']) simp_all
    qed
  qed
qed

lemma unat_ucast_16_32: "unat (ucast x :: u32) = unat x" for x :: u16
proof -
  have "unat x < 2 ^ 32" by (rule less_trans [OF unsigned_less]) simp
  then show ?thesis by (simp add: unsigned_ucast_eq take_bit_nat_eq_self)
qed

lemma relocations_confined:
  assumes "for_sections fb (relocate_section ksymtab F fb fsz) 0 () s = Some r"
    and F: "l_ehdr F = fb" "l_shdrs F = shdrs" and lay: "module_layout (ram s) fb shdrs mm sz" and x: "\<not> in_block mm sz x"
  shows "ram (flow_state r) x = ram s x"
proof -
  let ?P = "\<lambda>s'. module_layout (ram s') fb shdrs mm sz \<and> (\<forall>x. \<not> in_block mm sz x \<longrightarrow> ram s' x = ram s x)"
  have "case r of Fails s' \<Rightarrow> \<forall>x. \<not> in_block mm sz x \<longrightarrow> ram s' x = ram s x
    | Next x' s' \<Rightarrow> \<exists>j. ?P s' \<and> \<not> j < unat (e_shnum (ram s') fb)"
  proof (rule for_sections_rule [OF assms(1)])
    show "?P s" using lay by simp
    fix i u s1 q
    assume P: "?P s1" and b: "relocate_section ksymtab F fb fsz i u s1 = Some q"
    have keep: "ram (flow_state q) y = ram s1 y" if y: "\<not> in_block mm sz y" for y
    proof (cases "sh_type (ram s1) (shdr shdrs i) = SHT_RELA")
      case rela: True
      define t where "t = shdr shdrs (unat (sh_info (ram s1) (shdr shdrs i)))"
      show ?thesis
      proof (cases "sh_info (ram s1) (shdr shdrs i) \<ge> ucast (e_shnum (ram s1) fb) \<or>
          outside_file (ram s1) (shdr shdrs i) fsz \<or> sh_size (ram s1) (shdr shdrs i) mod sizeof_Rela \<noteq> 0")
        case True
        with b rela have "give_up ''LOADER: Invalid relocation target section.\<newline>'' [] (l_memory F) s1 = Some q"
          by (simp add: relocate_section_def Let_def F)
        from give_up_ram [OF this] show ?thesis by simp
      next
        case False
        then have "sh_info (ram s1) (shdr shdrs i) < ucast (e_shnum (ram s1) fb)" by (simp add: not_le)
        then have lt: "unat (sh_info (ram s1) (shdr shdrs i)) < unat (e_shnum (ram s1) fb)"
          by (simp add: word_less_nat_alt unat_ucast_16_32)
        show ?thesis
        proof (cases "sh_flags (ram s1) t AND SHF_ALLOC = 0")
          case True
          with b rela False show ?thesis by (auto simp: relocate_section_def Let_def F t_def)
        next
          case alloc: False
          from b rela False alloc obtain l where "apply_relas ksymtab F t l s1 = Some q"
            by (auto simp: relocate_section_def Let_def F t_def)
          from apply_relas_confined [OF this [unfolded t_def] P [THEN conjunct1] lt alloc [unfolded t_def] y]
          show ?thesis .
        qed
      qed
    qed (use b in \<open>auto simp: relocate_section_def F\<close>)
    show "case q of Fails s' \<Rightarrow> \<forall>x. \<not> in_block mm sz x \<longrightarrow> ram s' x = ram s x | Next x' s' \<Rightarrow> ?P s'"
      using keep P module_layout_kept(1) [OF P [THEN conjunct1] keep] by (cases q) auto
  qed
  then show ?thesis using x by (cases r) auto
qed


subsection \<open>Where the sections are placed\<close>

text \<open>The end of the first \<open>i\<close> sections, and the place of section \<open>i\<close> in the block.\<close>

fun layout_end :: "memory \<Rightarrow> u64 \<Rightarrow> nat \<Rightarrow> u64" where
  "layout_end m shdrs 0 = 0"
| "layout_end m shdrs (Suc i) =
     (if sh_flags m (shdr shdrs i) AND SHF_ALLOC \<noteq> 0
      then align_to (layout_end m shdrs i) (sh_addralign m (shdr shdrs i)) + sh_size m (shdr shdrs i)
      else layout_end m shdrs i)"

definition section_offset :: "memory \<Rightarrow> u64 \<Rightarrow> nat \<Rightarrow> u64" where
  "section_offset m shdrs i = align_to (layout_end m shdrs i) (sh_addralign m (shdr shdrs i))"

lemma size_sections:
  assumes "for_sections fb (size_section debug shdrs fsz) 0 0 s = Some (Next sz s')"
  shows "s' = s \<and> sz = layout_end (ram s) shdrs (unat (e_shnum (ram s) fb))"
proof -
  have "\<exists>j. (j \<le> unat (e_shnum (ram s) fb) \<and> s' = s \<and> sz = layout_end (ram s) shdrs j) \<and> \<not> j < unat (e_shnum (ram s') fb)"
    using for_sections_rule [OF assms, of "\<lambda>i x t. i \<le> unat (e_shnum (ram s) fb) \<and> t = s \<and> x = layout_end (ram s) shdrs i" "\<lambda>_. True"]
    by (force simp: size_section_def Let_def split: flow.splits if_splits)
  then show ?thesis using le_antisym not_less by metis
qed

lemma for_bound_for_up:
  assumes "Q m" "\<And>m'. Q m' \<Longrightarrow> bound m' = n" "\<And>k m'. Q m' \<Longrightarrow> k < n \<Longrightarrow> Q (f k m')"
  shows "for_bound bound f j m = for_up j n f m"
  using assms(1)
proof (induction "2 ^ 64 - unat j" arbitrary: j m rule: less_induct)
  case less
  show ?case
  proof (cases "j < n")
    case True
    then have "2 ^ 64 - unat (j + 1) < 2 ^ 64 - unat j" using unat_u64 [of j] by (simp add: less_inc_le)
    from less.hyps [OF this assms(3) [OF less.prems True]] assms(2) [OF less.prems] True show ?thesis
      by (subst for_bound.simps) (simp add: for_up_step)
  next
    case False
    with assms(2) [OF less.prems] show ?thesis by (subst for_bound.simps) auto
  qed
qed

text \<open>The eight bytes of a header that hold the section's address.\<close>

definition addr_cell :: "u64 \<Rightarrow> u64 \<Rightarrow> bool" where
  "addr_cell h x \<longleftrightarrow> x - (h + 16) < 8"

lemma addr_cell_shdr:
  assumes "i < 2 ^ 16" "j < 2 ^ 16" "k < sizeof_Shdr" "addr_cell (shdr shdrs j) (shdr shdrs i + k)"
  shows "i = j \<and> 16 \<le> k \<and> k < 24"
proof -
  define z where "z = shdr shdrs i + k - (shdr shdrs j + 16)"
  have z: "unat z < 8" using assms(4) by (simp add: addr_cell_def z_def word_less_nat_alt)
  have k: "unat k < 64" using assms(3) by (simp add: sizeof_Shdr_def word_less_nat_alt)
  have e: "of_nat i * 64 + k = of_nat j * 64 + (16 + z)"
    by (simp add: z_def shdr_def sizeof_Shdr_def algebra_simps)
  have u: "unat (of_nat i * 64 :: u64) = i * 64" if "i < 2 ^ 16" for i
    using that by (simp add: unat_word_ariths unat_of_nat)
  have "unat (of_nat i * 64 + k) = i * 64 + unat k"
    using assms(1) k u [OF assms(1)] by (subst unat_add_small) simp_all
  moreover have z16: "unat (16 + z) = 16 + unat z" using z by (subst unat_add_small) simp_all
  then have "unat (of_nat j * 64 + (16 + z)) = j * 64 + (16 + unat z)"
    using assms(2) z u [OF assms(2)] by (subst unat_add_small) simp_all
  ultimately have "64 * i + unat k = 64 * j + (16 + unat z)" using e by simp
  moreover from this have "(64 * i + unat k) div 64 = (64 * j + (16 + unat z)) div 64" by simp
  then have "i = j" using k z by simp
  ultimately have "unat k = 16 + unat z" by simp
  with \<open>i = j\<close> z show ?thesis by (simp add: word_le_nat_alt word_less_nat_alt)
qed

lemma shdr_cong_addr:
  assumes "\<And>k. k < sizeof_Shdr \<Longrightarrow> \<not> (16 \<le> k \<and> k < 24) \<Longrightarrow> m (h + k) = m' (h + k)"
  shows "sh_type m h = sh_type m' h" "sh_flags m h = sh_flags m' h"
    "sh_offset m h = sh_offset m' h" "sh_size m h = sh_size m' h" "sh_addralign m h = sh_addralign m' h"
  using assms by (simp_all add: sizeof_Shdr_def sh_type_def sh_flags_def sh_offset_def sh_size_def
      sh_addralign_def load64_def load32_def load16_def add.assoc)

lemma sh_addr_cong:
  assumes "\<And>x. addr_cell h x \<Longrightarrow> m x = m' x"
  shows "sh_addr m h = sh_addr m' h"
  using assms by (simp add: addr_cell_def sh_addr_def load64_def load32_def load16_def add.assoc)

lemma place_section_spec:
  assumes alloc: "sh_flags m (shdr shdrs i) AND SHF_ALLOC \<noteq> 0"
    and hdr: "\<And>k. k < sizeof_Shdr \<Longrightarrow> \<not> in_block dst n (shdr shdrs i + k)"
    and src: "\<And>k. sh_type m (shdr shdrs i) \<noteq> SHT_NOBITS \<Longrightarrow> k < n \<Longrightarrow>
      \<not> in_block dst n (fb + sh_offset m (shdr shdrs i) + k) \<and> \<not> addr_cell (shdr shdrs i) (fb + sh_offset m (shdr shdrs i) + k)"
    and n: "n = sh_size m (shdr shdrs i)" and dst: "dst = mm + align_to cur (sh_addralign m (shdr shdrs i))"
  shows "\<exists>m'. place_section fb mm shdrs i cur m = (align_to cur (sh_addralign m (shdr shdrs i)) + n, m') \<and>
    sh_addr m' (shdr shdrs i) = dst \<and>
    (\<forall>x. \<not> in_block dst n x \<longrightarrow> \<not> addr_cell (shdr shdrs i) x \<longrightarrow> m' x = m x) \<and>
    (\<forall>k < n. m' (dst + k) =
       (if sh_type m (shdr shdrs i) = SHT_NOBITS then 0 else m (fb + sh_offset m (shdr shdrs i) + k)))"
proof -
  define h where "h = shdr shdrs i"
  define m1 where "m1 = store64 (h + 16) dst m"
  define m2 where "m2 = (if sh_type m h = SHT_NOBITS then memset dst 0 n m1 else memcpy dst (fb + sh_offset m h) n m1)"
  have other: "m1 x = m x" if "\<not> addr_cell h x" for x
    using that by (simp add: m1_def addr_cell_def store_within)
  have cell: "\<not> addr_cell h (h + k)" if "\<not> (16 \<le> k \<and> k < 24)" for k
  proof
    assume "addr_cell h (h + k)"
    then have z: "unat (k - 16) < 8" by (simp add: addr_cell_def word_less_nat_alt)
    then have "unat (k - 16 + 16) = unat (k - 16) + 16" by (subst unat_add_small) simp_all
    with z that show False by (simp add: word_le_nat_alt word_less_nat_alt)
  qed
  have f1: "sh_type m1 h = sh_type m h" "sh_offset m1 h = sh_offset m h" "sh_size m1 h = n" "sh_addr m1 h = dst"
    using shdr_cong_addr [of m1 h m] other cell n by (simp_all add: h_def) (simp add: m1_def h_def sh_addr_def)
  let ?Q = "\<lambda>m'. \<forall>k < sizeof_Shdr. m' (h + k) = m1 (h + k)"
  have Q: "sh_size m' h = n" if "?Q m'" for m'
    using shdr_cong(5) [of m' h m1] that f1(3) by simp
  have upd: "?Q (m'(dst + k := v))" if "?Q m'" "k < n" for m' k v
  proof -
    have "h + l \<noteq> dst + k" if "l < sizeof_Shdr" for l
    proof
      assume "h + l = dst + k"
      then have "h + l - dst = k" by simp
      with hdr [OF that] \<open>k < n\<close> show False by (simp add: in_block_def h_def)
    qed
    with \<open>?Q m'\<close> show ?thesis by simp
  qed
  have loop: "for_bound (\<lambda>m. sh_size m h) (\<lambda>j m. m(dst + j := g m j)) 0 m1 = for_up 0 n (\<lambda>j m. m(dst + j := g m j)) m1" for g
    by (rule for_bound_for_up [where Q = ?Q, OF _ Q upd]) simp_all
  define off where "off = align_to cur (sh_addralign m h)"
  have d: "mm + off = dst" "sh_flags m h AND SHF_ALLOC \<noteq> 0" using dst alloc by (simp_all add: off_def h_def)
  have p: "place_section fb mm shdrs i cur m = (off + sh_size m2 h, m2)"
    using loop [of "\<lambda>_ _. 0"] loop [of "\<lambda>m j. m (fb + sh_offset m1 h + j)"]
    by (simp add: place_section_def Let_def h_def [symmetric] off_def [symmetric] d m1_def [symmetric] f1
        m2_def memset_def memcpy_def)
  have ne: "dst + i \<noteq> fb + sh_offset m h + j" if "sh_type m h \<noteq> SHT_NOBITS" "i < n" "j < n" for i j
  proof
    assume "dst + i = fb + sh_offset m h + j"
    then have "fb + sh_offset m h + j - dst = i" by (metis add_diff_cancel_left')
    with src [of j] that show False by (simp add: in_block_def h_def)
  qed
  have m2: "m2 x = (if in_block dst n x then if sh_type m h = SHT_NOBITS then 0 else m1 (fb + sh_offset m h + (x - dst)) else m1 x)" for x
    using memcpy_spec [OF ne, where m = m1 and a = x] by (auto simp: m2_def memset_spec in_block_def)
  have "?Q m2" using hdr by (simp add: m2 h_def)
  have a2: "sh_addr m2 h = dst" using shdr_cong(3) [of m2 h m1] \<open>?Q m2\<close> f1(4) by simp
  have "m2 x = m x" if "\<not> in_block dst n x" "\<not> addr_cell h x" for x using that other by (simp add: m2)
  moreover have "m2 (dst + k) = (if sh_type m h = SHT_NOBITS then 0 else m (fb + sh_offset m h + k))" if "k < n" for k
    using that src [of k] other by (simp add: m2 in_block_def h_def)
  ultimately show ?thesis using p a2 Q [OF \<open>?Q m2\<close>] unfolding h_def off_def by auto
qed

lemma for_sections_total:
  assumes P: "P i x s" "i \<le> n" and num: "\<And>i x s. P i x s \<Longrightarrow> unat (e_shnum (ram s) e) = n"
    and step: "\<And>i x s. P i x s \<Longrightarrow> i < n \<Longrightarrow> \<exists>x' s'. body i x s = Some (Next x' s') \<and> P (Suc i) x' s'"
  shows "\<exists>x' s'. for_sections e body i x s = Some (Next x' s') \<and> P n x' s'"
  using P
proof (induction "n - i" arbitrary: i x s)
  case 0
  with num [of i x s] show ?case by (subst for_sections.simps) auto
next
  case (Suc d)
  then have lt: "i < n" by simp
  from step [OF Suc.prems(1) lt] obtain x' s' where b: "body i x s = Some (Next x' s')" "P (Suc i) x' s'" by blast
  from Suc.hyps(1) [of "Suc i" x' s'] b(2) Suc.hyps(2) lt
  show ?case by (subst for_sections.simps) (simp add: num [OF Suc.prems(1)] b(1))
qed

text \<open>
  Placing works when the sizes do not wrap around, which is not checked, and when the headers
  and the data of the file lie outside the block and do not overlap the address cells.
\<close>

definition untouched :: "memory \<Rightarrow> u64 \<Rightarrow> u64 \<Rightarrow> u64 \<Rightarrow> u64 \<Rightarrow> bool" where
  "untouched m fb shdrs mm x \<longleftrightarrow>
     \<not> in_block mm (layout_end m shdrs (unat (e_shnum m fb))) x \<and>
     (\<forall>j < unat (e_shnum m fb). \<not> addr_cell (shdr shdrs j) x)"

definition section_fits :: "memory \<Rightarrow> u64 \<Rightarrow> u64 \<Rightarrow> u64 \<Rightarrow> nat \<Rightarrow> bool" where
  "section_fits m fb shdrs mm i \<longleftrightarrow>
     (sh_flags m (shdr shdrs i) AND SHF_ALLOC \<noteq> 0 \<longrightarrow>
        layout_end m shdrs i \<le> section_offset m shdrs i \<and>
        unat (section_offset m shdrs i) + unat (sh_size m (shdr shdrs i)) < 2 ^ 64 \<and>
        (sh_type m (shdr shdrs i) \<noteq> SHT_NOBITS \<longrightarrow>
           (\<forall>k < sh_size m (shdr shdrs i). untouched m fb shdrs mm (fb + sh_offset m (shdr shdrs i) + k))))"

definition module_fits :: "memory \<Rightarrow> u64 \<Rightarrow> u64 \<Rightarrow> u64 \<Rightarrow> bool" where
  "module_fits m fb shdrs mm \<longleftrightarrow>
     (\<forall>k < sizeof_Ehdr. untouched m fb shdrs mm (fb + k)) \<and>
     (\<forall>i < unat (e_shnum m fb). section_fits m fb shdrs mm i \<and>
        (\<forall>k < sizeof_Shdr. \<not> in_block mm (layout_end m shdrs (unat (e_shnum m fb))) (shdr shdrs i + k)))"

text \<open>The byte \<open>k\<close> of section \<open>i\<close> when it is placed, and the placed sections.\<close>

definition section_byte :: "memory \<Rightarrow> u64 \<Rightarrow> u64 \<Rightarrow> nat \<Rightarrow> u64 \<Rightarrow> u8" where
  "section_byte m fb shdrs i k =
     (if sh_type m (shdr shdrs i) = SHT_NOBITS then 0 else m (fb + sh_offset m (shdr shdrs i) + k))"

definition sections_placed :: "memory \<Rightarrow> u64 \<Rightarrow> u64 \<Rightarrow> u64 \<Rightarrow> nat \<Rightarrow> memory \<Rightarrow> bool" where
  "sections_placed m fb shdrs mm i m' \<longleftrightarrow>
     (\<forall>x. untouched m fb shdrs mm x \<longrightarrow> m' x = m x) \<and>
     (\<forall>j < unat (e_shnum m fb). \<forall>k < sizeof_Shdr. \<not> (16 \<le> k \<and> k < 24) \<longrightarrow> m' (shdr shdrs j + k) = m (shdr shdrs j + k)) \<and>
     (\<forall>j < i. sh_flags m (shdr shdrs j) AND SHF_ALLOC \<noteq> 0 \<longrightarrow>
        sh_addr m' (shdr shdrs j) = mm + section_offset m shdrs j \<and>
        (\<forall>k < sh_size m (shdr shdrs j). m' (mm + section_offset m shdrs j + k) = section_byte m fb shdrs j k))"

lemma layout_end_mono:
  assumes "module_fits m fb shdrs mm" "i \<le> j" "j \<le> unat (e_shnum m fb)"
  shows "unat (layout_end m shdrs i) \<le> unat (layout_end m shdrs j)"
  using assms(2,3)
proof (induction j rule: dec_induct)
  case (step j)
  have "section_fits m fb shdrs mm j" using assms(1) step.prems by (simp add: module_fits_def)
  then have "unat (layout_end m shdrs j) \<le> unat (layout_end m shdrs (Suc j))"
    by (auto simp: section_fits_def section_offset_def [symmetric] word_le_nat_alt unat_add_small)
  with step show ?case by simp
qed simp

lemma section_room:
  assumes "module_fits m fb shdrs mm" "i < unat (e_shnum m fb)" "sh_flags m (shdr shdrs i) AND SHF_ALLOC \<noteq> 0"
  shows "unat (layout_end m shdrs i) \<le> unat (section_offset m shdrs i)"
    "unat (section_offset m shdrs i + sh_size m (shdr shdrs i)) = unat (section_offset m shdrs i) + unat (sh_size m (shdr shdrs i))"
    "unat (section_offset m shdrs i) + unat (sh_size m (shdr shdrs i)) \<le> unat (layout_end m shdrs (Suc i))"
    "unat (layout_end m shdrs (Suc i)) \<le> unat (layout_end m shdrs (unat (e_shnum m fb)))"
proof -
  have f: "section_fits m fb shdrs mm i" using assms by (simp add: module_fits_def)
  show "unat (layout_end m shdrs i) \<le> unat (section_offset m shdrs i)"
    using f assms(3) by (simp add: section_fits_def word_le_nat_alt)
  show u: "unat (section_offset m shdrs i + sh_size m (shdr shdrs i)) = unat (section_offset m shdrs i) + unat (sh_size m (shdr shdrs i))"
    using f assms(3) by (intro unat_add_small) (simp add: section_fits_def)
  then show "unat (section_offset m shdrs i) + unat (sh_size m (shdr shdrs i)) \<le> unat (layout_end m shdrs (Suc i))"
    using assms(3) by (simp add: section_offset_def [symmetric])
  show "unat (layout_end m shdrs (Suc i)) \<le> unat (layout_end m shdrs (unat (e_shnum m fb)))"
    using layout_end_mono [OF assms(1), of "Suc i"] assms(2) by simp
qed

lemma section_in_block:
  assumes "module_fits m fb shdrs mm" "i < unat (e_shnum m fb)" "sh_flags m (shdr shdrs i) AND SHF_ALLOC \<noteq> 0"
    and "k < sh_size m (shdr shdrs i)"
  shows "in_block mm (layout_end m shdrs (unat (e_shnum m fb))) (mm + section_offset m shdrs i + k)"
    "unat (section_offset m shdrs i + k) = unat (section_offset m shdrs i) + unat k"
proof -
  note r = section_room [OF assms(1-3)]
  have k: "unat k < unat (sh_size m (shdr shdrs i))" using assms(4) by (simp add: word_less_nat_alt)
  show u: "unat (section_offset m shdrs i + k) = unat (section_offset m shdrs i) + unat k"
    using r k unat_u64 [of "layout_end m shdrs (Suc i)"] by (intro unat_add_small) linarith
  have "unat (section_offset m shdrs i + k) < unat (layout_end m shdrs (unat (e_shnum m fb)))"
    unfolding u using r k by linarith
  then show "in_block mm (layout_end m shdrs (unat (e_shnum m fb))) (mm + section_offset m shdrs i + k)"
    by (simp add: in_block_def word_less_nat_alt add.assoc)
qed

lemma addr_cellE:
  assumes "addr_cell h x"
  obtains k where "x = h + k" "16 \<le> k" "k < 24"
proof -
  define z where "z = x - (h + 16)"
  have z: "unat z < 8" using assms by (simp add: addr_cell_def z_def word_less_nat_alt)
  have "unat (16 + z) = 16 + unat z" using z by (subst unat_add_small) simp_all
  then show thesis using z by (intro that [of "16 + z"]) (simp_all add: z_def word_le_nat_alt word_less_nat_alt)
qed

lemma place_section_step:
  assumes fits: "module_fits m fb shdrs mm" and i: "i < unat (e_shnum m fb)"
    and pl: "sections_placed m fb shdrs mm i m'"
  shows "\<exists>m''. place_section fb mm shdrs i (layout_end m shdrs i) m' = (layout_end m shdrs (Suc i), m'') \<and>
    sections_placed m fb shdrs mm (Suc i) m''"
proof -
  define n where "n = unat (e_shnum m fb)"
  have "unat (e_shnum m fb) < 2 ^ 16" using unsigned_less [of "e_shnum m fb"] by simp
  then have n16: "n < 2 ^ 16" by (simp add: n_def)
  have keep: "m' x = m x" if "untouched m fb shdrs mm x" for x using pl that by (simp add: sections_placed_def)
  have hd: "m' (shdr shdrs j + k) = m (shdr shdrs j + k)" if "j < n" "k < sizeof_Shdr" "\<not> (16 \<le> k \<and> k < 24)" for j k
    using pl that by (simp add: sections_placed_def n_def)
  have fld: "sh_type m' (shdr shdrs j) = sh_type m (shdr shdrs j)" "sh_flags m' (shdr shdrs j) = sh_flags m (shdr shdrs j)"
    "sh_offset m' (shdr shdrs j) = sh_offset m (shdr shdrs j)" "sh_size m' (shdr shdrs j) = sh_size m (shdr shdrs j)"
    "sh_addralign m' (shdr shdrs j) = sh_addralign m (shdr shdrs j)" if "j < n" for j
    using shdr_cong_addr [of m' "shdr shdrs j" m] hd [OF that] by simp_all
  show ?thesis
  proof (cases "sh_flags m (shdr shdrs i) AND SHF_ALLOC = 0")
    case True
    then have "sections_placed m fb shdrs mm (Suc i) m'" using pl by (simp add: sections_placed_def less_Suc_eq)
    with True i show ?thesis by (simp add: place_section_def fld n_def)
  next
    case alloc: False
    define sz where "sz = layout_end m shdrs n"
    define dst where "dst = mm + section_offset m shdrs i"
    define l where "l = sh_size m (shdr shdrs i)"
    have fits_i: "section_fits m fb shdrs mm i" using fits i by (simp add: module_fits_def)
    have blk: "in_block mm sz x" if "in_block dst l x" for x
    proof -
      have "x = mm + section_offset m shdrs i + (x - dst)" by (simp add: dst_def)
      with section_in_block(1) [OF fits i alloc, of "x - dst"] that show ?thesis
        by (simp add: in_block_def l_def sz_def n_def)
    qed
    have hout: "\<not> in_block mm sz (shdr shdrs j + k)" if "j < n" "k < sizeof_Shdr" for j k
      using fits that by (simp add: module_fits_def sz_def n_def)
    have cells: "\<not> addr_cell (shdr shdrs j) x" if "in_block mm sz x" "j < n" for j x
    proof
      assume "addr_cell (shdr shdrs j) x"
      then obtain k where k: "x = shdr shdrs j + k" "k < 24" by (rule addr_cellE)
      have "k < sizeof_Shdr" using k(2) by (simp add: sizeof_Shdr_def) (unat_arith)
      with hout that k(1) show False by blast
    qed
    have data: "sh_type m (shdr shdrs i) \<noteq> SHT_NOBITS \<Longrightarrow> k < l \<Longrightarrow> untouched m fb shdrs mm (fb + sh_offset m (shdr shdrs i) + k)" for k
      using fits_i alloc by (simp add: section_fits_def l_def)
    have un: "\<not> in_block dst l x" "\<not> addr_cell (shdr shdrs i) x" if "untouched m fb shdrs mm x" for x
      using that blk i by (auto simp: untouched_def sz_def n_def)
    have in_i: "i < n" using i by (simp add: n_def)
    obtain m'' where p: "place_section fb mm shdrs i (layout_end m shdrs i) m' = (layout_end m shdrs (Suc i), m'')"
      and a: "sh_addr m'' (shdr shdrs i) = dst"
      and o: "\<And>x. \<not> in_block dst l x \<Longrightarrow> \<not> addr_cell (shdr shdrs i) x \<Longrightarrow> m'' x = m' x"
      and b: "\<And>k. k < l \<Longrightarrow> m'' (dst + k) = section_byte m fb shdrs i k"
    proof -
      have "\<exists>m''. place_section fb mm shdrs i (layout_end m shdrs i) m' =
          (align_to (layout_end m shdrs i) (sh_addralign m' (shdr shdrs i)) + l, m'') \<and>
        sh_addr m'' (shdr shdrs i) = dst \<and>
        (\<forall>x. \<not> in_block dst l x \<longrightarrow> \<not> addr_cell (shdr shdrs i) x \<longrightarrow> m'' x = m' x) \<and>
        (\<forall>k < l. m'' (dst + k) =
           (if sh_type m' (shdr shdrs i) = SHT_NOBITS then 0 else m' (fb + sh_offset m' (shdr shdrs i) + k)))"
      proof (rule place_section_spec)
        show "sh_flags m' (shdr shdrs i) AND SHF_ALLOC \<noteq> 0" using alloc by (simp add: fld in_i)
        show "\<And>k. k < sizeof_Shdr \<Longrightarrow> \<not> in_block dst l (shdr shdrs i + k)" using hout [OF in_i] blk by blast
        show "\<And>k. sh_type m' (shdr shdrs i) \<noteq> SHT_NOBITS \<Longrightarrow> k < l \<Longrightarrow>
            \<not> in_block dst l (fb + sh_offset m' (shdr shdrs i) + k) \<and> \<not> addr_cell (shdr shdrs i) (fb + sh_offset m' (shdr shdrs i) + k)"
          using data un by (simp add: fld in_i)
      qed (simp_all add: l_def dst_def section_offset_def fld in_i)
      then obtain m'' where q: "place_section fb mm shdrs i (layout_end m shdrs i) m' =
          (align_to (layout_end m shdrs i) (sh_addralign m' (shdr shdrs i)) + l, m'')" "sh_addr m'' (shdr shdrs i) = dst"
        "\<And>x. \<not> in_block dst l x \<Longrightarrow> \<not> addr_cell (shdr shdrs i) x \<Longrightarrow> m'' x = m' x"
        "\<And>k. k < l \<Longrightarrow> m'' (dst + k) =
           (if sh_type m' (shdr shdrs i) = SHT_NOBITS then 0 else m' (fb + sh_offset m' (shdr shdrs i) + k))" by blast
      have "align_to (layout_end m shdrs i) (sh_addralign m' (shdr shdrs i)) + l = layout_end m shdrs (Suc i)"
        using alloc by (simp add: fld in_i l_def)
      moreover have "m'' (dst + k) = section_byte m fb shdrs i k" if "k < l" for k
        using q(4) [OF that] data [OF _ that] keep by (simp add: fld in_i section_byte_def)
      ultimately show thesis using q by (intro that [of m'']) simp_all
    qed
    have old: "sh_addr m'' (shdr shdrs j) = mm + section_offset m shdrs j \<and>
        (\<forall>k < sh_size m (shdr shdrs j). m'' (mm + section_offset m shdrs j + k) = section_byte m fb shdrs j k)"
      if j: "j < i" "sh_flags m (shdr shdrs j) AND SHF_ALLOC \<noteq> 0" for j
    proof -
      have jn: "j < n" using j(1) in_i by simp
      note rj = section_room [OF fits jn [unfolded n_def] j(2)] and ri = section_room [OF fits i alloc]
      have before: "unat (layout_end m shdrs (Suc j)) \<le> unat (layout_end m shdrs i)"
        using layout_end_mono [OF fits, of "Suc j" i] j(1) i by simp
      have "sh_addr m'' (shdr shdrs j) = sh_addr m' (shdr shdrs j)"
      proof (rule sh_addr_cong)
        fix x assume "addr_cell (shdr shdrs j) x"
        then obtain k where k: "x = shdr shdrs j + k" "k < 24" by (rule addr_cellE)
        have k64: "k < sizeof_Shdr" using k(2) by (simp add: sizeof_Shdr_def) (unat_arith)
        have "\<not> addr_cell (shdr shdrs i) x"
          using addr_cell_shdr [of j i k shdrs] jn in_i n16 k64 j(1) unfolding k(1) by auto
        moreover have "\<not> in_block dst l x" using hout [OF jn k64] blk unfolding k(1) by blast
        ultimately show "m'' x = m' x" using o by simp
      qed
      moreover have "m'' (mm + section_offset m shdrs j + k) = m' (mm + section_offset m shdrs j + k)"
        if k: "k < sh_size m (shdr shdrs j)" for k
      proof (rule o)
        note bj = section_in_block [OF fits jn [unfolded n_def] j(2) k]
        show "\<not> addr_cell (shdr shdrs i) (mm + section_offset m shdrs j + k)"
          using cells [OF _ in_i] bj(1) by (simp add: sz_def n_def)
        show "\<not> in_block dst l (mm + section_offset m shdrs j + k)"
        proof
          assume "in_block dst l (mm + section_offset m shdrs j + k)"
          then have z: "section_offset m shdrs j + k - section_offset m shdrs i < sh_size m (shdr shdrs i)" (is "?z < _")
            by (simp add: in_block_def dst_def l_def algebra_simps)
          have "unat (section_offset m shdrs i + ?z) = unat (section_offset m shdrs i) + unat ?z"
            by (rule section_in_block(2) [OF fits i alloc z])
          then have "unat (section_offset m shdrs i) \<le> unat (section_offset m shdrs j + k)" by simp
          with bj(2) rj ri before k show False by (simp add: word_less_nat_alt)
        qed
      qed
      ultimately show ?thesis using pl j jn by (simp add: sections_placed_def n_def)
    qed
    have "sections_placed m fb shdrs mm (Suc i) m''"
      unfolding sections_placed_def
    proof (intro conjI allI impI)
      show "m'' x = m x" if "untouched m fb shdrs mm x" for x using o [OF un [OF that]] keep [OF that] by simp
    next
      fix j k assume j: "j < unat (e_shnum m fb)" and k: "k < sizeof_Shdr" "\<not> (16 \<le> k \<and> k < 24)"
      have "\<not> addr_cell (shdr shdrs i) (shdr shdrs j + k)"
        using addr_cell_shdr [of j i k shdrs] j in_i n16 k by (auto simp: n_def)
      moreover have "\<not> in_block dst l (shdr shdrs j + k)" using hout [of j k] blk j k(1) by (auto simp: n_def)
      ultimately show "m'' (shdr shdrs j + k) = m (shdr shdrs j + k)" using o hd [of j k] j k by (simp add: n_def)
    next
      fix j assume j: "j < Suc i" and al: "sh_flags m (shdr shdrs j) AND SHF_ALLOC \<noteq> 0"
      then consider "j < i" | "j = i" by linarith
      then show "sh_addr m'' (shdr shdrs j) = mm + section_offset m shdrs j"
        using old [OF _ al] a by cases (simp_all add: dst_def)
      fix k assume "k < sh_size m (shdr shdrs j)"
      with old [OF _ al] b j show "m'' (mm + section_offset m shdrs j + k) = section_byte m fb shdrs j k"
        by (cases "j < i") (auto simp: dst_def l_def less_Suc_eq)
    qed
    with p show ?thesis by blast
  qed
qed

lemma place_sections_spec:
  fixes s :: "'a machine_scheme"
  assumes fits: "module_fits (ram s) fb shdrs mm"
  shows "\<exists>m'. place_sections fb fb mm shdrs s =
      Some (Next (layout_end (ram s) shdrs (unat (e_shnum (ram s) fb))) (s\<lparr>ram := m'\<rparr>)) \<and>
    sections_placed (ram s) fb shdrs mm (unat (e_shnum (ram s) fb)) m'"
proof -
  let ?n = "unat (e_shnum (ram s) fb)"
  let ?P = "\<lambda>i off t. i \<le> ?n \<and> off = layout_end (ram s) shdrs i \<and> (\<exists>m'. t = s\<lparr>ram := m'\<rparr> \<and> sections_placed (ram s) fb shdrs mm i m')"
  have "\<exists>off t. place_sections fb fb mm shdrs s = Some (Next off t) \<and> ?P ?n off t"
    unfolding place_sections_def
  proof (rule for_sections_total [where P = ?P])
    show "?P 0 0 s" by (auto simp: sections_placed_def intro!: exI [of _ "ram s"])
    show "unat (e_shnum (ram t) fb) = ?n" if "?P i off t" for i off and t :: "'a machine_scheme"
    proof -
      have "untouched (ram s) fb shdrs mm (fb + k)" if "k < sizeof_Ehdr" for k
        using fits that by (simp add: module_fits_def)
      with that have "e_shnum (ram t) fb = e_shnum (ram s) fb"
        by (intro e_shnum_cong) (auto simp: sections_placed_def)
      then show ?thesis by simp
    qed
    show "\<exists>x' t'. (case place_section fb mm shdrs i off (ram t) of (offset', m) \<Rightarrow> Some (Next offset' (t\<lparr>ram := m\<rparr>))) =
        Some (Next x' t') \<and> ?P (Suc i) x' t'" if "?P i off t" "i < ?n" for i off and t :: "'a machine_scheme"
    proof -
      from that(1) obtain m' where t: "t = s\<lparr>ram := m'\<rparr>" "sections_placed (ram s) fb shdrs mm i m'"
        and off: "off = layout_end (ram s) shdrs i" by blast
      from place_section_step [OF fits that(2) t(2)] obtain m'' where
        "place_section fb mm shdrs i off m' = (layout_end (ram s) shdrs (Suc i), m'')"
        "sections_placed (ram s) fb shdrs mm (Suc i) m''" unfolding off by blast
      with that(2) show ?thesis by (auto simp: t(1))
    qed
  qed simp
  then show ?thesis by blast
qed

lemma placed_layout:
  assumes fits: "module_fits m fb shdrs mm" and pl: "sections_placed m fb shdrs mm (unat (e_shnum m fb)) m'"
  shows "module_layout m' fb shdrs mm (layout_end m shdrs (unat (e_shnum m fb)))"
proof -
  have un: "untouched m fb shdrs mm (fb + k)" if "k < sizeof_Ehdr" for k
    using fits that by (simp add: module_fits_def)
  then have n: "e_shnum m' fb = e_shnum m fb" using pl by (intro e_shnum_cong) (simp add: sections_placed_def)
  have fld: "sh_flags m' (shdr shdrs j) = sh_flags m (shdr shdrs j)" "sh_size m' (shdr shdrs j) = sh_size m (shdr shdrs j)"
    if "j < unat (e_shnum m fb)" for j
    using shdr_cong_addr [of m' "shdr shdrs j" m] pl that by (simp_all add: sections_placed_def)
  show ?thesis
    unfolding module_layout_def n
  proof (intro conjI allI impI)
    fix k assume "k < sizeof_Ehdr"
    then show "\<not> in_block mm (layout_end m shdrs (unat (e_shnum m fb))) (fb + k)"
      using un by (simp add: untouched_def)
  next
    fix i k assume "i < unat (e_shnum m fb)" "k < sizeof_Shdr"
    then show "\<not> in_block mm (layout_end m shdrs (unat (e_shnum m fb))) (shdr shdrs i + k)"
      using fits by (simp add: module_fits_def)
  next
    fix i k
    assume i: "i < unat (e_shnum m fb)" and a: "sh_flags m' (shdr shdrs i) AND SHF_ALLOC \<noteq> 0" and k: "k < sh_size m' (shdr shdrs i)"
    then have "sh_addr m' (shdr shdrs i) = mm + section_offset m shdrs i"
      using pl by (simp add: sections_placed_def fld)
    with section_in_block(1) [OF fits i] a k
    show "in_block mm (layout_end m shdrs (unat (e_shnum m fb))) (sh_addr m' (shdr shdrs i) + k)"
      by (simp add: fld [OF i])
  qed
qed

text \<open>
  C36. The sections of a module: when their sizes do not wrap around, \<open>load_module\<close> places
  each section to load at its aligned offset in the block (bytes of the file, or zeros), uses
  exactly the bytes it counted for the allocation, and changes nothing else but the addresses
  in the section headers; and whatever relocations the file then asks for, well formed or not,
  processing them changes no byte outside the block.
\<close>

theorem module_sections_confined:
  fixes s :: "'a machine_scheme"
  assumes "module_fits (ram s) fb shdrs mm" and "l_ehdr F = fb" and "l_shdrs F = shdrs"
  shows "\<exists>m'. place_sections fb fb mm shdrs s =
      Some (Next (layout_end (ram s) shdrs (unat (e_shnum (ram s) fb))) (s\<lparr>ram := m'\<rparr>)) \<and>
    sections_placed (ram s) fb shdrs mm (unat (e_shnum (ram s) fb)) m' \<and>
    (\<forall>r x. for_sections fb (relocate_section ksymtab F fb fsz) 0 () (s\<lparr>ram := m'\<rparr>) = Some r \<longrightarrow>
       \<not> in_block mm (layout_end (ram s) shdrs (unat (e_shnum (ram s) fb))) x \<longrightarrow> ram (flow_state r) x = m' x)"
proof -
  obtain m' where m': "place_sections fb fb mm shdrs s =
      Some (Next (layout_end (ram s) shdrs (unat (e_shnum (ram s) fb))) (s\<lparr>ram := m'\<rparr>))"
    "sections_placed (ram s) fb shdrs mm (unat (e_shnum (ram s) fb)) m'"
    using place_sections_spec [OF assms(1)] by blast
  have "module_layout (ram (s\<lparr>ram := m'\<rparr>)) fb shdrs mm (layout_end (ram s) shdrs (unat (e_shnum (ram s) fb)))"
    using placed_layout [OF assms(1) m'(2)] by simp
  from relocations_confined [OF _ assms(2,3) this] m' show ?thesis by (intro exI [of _ m']) auto
qed


subsection \<open>A small module\<close>

text \<open>One section of four bytes in the file at \<open>0x200000\<close>, to be placed at \<open>0x100000\<close>.\<close>

definition module_file :: memory where
  "module_file = (\<lambda>_. 0)(0x20003C := 1, 0x200044 := 1, 0x200048 := 2, 0x200058 := 200, 0x200060 := 4, 0x200070 := 4,
     0x2000C8 := 0xAA, 0x2000C9 := 0xBB, 0x2000CA := 0xCC, 0x2000CB := 0xDD)"

definition module_machine :: machine where
  "module_machine = machine_zero\<lparr>ram := module_file\<rparr>"

definition module_frame :: load_frame where
  "module_frame = \<lparr>l_ehdr = 0x200000, l_shdrs = 0x200040, l_symtab = 0, l_strtab = 0, l_syms = 0, l_strings = 0, l_memory = 0x100000\<rparr>"

lemma module_file_fields:
  "unat (e_shnum module_file 0x200000) = Suc 0" "layout_end module_file 0x200040 (Suc 0) = 4" "section_offset module_file 0x200040 0 = 0"
  "sh_flags module_file 0x200040 = 2" "sh_size module_file 0x200040 = 4"
  "sh_type module_file 0x200040 = 1" "sh_offset module_file 0x200040 = 200"
  "shdr 0x200040 0 = 0x200040" "module_file 0x2000CB = 0xDD"
  by code_simp+

lemma module_file_fits: "module_fits module_file 0x200000 0x200040 0x100000"
proof -
  have blk: "\<not> in_block 0x100000 4 (0x200000 + k)" if "k < 0x1000" for k
  proof -
    have "(0x200000 + k) - 0x100000 = 0x100000 + k" by simp
    moreover have "unat (0x100000 + k) = 0x100000 + unat k"
      using that by (subst unat_add_small) (simp_all add: word_less_nat_alt)
    then have "\<not> 0x100000 + k < 4" by (simp add: word_less_nat_alt)
    ultimately show ?thesis by (simp only: in_block_def) simp
  qed
  have cell: "\<not> addr_cell 0x200040 (0x200000 + k)" if "k < 80 \<or> (88 \<le> k \<and> k < 0x1000)" for k
  proof
    assume "addr_cell 0x200040 (0x200000 + k)"
    then obtain l where l: "0x200000 + k = 0x200040 + l" "16 \<le> l" "l < 24" by (rule addr_cellE)
    then have k: "k = 64 + l" by (simp add: algebra_simps)
    have "unat (64 + l) = 64 + unat l" using l(3) by (subst unat_add_small) (simp_all add: word_less_nat_alt)
    with l(2,3) that show False by (simp add: k word_less_nat_alt word_le_nat_alt)
  qed
  have "untouched module_file 0x200000 0x200040 0x100000 (0x200000 + k)" if "k < sizeof_Ehdr" for k
  proof -
    have "k < 0x1000" "k < 80" using that by (simp_all add: sizeof_Ehdr_def) unat_arith+
    with blk cell show ?thesis by (simp add: untouched_def module_file_fields del: layout_end.simps)
  qed
  moreover have "untouched module_file 0x200000 0x200040 0x100000 (0x200000 + 200 + k)" if "k < 4" for k
  proof -
    have "unat (200 + k) = 200 + unat k" using that by (subst unat_add_small) (simp_all add: word_less_nat_alt)
    then have "200 + k < 0x1000" "88 \<le> 200 + k" using that by (simp_all add: word_less_nat_alt word_le_nat_alt)
    with blk [of "200 + k"] cell [of "200 + k"] show ?thesis by (simp add: untouched_def module_file_fields add.assoc del: layout_end.simps)
  qed
  moreover have "\<not> in_block 0x100000 4 (0x200040 + k)" if "k < sizeof_Shdr" for k
  proof -
    have "unat (64 + k) = 64 + unat k" using that by (subst unat_add_small) (simp_all add: sizeof_Shdr_def word_less_nat_alt)
    then have "64 + k < 0x1000" using that by (simp add: sizeof_Shdr_def word_less_nat_alt)
    with blk [of "64 + k"] show ?thesis by simp
  qed
  ultimately show ?thesis
    by (simp add: module_fits_def section_fits_def module_file_fields SHF_ALLOC_def del: layout_end.simps) (simp add: section_offset_def)
qed

theorem module_sections_confined_witness:
  "\<exists>m'. place_sections 0x200000 0x200000 0x100000 0x200040 module_machine = Some (Next 4 (module_machine\<lparr>ram := m'\<rparr>)) \<and>
    m' 0x100003 = 0xDD"
proof -
  have r: "ram module_machine = module_file" by (simp add: module_machine_def)
  have f: "l_ehdr module_frame = 0x200000" "l_shdrs module_frame = 0x200040" by (simp_all add: module_frame_def)
  obtain m' where m: "place_sections 0x200000 0x200000 0x100000 0x200040 module_machine = Some (Next 4 (module_machine\<lparr>ram := m'\<rparr>))"
    "sections_placed module_file 0x200000 0x200040 0x100000 (Suc 0) m'"
    using module_sections_confined [OF module_file_fits [folded r] f] unfolding r module_file_fields by blast
  then have "\<forall>k < 4. m' (0x100000 + k) = section_byte module_file 0x200000 0x200040 0 k"
    by (simp add: sections_placed_def module_file_fields SHF_ALLOC_def)
  from this [rule_format, of 3] have "m' 0x100003 = section_byte module_file 0x200000 0x200040 0 3" by simp
  also have "\<dots> = 0xDD" by (simp add: section_byte_def module_file_fields SHT_NOBITS_def)
  finally show ?thesis using m(1) by blast
qed

end
