(* ===== verification/Boot.thy ===== *)
theory Boot
  imports Cmdline Interrupts Partition ModLoader
begin

text \<open>
  The kernel as a whole, \<open>main.c\<close>: the order in which \<open>_start\<close> brings the parts up, what
  it hands from one to the next, and what is left when it reaches its idle loop. The boot
  loader's answers, the addresses the linker chose and the places of local arrays are the
  fields of \<open>boot_info\<close>; the code of loaded modules is the parameter \<open>run\<close>.
\<close>


subsection \<open>State and parameters\<close>

record kernel = arch +
  cmd :: cmdline

record boot_info =
  fb_response :: "(u64 \<times> u64 \<times> u64 \<times> u64 \<times> u16) list option"
  cmdline_response :: "cstring option option"
  memmap_response :: "memmap_entry list option"
  hhdm_response :: "u64 option"
  module_response :: "u64 list option"  \<comment> \<open>the addresses of the modules\<close>
  kernel_start_addr :: u64
  kernel_end_addr :: u64
  entry_stubs :: stubs
  idt_place :: u64
  tss_place :: u64
  stack_place :: u64
  gdt_place :: u64
  ext2_type_place :: u64
  sector_buf :: u64
  gpt_buf :: u64
  ext2_buf :: u64
  ksymtab :: "kernel_symbol list"

definition set_interrupts :: "bool \<Rightarrow> 'a machine_scheme \<Rightarrow> 'a machine_scheme" where
  \<comment> \<open>\<open>sti\<close> and \<open>cli\<close>\<close>
  "set_interrupts b s = s\<lparr>con := (con s)\<lparr>interrupts := b\<rparr>\<rparr>"

text \<open>
  \<open>kthread_exit\<close> begins with \<open>cli\<close>. The interrupt flag is a part of the machine and not of
  the scheduler's state, so the instruction is added here.
\<close>

definition kthread_exit_cli :: "'a machine_scheme \<Rightarrow> 'a machine_scheme option" where
  "kthread_exit_cli s = kthread_exit (set_interrupts False s)"

lemma push_con: "con (push v s) = con s" "con (fold push vs s) = con s" for s :: "'a machine_scheme"
proof -
  show p: "con (push v s) = con s" for v and s :: "'a machine_scheme" by (simp add: push_def Let_def)
  show "con (fold push vs s) = con s" by (induction vs arbitrary: s) (simp_all add: p)
qed

lemma pop_con: "con (snd (pop_word s)) = con s" "con (snd (pop_regs n s)) = con s" for s :: "'a machine_scheme"
proof -
  show p: "con (snd (pop_word s)) = con s" for s :: "'a machine_scheme" by (simp add: pop_word_def)
  show "con (snd (pop_regs n s)) = con s" by (induction n arbitrary: s) (simp_all add: p Let_def case_prod_unfold)
qed

lemma schedule_con: "schedule s = Some s' \<Longrightarrow> con s' = con s" for s :: "'a machine_scheme"
  by (auto simp: schedule_def context_switch_def Let_def case_prod_unfold push_con pop_con
      split: if_splits bind_splits)

lemma kthread_exit_no_interrupts: "kthread_exit_cli s = Some s' \<Longrightarrow> con s' = (con s)\<lparr>interrupts := False\<rparr>"
  by (auto simp: kthread_exit_cli_def kthread_exit_def set_interrupts_def
      dest!: schedule_con split: bind_splits if_splits)


subsection \<open>The first part: devices and memory\<close>

text \<open>\<open>read_boot_cmdline\<close> with its messages.\<close>

definition read_options :: "boot_info \<Rightarrow> 'a kernel_scheme \<Rightarrow> 'a kernel_scheme option" where
  "read_options bi s = do {
     s1 \<leftarrow> (case cmdline_response bi of
        None \<Rightarrow> kprintf ''Cmdline requests not supported in this Limine version - or incorrectly processed.\<newline>'' 0xFF0000 [] s
      | Some None \<Rightarrow> Some s
      | Some (Some c) \<Rightarrow> kprintf ''Boot options: %s\<newline>'' 0xFFFFFF [AStr c] s);
     Some (s1\<lparr>cmd := read_boot_cmdline (cmdline_response bi) (cmd s1)\<rparr>) }"

definition init_devices :: "boot_info \<Rightarrow> 'a kernel_scheme \<Rightarrow> 'a kernel_scheme option" where
  "init_devices bi s = do {
     let s1 = remap_pic 32 40 (set_interrupts False s);
     let s2 = init_gdt (tss_place bi) (stack_place bi) (gdt_place bi) s1;
     let s3 = init_idt (entry_stubs bi) (idt_place bi) s2;
     c \<leftarrow> init_fb (fb_response bi) (con s3);
     s4 \<leftarrow> read_options bi (s3\<lparr>con := clear 0x000000 c\<rparr>);
     s5 \<leftarrow> pit_init 100 s4;
     let s6 = snd (inb 0x60 s5);
     Some (outb 0x21 0xFC s6) }"

definition init_memory :: "boot_info \<Rightarrow> 'a kernel_scheme \<Rightarrow> 'a kernel_scheme option" where
  "init_memory bi s = do {
     s1 \<leftarrow> init_pmm (memmap_response bi) (hhdm_response bi) (kernel_start_addr bi) (kernel_end_addr bi) s;
     s2 \<leftarrow> init_vmm s1;
     s3 \<leftarrow> init_heap s2;
     kprintf ''\<newline>'' 0x000000 [] (set_interrupts True (init_scheduler s3)) }"

definition early_boot :: "boot_info \<Rightarrow> 'a kernel_scheme \<Rightarrow> 'a kernel_scheme option" where
  "early_boot bi s = do { s1 \<leftarrow> init_devices bi s; init_memory bi s1 }"


subsection \<open>The second part: file systems\<close>

text \<open>Without a module the kernel halts: \<open>None\<close>.\<close>

definition mount_filesystems :: "boot_info \<Rightarrow> 'a kernel_scheme \<Rightarrow> 'a kernel_scheme option" where
  "mount_filesystems bi s = do {
     (devfs_root_node, s1) \<leftarrow> init_devfs s;
     case module_response bi of
       Some (ramfs_file # _) \<Rightarrow> do {
         s2 \<leftarrow> say (debug (cmd s1)) ''VFS: Booting from Initramfs...\<newline>'' 0x00FFCC [] s1;
         (root, s3) \<leftarrow> init_initramfs ramfs_file s2;
         (fb_node, s4) \<leftarrow> fb_create_vfs_node (s3\<lparr>fs_root := root\<rparr>);
         let s5 = devfs_register fb_node s4;
         dev_mountpoint \<leftarrow> vfs_get_node_by_path (Some (str ''/dev'')) s5;
         if dev_mountpoint \<noteq> 0 then do {
           s6 \<leftarrow> init_fds (vfs_mount dev_mountpoint devfs_root_node s5);
           kprintf ''VFS: DevFS mounted to /dev successfully.\<newline>'' 0x00FF00 [] s6 }
         else kprintf ''VFS: Could not find /dev in Initramfs!\<newline>'' 0xFF0000 [] s5 }
     | _ \<Rightarrow> None }"


subsection \<open>The third part: storage and modules\<close>

definition init_storage :: "boot_info \<Rightarrow> 'a kernel_scheme \<Rightarrow> 'a kernel_scheme option" where
  "init_storage bi s = do {
     s1 \<leftarrow> init_block_subsystem s;
     s2 \<leftarrow> ata_init s1;
     ext2_init (ext2_type_place bi) s2 }"

definition banner :: "'a kernel_scheme \<Rightarrow> 'a kernel_scheme option" where
  "banner s = do {
     s1 \<leftarrow> kprintf ''\<newline>Welcome to Miyabi '' 0xFFFFFF [] s;
     s2 \<leftarrow> kprintf ''0.1\<newline>'' 0xFFFFFF [] s1;
     s3 \<leftarrow> kprintf ''Copyright (c) 2026 Luna Delanuit and contributers, '' 0xCC00DD [] s2;
     kprintf ''GNU General Public License v3.0-or-later.\<newline>\<newline>'' 0xFF2200 [] s3 }"

text \<open>\<open>boot_module_count\<close> is asked again before every round.\<close>

function load_boot_modules ::
  "boot_info \<Rightarrow> (u64 \<Rightarrow> 'a kernel_scheme \<Rightarrow> 'a kernel_scheme option) \<Rightarrow> u64 \<Rightarrow> 'a kernel_scheme \<Rightarrow> 'a kernel_scheme option" where
  "load_boot_modules bi run i s =
     (if i < boot_modules_count (cmd s) then do {
        (_, s1) \<leftarrow> load_module_from_file (debug (cmd s)) (ksymtab bi) run (boot_module_path i (cmd s)) s;
        load_boot_modules bi run (i + 1) s1 }
      else Some s)"
  by pat_completeness auto

termination
proof (relation "measure (\<lambda>(bi, run, i, s). 2 ^ 64 - unat i)")
  fix bi run and i :: u64 and s :: "'a kernel_scheme" and r m s1
  assume "i < boot_modules_count (cmd s)"
  then have "unat (i + 1) = unat i + 1" by (simp add: less_inc_le)
  then show "((bi, run, i + 1, s1), (bi, run, i, s)) \<in> measure (\<lambda>(bi, run, i, s). 2 ^ 64 - unat i)"
    using unat_u64 [of i] by simp
qed simp

declare load_boot_modules.simps [simp del]

definition mount_disks :: "boot_info \<Rightarrow> 'a kernel_scheme \<Rightarrow> 'a kernel_scheme option" where
  "mount_disks bi s = do {
     (ok, s1) \<leftarrow> ata_read_sector28 0 (sector_buf bi) s;
     s2 \<leftarrow> (if ok then do {
              let magic = load16 (ram s1) (sector_buf bi + 510);
              s2 \<leftarrow> kprintf ''Sector 0 Boot Signature: 0x%x\<newline>'' 0x00FFFF [AInt (ucast magic)] s1;
              mbr_parse (gpt_buf bi) (sector_buf bi) s2 }
            else Some s1);
     ext2 \<leftarrow> vfs_find_filesystem (Some (str ''ext2'')) s2;
     if ext2 \<noteq> 0 then
       case get_block_device (str ''sda1'') s2 of
         None \<Rightarrow> Some s2
       | Some sda1 \<Rightarrow> (case fs_mount (fs_types s2 ext2) of
           EXT2_MOUNT \<Rightarrow> map_option snd (ext2_mount (ext2_buf bi) (Some sda1) s2))
     else Some s2 }"

text \<open>\<open>_start\<close> up to its idle loop; \<open>None\<close> where the kernel halts before.\<close>

definition start_kernel ::
  "boot_info \<Rightarrow> (u64 \<Rightarrow> 'a kernel_scheme \<Rightarrow> 'a kernel_scheme option) \<Rightarrow> 'a kernel_scheme \<Rightarrow> 'a kernel_scheme option" where
  "start_kernel bi run s = do {
     s1 \<leftarrow> early_boot bi s;
     s2 \<leftarrow> mount_filesystems bi s1;
     s3 \<leftarrow> init_storage bi s2;
     s4 \<leftarrow> banner s3;
     s5 \<leftarrow> load_boot_modules bi run 0 s4;
     s6 \<leftarrow> mount_disks bi s5;
     say (debug (cmd s6)) ''Reached end of kernel.\<newline>'' 0xFF00FF [] s6 }"


subsection \<open>Code that is not reached\<close>

text \<open>
  The start of a user program, which \<open>goto kend\<close> skips. The result is the state and, if the
  program was loaded, the frame \<open>switch_to_user_space\<close> of \<open>user.asm\<close> leaves for \<open>iretq\<close>:
  SS, RSP, RFLAGS, CS, RIP in the order they are pushed.
\<close>

definition switch_to_user_space :: "u64 \<Rightarrow> u64 \<Rightarrow> u64 \<Rightarrow> u64 list" where
  "switch_to_user_space user_stack user_func flags_reg = [0x1B, user_stack, flags_reg OR 0x200, 0x23, user_func]"

definition enter_program :: "u64 \<Rightarrow> u64 \<Rightarrow> u64 \<Rightarrow> u64 \<Rightarrow> 'a kernel_scheme \<Rightarrow> (u64 list \<times> 'a kernel_scheme) option" where
  "enter_program flags_reg kernel_pml4_phys user_pml4_phys entry_point s =
     (let (stack_phys, s1) = pmm_alloc s; user_stack_virtual = 0x7FFFFFFF0000 in do {
        s2 \<leftarrow> vmm_map_page user_stack_virtual stack_phys (PTE_PRESENT OR PTE_USER OR PTE_WRITE) s1;
        let stack_virt = phys_to_virt s2 stack_phys;
        let s3 = s2\<lparr>ram := for_up 0 4096 (\<lambda>i m. m(stack_virt + i := 0)) (ram s2)\<rparr>;
        let s4 = vmm_switch_pml4 kernel_pml4_phys s3;
        s5 \<leftarrow> say (debug (cmd s4)) ''Entering user space...\<newline>'' 0xAAAAFF [] s4;
        Some (switch_to_user_space (user_stack_virtual + 3072) entry_point flags_reg, vmm_switch_pml4 user_pml4_phys s5) })"

definition run_test_program :: "u64 \<Rightarrow> 'a kernel_scheme \<Rightarrow> (u64 list option \<times> 'a kernel_scheme) option" where
  "run_test_program flags_reg s = do {
     (test_node, s1) \<leftarrow> vfs_open (Some (str ''/test'')) VFS_FLAG_READ s;
     if test_node = 0 then map_option (Pair None) (kprintf ''/test does not exist.\<newline>'' 0xFF0000 [] s1)
     else do {
       let file_size = ucast (flen (nodes s1 test_node));
       (elf_buffer, s2) \<leftarrow> kmalloc file_size s1;
       (_, s3) \<leftarrow> vfs_read test_node elf_buffer file_size 0 s2;
       s4 \<leftarrow> vfs_close test_node s3;
       let (user_pml4_phys, s5) = vmm_create_user_pml4 s4;
       if user_pml4_phys = 0 then None
       else do {
         let kernel_pml4_phys = cr3 s5;
         (entry_point, s6) \<leftarrow> elf_load (debug (cmd s5)) elf_buffer user_pml4_phys (vmm_switch_pml4 user_pml4_phys s5);
         if entry_point = 0 then Some (None, s6)
         else map_option (\<lambda>(f, s7). (Some f, s7)) (enter_program flags_reg kernel_pml4_phys user_pml4_phys entry_point s6) } } }"

text \<open>\<open>test_block_abstraction\<close>, called from nowhere; \<open>part_buf\<close> is its second array.\<close>

definition test_block_abstraction :: "boot_info \<Rightarrow> u64 \<Rightarrow> 'a kernel_scheme \<Rightarrow> 'a kernel_scheme option" where
  "test_block_abstraction bi part_buf s =
     (case get_block_device (str ''sda'') s of
        None \<Rightarrow> kprintf ''TEST: Failed to locate 'sda' device!\<newline>'' 0xFF0000 [] s
      | Some sda \<Rightarrow> do {
          (ok, s1) \<leftarrow> block_read (Some sda) 0 1 (sector_buf bi) s;
          if \<not> ok then kprintf ''TEST: Failed to read sector 0 from 'sda'\<newline>'' 0xFF0000 [] s1
          else do {
            s2 \<leftarrow> kprintf ''TEST: Successfully read sector 0 from 'sda'\<newline>'' 0x00FF00 [] s1;
            s3 \<leftarrow> mbr_parse (gpt_buf bi) (sector_buf bi) s2;
            case get_block_device (str ''sda1'') s3 of
              None \<Rightarrow> kprintf ''TEST: Failed to locate 'sda1' partition device!\<newline>'' 0xFF0000 [] s3
            | Some sda1 \<Rightarrow> do {
                s4 \<leftarrow> kprintf ''TEST: Successfully retrieved 'sda1'! Testing relative read...\<newline>'' 0x00FF00 [] s3;
                (ok1, s5) \<leftarrow> block_read (Some sda1) 0 1 part_buf s4;
                if ok1 then kprintf ''TEST: Successfully read relative sector 0 from 'sda1'!\<newline>'' 0x00FF00 [] s5
                else kprintf ''TEST: Relative sector read on 'sda1' failed!\<newline>'' 0xFF0000 [] s5 } } })"

end
