(* ===== verification/HeapStart.thy ===== *)
theory HeapStart
  imports KHeap
begin

text \<open>
  The heap at start-up. \<open>init_pmm\<close> leaves the pages of the allocator's bitmap free, and those
  of the boot loader, its page tables among them, so the operations on memory stay in order
  only as long as the frames handed out are none of these. \<open>pmm_alloc\<close> hands out the lowest
  frames: here the first frames are all that is used, and the other ones, from a limit on, are
  left as they are. The state restricted to the frames below the limit runs in lock step with
  the state itself.
\<close>


subsection \<open>The frames below a limit\<close>

text \<open>The limit is \<open>l\<close> bytes of the bitmap, eight frames each; frames from there on count as used.\<close>

abbreviation frame_limit :: "nat \<Rightarrow> nat" where "frame_limit l \<equiv> l * 8 * 4096"

definition first_bytes :: "nat \<Rightarrow> (u64 \<Rightarrow> u8) \<Rightarrow> (u64 \<Rightarrow> u8) \<Rightarrow> u64 \<Rightarrow> u8" where
  "first_bytes l bm rest i = (if unat i < l then bm i else rest i)"

definition below :: "nat \<Rightarrow> 'a pmm_scheme \<Rightarrow> 'a pmm_scheme" where
  "below l s = s\<lparr>bitmap := first_bytes l (bitmap s) (\<lambda>_. 0xFF)\<rparr>"

text \<open>The frames of the bitmap itself.\<close>

definition bitmap_area :: "'a pmm_scheme \<Rightarrow> u64 set" where
  "bitmap_area s = {f. unat (bitmap_phys s) \<le> unat f \<and> unat f < unat (bitmap_phys s) + unat (bitmap_pages s) * 4096}"

definition byte_of :: "(nat \<Rightarrow> bool) \<Rightarrow> u8" where
  "byte_of P = fold (\<lambda>k b. if P k then set_bit k b else b) [0..<8] 0"

text \<open>Here the frames from the limit on count as used but for those of the bitmap.\<close>

definition below_or_bitmap :: "nat \<Rightarrow> 'a pmm_scheme \<Rightarrow> 'a pmm_scheme" where
  "below_or_bitmap l s = s\<lparr>bitmap := first_bytes l (bitmap s)
     (\<lambda>i. byte_of (\<lambda>k. (i * 8 + of_nat k) * 4096 \<notin> bitmap_area s))\<rparr>"

lemma bit_set_bits:
  "bit (fold (\<lambda>k b. if P k then set_bit k b else b) ks b) n \<longleftrightarrow> bit (b :: u8) n \<or> n < 8 \<and> n \<in> set ks \<and> P n"
  by (induction ks arbitrary: b) (auto simp: bit_set_bit_iff dest: bit_imp_le_length)

lemma bit_byte_of: "bit (byte_of P) n \<longleftrightarrow> n < 8 \<and> P n"
  by (auto simp: byte_of_def bit_set_bits)

lemma page_byte: "unat (drop_bit 3 p :: u64) = unat p div 8"
  by (simp add: drop_bit_eq_div unat_div)

lemma page_parts: "drop_bit 3 p * 8 + of_nat (unat p mod 8) = (p :: u64)"
proof -
  have "unat p div 8 * 8 + unat p mod 8 = unat p" by simp
  then have "of_nat (unat (drop_bit 3 p)) * 8 + of_nat (unat p mod 8) = (of_nat (unat p) :: u64)"
    unfolding page_byte by (metis of_nat_add of_nat_mult of_nat_numeral)
  then show ?thesis by simp
qed

lemma test_below: "bitmap_test (bitmap (below l s)) p \<longleftrightarrow> bitmap_test (bitmap s) p \<or> l * 8 \<le> unat p"
proof -
  have "unat (drop_bit 3 p) < l \<longleftrightarrow> unat p < l * 8" unfolding page_byte by (simp add: div_less_iff_less_mult)
  moreover have "bit (0xFF :: u8) (unat p mod 8)"
  proof -
    have m: "(0xFF :: u8) = mask 8" by (simp add: mask_eq_exp_minus_1)
    show ?thesis unfolding m bit_mask_iff by simp
  qed
  ultimately show ?thesis by (auto simp: bitmap_test_bit below_def first_bytes_def)
qed

lemma test_below_or_bitmap:
  "bitmap_test (bitmap (below_or_bitmap l s)) p \<longleftrightarrow>
     (if unat p < l * 8 then bitmap_test (bitmap s) p else p * 4096 \<notin> bitmap_area s)"
proof -
  have "unat (drop_bit 3 p) < l \<longleftrightarrow> unat p < l * 8" unfolding page_byte by (simp add: div_less_iff_less_mult)
  moreover have "unat p mod 8 < 8" by simp
  ultimately show ?thesis unfolding bitmap_test_bit
    by (simp add: below_or_bitmap_def first_bytes_def bit_byte_of page_parts del: distrib_right_numeral distrib_left_numeral ring_distribs)
qed

lemma page_free_below: "page_free (below l s) p \<longleftrightarrow> page_free s p \<and> unat p < l * 8"
  unfolding page_free_def test_below by (auto simp: below_def)

lemma page_free_below_or_bitmap:
  "page_free (below_or_bitmap l s) p \<longleftrightarrow> 0 < p \<and> p < page_count s \<and>
     (if unat p < l * 8 then \<not> bitmap_test (bitmap s) p else p * 4096 \<in> bitmap_area s)"
  unfolding page_free_def test_below_or_bitmap by (auto simp: below_or_bitmap_def)

lemma below_fields [simp]:
  "page_count (below l s) = page_count s" "bitmap_phys (below l s) = bitmap_phys s" "hhdm_offset (below l s) = hhdm_offset s"
  "bitmap_pages (below l s) = bitmap_pages s" "pmm.more (below l s) = pmm.more s"
  "page_count (below_or_bitmap l s) = page_count s" "bitmap_phys (below_or_bitmap l s) = bitmap_phys s"
  "hhdm_offset (below_or_bitmap l s) = hhdm_offset s" "bitmap_pages (below_or_bitmap l s) = bitmap_pages s"
  "pmm.more (below_or_bitmap l s) = pmm.more s"
  by (simp_all add: below_def below_or_bitmap_def)

lemma below_vmm [simp]:
  fixes s :: "'a heap_scheme"
  shows "ptes (below l s) = ptes s" "pml4 (below l s) = pml4 s" "cr3 (below l s) = cr3 s" "head (below l s) = head s"
    "heap_end (below l s) = heap_end s" "hdrs (below l s) = hdrs s" "heap.more (below l s) = heap.more s"
    "ptes (below_or_bitmap l s) = ptes s" "pml4 (below_or_bitmap l s) = pml4 s" "head (below_or_bitmap l s) = head s"
    "heap_end (below_or_bitmap l s) = heap_end s" "hdrs (below_or_bitmap l s) = hdrs s"
  by (simp_all add: below_def below_or_bitmap_def)

lemma below_wf [simp]: "pmm_wf (below l s) = pmm_wf s" "pmm_wf (below_or_bitmap l s) = pmm_wf s"
  by (simp_all add: pmm_wf_def)

lemma below_ptes: "below l (s\<lparr>ptes := x\<rparr>) = (below l s)\<lparr>ptes := x\<rparr>" "ptes (below l (s :: 'a vmm_scheme)) = ptes s"
  by (cases s, simp add: below_def)+

lemma below_heap_upd:
  "below l (s\<lparr>heap_end := e\<rparr>) = (below l s)\<lparr>heap_end := e\<rparr>" "below l (s\<lparr>hdrs := h\<rparr>) = (below l s)\<lparr>hdrs := h\<rparr>"
  "below l (s\<lparr>head := a\<rparr>) = (below l s)\<lparr>head := a\<rparr>"
  by (cases s, simp add: below_def)+

lemmas below_upd = below_ptes below_heap_upd

text \<open>As sets of frames.\<close>

lemma free_frames_below:
  assumes "pmm_wf s"
  shows "free_frames (below l s) = {f \<in> free_frames s. unat f < frame_limit l}"
proof -
  have "unat (i * 4096) < frame_limit l \<longleftrightarrow> unat i < l * 8" if "page_free s i" for i
    using page_free_bound [OF assms that] by (simp add: unat_frame_addr mult.commute)
  then show ?thesis by (auto simp: free_frames_def page_free_below)
qed


subsection \<open>Running below the limit\<close>

text \<open>\<open>t'\<close> is \<open>t\<close> below the limit, and from the limit on \<open>t\<close> is as \<open>s\<close>.\<close>

definition lifts :: "nat \<Rightarrow> 'a pmm_scheme \<Rightarrow> 'a pmm_scheme \<Rightarrow> 'a pmm_scheme \<Rightarrow> bool" where
  "lifts l s t' t \<longleftrightarrow> t' = below l t \<and> (\<forall>i. l \<le> unat i \<longrightarrow> bitmap t i = bitmap s i) \<and>
     bitmap_phys t = bitmap_phys s \<and> bitmap_pages t = bitmap_pages s \<and>
     page_count t = page_count s \<and> hhdm_offset t = hhdm_offset s"

lemma lifts_refl: "lifts l s (below l s) s"
  by (simp add: lifts_def)

lemma lifts_trans: "lifts l s t' t \<Longrightarrow> lifts l t u' u \<Longrightarrow> lifts l s u' u"
  by (simp add: lifts_def)

lemma lifts_below: "lifts l s t' t \<Longrightarrow> t' = below l t"
  by (simp add: lifts_def)

lemma pmm_alloc_lifts:
  assumes "pmm_alloc (below l s) = (p, t')" "p \<noteq> 0"
  shows "\<exists>t. pmm_alloc s = (p, t) \<and> lifts l s t' t"
proof (cases "below l s" rule: pmm_alloc_cases)
  case (page i)
  have i: "page_free s i" "unat i < l * 8" using page(1) by (simp_all add: page_free_below)
  have low: "i \<le> j" if "page_free s j" for j
  proof (rule ccontr)
    assume n: "\<not> i \<le> j"
    then have "unat j < l * 8" using i(2) by (simp add: word_less_nat_alt word_le_nat_alt)
    with page(2) [of j] that n show False by (simp add: page_free_below)
  qed
  have p: "p = i * 4096" "t' = (below l s)\<lparr>bitmap := bitmap_set (bitmap (below l s)) i\<rparr>" using page(3) assms(1) by simp_all
  have k: "unat (drop_bit 3 i) < l" using i(2) unfolding page_byte by (simp add: div_less_iff_less_mult)
  define t where "t = s\<lparr>bitmap := bitmap_set (bitmap s) i\<rparr>"
  have "pmm_alloc s = (p, t)"
  proof (cases s rule: pmm_alloc_cases)
    case (page j)
    with low [of j] i(1) have "j = i" by (meson order_antisym)
    with page(3) show ?thesis by (simp add: p(1) t_def)
  qed (use i(1) in blast)
  moreover have "t' = below l t"
    using k by (auto simp: p(2) t_def below_def first_bytes_def bitmap_set_def fun_eq_iff)
  moreover have "bitmap t j = bitmap s j" if "l \<le> unat j" for j using k that by (auto simp: t_def bitmap_set_def)
  ultimately show ?thesis by (auto simp: lifts_def t_def)
next
  case full
  with assms show ?thesis by simp
qed

lemma alloc_page_table_lifts:
  fixes s :: "'a vmm_scheme"
  assumes "alloc_page_table (below l s) = Some (p, t')"
  shows "\<exists>t. alloc_page_table s = Some (p, t) \<and> lifts l s t' t"
proof -
  obtain q u' where a: "pmm_alloc (below l s) = (q, u')" by force
  with assms have q: "q = p" "p \<noteq> 0" "t' = u'\<lparr>ptes := for_up 0 512 (\<lambda>i m. m(slot (phys_to_virt u' p) i := 0)) (ptes u')\<rparr>"
    by (auto simp: alloc_page_table_def Let_def split: if_splits)
  from pmm_alloc_lifts [OF a] q obtain u where u: "pmm_alloc s = (p, u)" "lifts l s u' u" by auto
  then show ?thesis using q(2,3)
    by (auto simp: alloc_page_table_def Let_def lifts_def below_upd phys_to_virt_def)
qed

lemma ensure_table_lifts:
  fixes s :: "'a vmm_scheme"
  assumes "ensure_table a i (below l s) = Some (p, t')"
  shows "\<exists>t. ensure_table a i s = Some (p, t) \<and> lifts l s t' t"
proof (cases "ptes s (slot a i) AND PTE_PRESENT = 0")
  case True
  have e: "ptes (below l s) = ptes s" by (simp add: below_def)
  from assms True obtain n u' where u: "alloc_page_table (below l s) = Some (n, u')"
    by (auto simp: ensure_table_def e bind_eq_Some_conv)
  from alloc_page_table_lifts [OF this] obtain v where v: "alloc_page_table s = Some (n, v)" "lifts l s u' v" by blast
  show ?thesis using assms True u v by (auto simp: ensure_table_def e lifts_def Let_def below_upd phys_to_virt_def)
next
  case False
  have e: "ptes (below l s) = ptes s" by (simp add: below_def)
  show ?thesis using assms False by (auto simp: ensure_table_def e lifts_def Let_def below_upd phys_to_virt_def)
qed

lemma vmm_map_page_lifts:
  fixes s :: "'a vmm_scheme"
  assumes "vmm_map_page v p f (below l s) = Some t'"
  shows "\<exists>t. vmm_map_page v p f s = Some t \<and> lifts l s t' t"
proof -
  have m: "pml4 (below l s) = pml4 s" by (simp add: below_def)
  from assms obtain a s1' b s2' c s3' where
    w: "ensure_table (pml4 s) (pml4i v) (below l s) = Some (a, s1')" "ensure_table a (pdpti v) s1' = Some (b, s2')"
      "ensure_table b (pdi v) s2' = Some (c, s3')"
      "t' = s3'\<lparr>ptes := (ptes s3')(slot c (pti v) := page_base p OR f OR PTE_PRESENT)\<rparr>"
    by (auto simp: vmm_map_page_def bind_eq_Some_conv m)
  from ensure_table_lifts [OF w(1)] obtain s1 where s1: "ensure_table (pml4 s) (pml4i v) s = Some (a, s1)" "lifts l s s1' s1" by blast
  from w(2) [unfolded lifts_below [OF s1(2)]] obtain s2 where s2: "ensure_table a (pdpti v) s1 = Some (b, s2)" "lifts l s1 s2' s2"
    using ensure_table_lifts by blast
  from w(3) [unfolded lifts_below [OF s2(2)]] obtain s3 where s3: "ensure_table b (pdi v) s2 = Some (c, s3)" "lifts l s2 s3' s3"
    using ensure_table_lifts by blast
  have "lifts l s s3' s3" using s1(2) s2(2) s3(2) lifts_trans by blast
  then show ?thesis using s1(1) s2(1) s3(1) w(4) by (auto simp: vmm_map_page_def lifts_def below_upd)
qed

lemma expand_page_lifts:
  fixes s :: "'a heap_scheme"
  assumes "expand_page (below l s) = Some t'"
  shows "\<exists>t. expand_page s = Some t \<and> lifts l s t' t"
proof -
  obtain p u' where a: "pmm_alloc (below l s) = (p, u')" by force
  with assms obtain w' where p: "p \<noteq> 0" and w: "vmm_map_page (heap_end u') p HEAP_PAGE_FLAGS u' = Some w'"
    and t': "t' = w'\<lparr>heap_end := heap_end w' + PAGE_SIZE\<rparr>"
    by (auto simp: expand_page_def bind_eq_Some_conv split: if_splits)
  from pmm_alloc_lifts [OF a p] obtain u where u: "pmm_alloc s = (p, u)" "lifts l s u' u" by blast
  from w [unfolded lifts_below [OF u(2)]] obtain x where x: "vmm_map_page (heap_end u) p HEAP_PAGE_FLAGS u = Some x" "lifts l u w' x"
    using vmm_map_page_lifts by (metis below_vmm(5))
  show ?thesis using u(1) p x(1) t' lifts_trans [OF u(2) x(2)]
    by (auto simp: expand_page_def lifts_def below_upd)
qed

lemma for_opt_lifts:
  assumes step: "\<And>s t'. f (below l s) = Some t' \<Longrightarrow> \<exists>t. f s = Some t \<and> lifts l s t' t"
  shows "for_opt i n (\<lambda>_. f) (below l s) = Some t' \<Longrightarrow> \<exists>t. for_opt i n (\<lambda>_. f) s = Some t \<and> lifts l s t' t"
proof (induction "unat n - unat i" arbitrary: i s)
  case 0
  then have "n \<le> i" by (simp add: word_le_nat_alt)
  with 0 lifts_refl show ?case by auto
next
  case (Suc k)
  then have lt: "i < n" by (simp add: word_less_nat_alt)
  from Suc.prems obtain u' where u: "f (below l s) = Some u'" "for_opt (i + 1) n (\<lambda>_. f) u' = Some t'"
    unfolding for_opt_step [OF lt] by (auto simp: bind_eq_Some_conv)
  from step [OF u(1)] obtain w where w: "f s = Some w" "lifts l s u' w" by blast
  have "unat (i + 1) = unat i + 1" using lt by (simp add: less_inc_le)
  then have "k = unat n - unat (i + 1)" using Suc.hyps(2) by simp
  from Suc.hyps(1) [OF this u(2) [unfolded lifts_below [OF w(2)]]] obtain t where
    "for_opt (i + 1) n (\<lambda>_. f) w = Some t" "lifts l w t' t" by blast
  with w show ?case unfolding for_opt_step [OF lt] by (auto intro: lifts_trans)
qed

lemma init_heap_lifts:
  fixes s :: "'a heap_scheme"
  assumes "init_heap (below l s) = Some t'"
  shows "\<exists>t. init_heap s = Some t \<and> lifts l s t' t"
proof -
  let ?n = "align_up HEAP_INITIAL_SIZE PAGE_SIZE"
  from assms obtain u' where u: "for_opt 0 (?n div PAGE_SIZE) (\<lambda>_. expand_page) (below l s) = Some u'"
    and t': "t' = u'\<lparr>hdrs := (hdrs u')(heap_end s := \<lparr>bsize = ?n - sizeof_heap_block, is_free = True, nxt = 0\<rparr>), head := heap_end s\<rparr>"
    by (auto simp: init_heap_def heap_expand_def Let_def bind_eq_Some_conv)
  from for_opt_lifts [OF expand_page_lifts u] obtain w where
    "for_opt 0 (?n div PAGE_SIZE) (\<lambda>_. expand_page) s = Some w" "lifts l s u' w" by blast
  then show ?thesis by (auto simp: init_heap_def heap_expand_def Let_def t' lifts_def below_upd)
qed

subsection \<open>The heap on the first frames\<close>

lemma walk_cong:
  fixes s :: "'a vmm_scheme" and s' :: "'b vmm_scheme"
  assumes "ptes s' = ptes s" "pml4 s' = pml4 s" "hhdm_offset s' = hhdm_offset s"
  shows "tab s' q = tab s q" "mapping s' v = mapping s v" "path_4k s' v = path_4k s v"
proof -
  have n: "next_table s' t i = next_table s t i" for t i by (rule next_table_cong) (simp_all add: assms)
  have "table_at s' t q = table_at s t q" for t q
    by (induction q arbitrary: t) (simp_all add: n cong: bind_option_cong)
  then have tabs: "tab s' q = tab s q" for q by (simp add: tab_def assms)
  then show "tab s' q = tab s q" by simp
  show "mapping s' v = mapping s v" "path_4k s' v = path_4k s v"
    by (simp_all add: mapping_def path_4k_def huge_at_def tabs assms)
qed

text \<open>Every page of the heap is mapped writable to a used frame of its own, one of \<open>F\<close>.\<close>

definition heap_on_frames :: "u64 set \<Rightarrow> 'a heap_scheme \<Rightarrow> bool" where
  "heap_on_frames F s \<longleftrightarrow> HEAP_START \<le> heap_end s \<and>
     (\<forall>v. HEAP_START \<le> v \<longrightarrow> v < heap_end s \<longrightarrow>
        (\<exists>f \<in> F. mapping s v = Some (f OR HEAP_PAGE_FLAGS) \<and> page_aligned f \<and> f \<noteq> 0 \<and> f \<notin> free_frames s)) \<and>
     (\<forall>v w. HEAP_START \<le> v \<longrightarrow> v < heap_end s \<longrightarrow> HEAP_START \<le> w \<longrightarrow> w < heap_end s \<longrightarrow>
        mapping s v = mapping s w \<longrightarrow> page_base v = page_base w)"

definition tables_avoid :: "u64 set \<Rightarrow> 'a vmm_scheme \<Rightarrow> bool" where
  "tables_avoid F s \<longleftrightarrow> (\<forall>p t. valid_path p \<longrightarrow> tab s p = Some t \<longrightarrow> t - hhdm_offset s \<notin> F)"

lemma page_aligned_diff:
  assumes "page_aligned x" "page_aligned y"
  shows "page_aligned (x - y)"
proof -
  obtain a b where a: "unat x = 4096 * a" and b: "unat y = 4096 * b"
    using assms by (auto simp: page_aligned_def mod_eq_0_iff_dvd elim!: dvdE)
  have "unat (x - y) = (if unat y \<le> unat x then unat x - unat y else unat x + 2 ^ 64 - unat y)"
    by (simp add: unat_sub_if' word_le_nat_alt)
  moreover have "4096 * a + 2 ^ 64 - 4096 * b = 4096 * (a + 2 ^ 52 - b)" by (simp add: diff_mult_distrib2 distrib_left)
  ultimately have "unat (x - y) = 4096 * (if unat y \<le> unat x then a - b else a + 2 ^ 52 - b)"
    by (simp only: a b diff_mult_distrib2 if_distrib [of "(*) (4096 :: nat)"])
  then show ?thesis by (auto simp: page_aligned_def)
qed

text \<open>The frames behind a new heap were free before.\<close>

lemma heap_flags_inj: "page_aligned f \<Longrightarrow> page_aligned g \<Longrightarrow> f OR HEAP_PAGE_FLAGS = g OR HEAP_PAGE_FLAGS \<Longrightarrow> f = g"
  using heap_flags_base by metis

lemma init_heap_frames:
  fixes s :: "'a heap_scheme"
  assumes inv: "vmm_inv s" and e: "heap_end s = HEAP_START" and path: "\<And>v. HEAP_START \<le> v \<Longrightarrow> path_4k s v"
    and i: "init_heap s = Some s'"
  shows "\<forall>v. HEAP_START \<le> v \<longrightarrow> v < heap_end s' \<longrightarrow> (\<exists>f \<in> free_frames s. mapping s' v = Some (f OR HEAP_PAGE_FLAGS))"
proof -
  let ?n = "align_up HEAP_INITIAL_SIZE PAGE_SIZE div PAGE_SIZE"
  have n: "unat ?n = 4096"
    using unat_page_round_up [of HEAP_INITIAL_SIZE] align_up_page [of HEAP_INITIAL_SIZE]
    by (simp add: HEAP_INITIAL_SIZE_def PAGE_SIZE_def unat_div)
  from i obtain u where u: "for_opt 0 ?n (\<lambda>_. expand_page) s = Some u"
    and s': "s' = u\<lparr>hdrs := hdrs s', head := head s'\<rparr>"
    by (auto simp: init_heap_def heap_expand_def Let_def bind_eq_Some_conv)
  have b: "heap_backed s" using inv path by (auto simp: heap_backed_def e HEAP_START_def page_aligned_def)
  define P where "P k t \<longleftrightarrow> heap_backed t \<and> unat (heap_end t) = unat HEAP_START + unat k * 4096 \<and>
    free_frames t \<subseteq> free_frames s \<and> (\<forall>v. HEAP_START \<le> v \<longrightarrow> v < heap_end t \<longrightarrow>
      (\<exists>f \<in> free_frames s. mapping t v = Some (f OR HEAP_PAGE_FLAGS)))" for k :: u64 and t :: "'a heap_scheme"
  have "P ?n u"
  proof (rule for_opt_rule [OF _ _ u])
    show "P 0 s" using b e by (auto simp: P_def)
    fix k t t'
    assume k: "k < ?n" and t: "P k t" and x: "expand_page t = Some t'"
    have k1: "unat (k + 1) = unat k + 1" using less_inc_le [OF k] by simp
    have "unat k < 4096" using k n by (simp add: word_less_nat_alt)
    then have room: "unat (heap_end t) + 4096 < 2 ^ 64" using t by (simp add: P_def) (simp add: HEAP_START_def)
    have inv: "vmm_inv t" and al: "page_aligned (heap_end t)" and hs: "HEAP_START \<le> heap_end t"
      and path: "\<And>v. HEAP_START \<le> v \<Longrightarrow> path_4k t v" using t by (auto simp: P_def heap_backed_def)
    from expand_page_mapping [OF inv path [OF hs] x room] obtain p where
      p: "p \<in> free_frames t" "free_frames t' \<subseteq> free_frames t - {p}" "unat (heap_end t') = unat (heap_end t) + 4096"
        "\<And>v. mapping t' v = (if same_page (heap_end t) v then Some (p OR HEAP_PAGE_FLAGS) else mapping t v)" by blast
    note last = last_page [OF al hs p(3)]
    have "\<exists>f \<in> free_frames s. mapping t' v = Some (f OR HEAP_PAGE_FLAGS)" if v: "HEAP_START \<le> v" "v < heap_end t'" for v
      using last(1) [OF v] p(1,4) t v(1) by (cases "v < heap_end t") (auto simp: P_def)
    then show "P (k + 1) t'"
      using expand_page_backed [OF _ x room] t p(2,3) k1 by (auto simp: P_def)
  qed simp
  moreover have "mapping s' v = mapping u v" "heap_end s' = heap_end u" for v
    by (rule walk_cong; subst s'; simp) (subst s'; simp)
  ultimately show ?thesis by (simp add: P_def)
qed

text \<open>
  When the bitmap lies in the lowest free frame, as on a machine whose first usable region has
  room for it, the first page of the heap is mapped to the bitmap.
\<close>

lemma first_heap_page_is_bitmap:
  fixes s :: "'a heap_scheme"
  assumes inv: "vmm_inv s" and path: "path_4k s HEAP_START" and e: "heap_end s = HEAP_START" and x: "expand_page s = Some s'"
    and low: "page_free s i" "\<And>j. page_free s j \<Longrightarrow> i \<le> j" "bitmap_phys s = i * 4096"
  shows "mapping s' HEAP_START = Some (bitmap_phys s OR HEAP_PAGE_FLAGS)"
proof -
  have "fst (pmm_alloc s) = bitmap_phys s"
  proof (cases s rule: pmm_alloc_cases)
    case (page j)
    with low have "j = i" by (meson order_antisym)
    with page(3) low(3) show ?thesis by simp
  qed (use low(1) in blast)
  moreover have "unat (heap_end s) + 4096 < 2 ^ 64" by (simp add: e HEAP_START_def)
  ultimately show ?thesis
    using expand_page_mapping [OF inv _ x] path by (auto simp: e same_page_def)
qed

lemma heap_on_frames_cong:
  fixes s s' :: "'a heap_scheme"
  assumes "ptes s' = ptes s" "pml4 s' = pml4 s" "hhdm_offset s' = hhdm_offset s"
    "page_count s' = page_count s" "bitmap s' = bitmap s" "heap_end s' = heap_end s"
  shows "heap_on_frames F s' = heap_on_frames F s" "tables_avoid A s' = tables_avoid A s"
proof -
  note w = walk_cong [OF assms(1-3)]
  have "free_frames s' = free_frames s" using assms(4,5) by (simp add: free_frames_def page_free_def)
  then show "heap_on_frames F s' = heap_on_frames F s" "tables_avoid A s' = tables_avoid A s"
    by (simp_all add: heap_on_frames_def tables_avoid_def w assms)
qed

lemma below_determines:
  fixes t u :: "'a pmm_scheme"
  assumes "below l u = below l t" "\<And>i. l \<le> unat i \<Longrightarrow> bitmap u i = bitmap (below_or_bitmap l t) i"
  shows "u = below_or_bitmap l t"
proof -
  have "bitmap u i = bitmap (below_or_bitmap l t) i" for i
  proof (cases "unat i < l")
    case True
    have "bitmap (below l u) i = bitmap (below l t) i" by (simp add: assms(1))
    with True show ?thesis by (simp add: below_def below_or_bitmap_def first_bytes_def)
  qed (use assms(2) in simp)
  then have "bitmap u = bitmap (below_or_bitmap l t)" by blast
  then show ?thesis using assms(1) by (cases u, cases t) (simp add: below_def below_or_bitmap_def)
qed

lemma area_below [simp]: "bitmap_area (below l s) = bitmap_area s" "bitmap_area (below_or_bitmap l s) = bitmap_area s"
  by (simp_all add: bitmap_area_def)

lemma below_below_or_bitmap: "below l (below_or_bitmap l s) = below l s"
proof -
  have "first_bytes l (first_bytes l b r) q = first_bytes l b q" for b r q by (simp add: first_bytes_def fun_eq_iff)
  then show ?thesis by (cases s) (simp add: below_def below_or_bitmap_def)
qed

lemma init_heap_apart:
  fixes s :: "'a heap_scheme"
  assumes inv: "vmm_inv (below_or_bitmap l s)" and e: "heap_end s = HEAP_START"
    and path: "\<And>v. HEAP_START \<le> v \<Longrightarrow> path_4k s v"
    and free: "4 * 4096 \<le> card {f \<in> free_frames s. unat f < frame_limit l}"
    and bm: "frame_limit l \<le> unat (bitmap_phys s)"
      "unat (bitmap_phys s) + unat (bitmap_pages s) * 4096 \<le> unat (page_count s) * 4096"
  obtains s' where "init_heap s = Some s'" "heap_inv s'" "live s' = {}"
    "heap_list s' [(unat HEAP_START, 16 * 1024 * 1024 - 24, True)]"
    "heap_on_frames {f. unat f < frame_limit l} s'" "tables_avoid (bitmap_area s) s'"
    "bitmap_phys s' = bitmap_phys s" "bitmap_pages s' = bitmap_pages s" "init_heap (below l s) = Some (below l s')"
proof -
  let ?b = "below l s" and ?v = "below_or_bitmap l s"
  have wf: "pmm_wf s" using vmm_inv_pmm [OF inv] by simp
  have wb: "tab ?v q = tab s q" "path_4k ?v x = path_4k s x" "path_4k ?b x = path_4k s x" for q x
    by (rule walk_cong; simp)+
  note fb = free_frames_below [OF wf, of l]
  have area: "\<not> unat i < l * 8" if "i < page_count s" "i * 4096 \<in> bitmap_area s" for i
  proof -
    have "unat i < 2 ^ 52" using wf that(1) by (simp add: pmm_wf_def word_less_nat_alt)
    then show ?thesis using that(2) bm(1) by (simp add: bitmap_area_def unat_frame_addr)
  qed
  have sub: "free_frames ?b \<subseteq> free_frames ?v"
    by (auto simp: free_frames_def page_free_below page_free_below_or_bitmap) (auto simp: page_free_def)
  have invb: "vmm_inv ?b" using vmm_inv_less_free [OF inv, of ?b] sub wf by simp
  have free': "4 * 4096 \<le> card (free_frames ?b)" using free by (simp only: fb)
  with sub have freev: "4 * 4096 \<le> card (free_frames ?v)"
    using card_mono [OF _ sub] by (simp add: free_frames_def)
  from init_heap_backs [OF invb _ _ free'] e path wb(3) obtain t' where
    t': "init_heap ?b = Some t'" "heap_backed t'" "heap_inv t'" "live t' = {}"
      "heap_list t' [(unat HEAP_START, 16 * 1024 * 1024 - 24, True)]" by auto
  from init_heap_lifts [OF t'(1)] obtain t where t: "init_heap s = Some t" "lifts l s t' t" by blast
  have "init_heap (below l ?v) = Some t'" using t'(1) by (simp add: below_below_or_bitmap)
  from init_heap_lifts [OF this] obtain u where u: "init_heap ?v = Some u" "lifts l ?v t' u" by blast
  have bt: "t' = below l t" "bitmap_area t = bitmap_area s" using t(2) by (simp_all add: lifts_def bitmap_area_def)
  have "u = below_or_bitmap l t"
  proof (rule below_determines)
    show "below l u = below l t" using u(2) bt(1) by (simp add: lifts_def)
    show "bitmap u i = bitmap (below_or_bitmap l t) i" if "l \<le> unat i" for i
      using u(2) that by (simp add: lifts_def below_or_bitmap_def first_bytes_def bt(2))
  qed
  moreover from init_heap_backs [OF inv _ _ freev] e path wb(2) u(1) have "heap_backed u" by auto
  ultimately have invt: "vmm_inv (below_or_bitmap l t)" by (simp add: heap_backed_def)
  have wft: "pmm_wf t" using vmm_inv_pmm [OF invt] by simp
  have pc: "page_count t = page_count s" "hhdm_offset t = hhdm_offset s"
    using t(2) by (simp_all add: lifts_def)
  show thesis
  proof (rule that [OF t(1)])
    show "heap_inv t" "live t = {}" "heap_list t [(unat HEAP_START, 16 * 1024 * 1024 - 24, True)]"
      using t'(3-5) heap_cong(1,2) [of t' t] by (simp_all add: bt(1) heap_list_def)
    show "bitmap_phys t = bitmap_phys s" "bitmap_pages t = bitmap_pages s" using t(2) by (simp_all add: lifts_def)
    show "init_heap (below l s) = Some (below l t)" using t'(1) bt(1) by simp
    have wt: "mapping t' x = mapping t x" "tab (below_or_bitmap l t) q = tab t q" for x q
      by (rule walk_cong; simp add: bt(1))+
    note ft = free_frames_below [OF wft, of l]
    have leaf: "\<exists>f \<in> {f. unat f < frame_limit l}. mapping t v = Some (f OR HEAP_PAGE_FLAGS) \<and> page_aligned f \<and> f \<noteq> 0 \<and> f \<notin> free_frames t"
      if v: "HEAP_START \<le> v" "v < heap_end t" for v
    proof -
      have v': "v < heap_end t'" using v(2) by (simp add: bt(1))
      from init_heap_frames [OF invb _ _ t'(1)] e path wb(3) v(1) v' obtain f where
        f: "f \<in> free_frames ?b" "mapping t' v = Some (f OR HEAP_PAGE_FLAGS)" by auto
      from t'(2) v(1) v' obtain g where
        g: "mapping t' v = Some (g OR HEAP_PAGE_FLAGS)" "page_aligned g" "g \<notin> free_frames t'"
        unfolding heap_backed_def by blast
      have fa: "f \<noteq> 0 \<and> page_aligned f" using free_frame_addr [OF _ f(1)] wf by simp
      then have "f = g" using heap_flags_inj [of f g] f(2) g(1,2) by simp
      then show ?thesis using f g(3) fa unfolding bt(1) fb ft wt [unfolded bt(1)] by auto
    qed
    show "heap_on_frames {f. unat f < frame_limit l} t"
    proof -
      have he: "heap_end t' = heap_end t" by (simp add: bt(1))
      have "HEAP_START \<le> heap_end t" "\<forall>x y. HEAP_START \<le> x \<longrightarrow> x < heap_end t \<longrightarrow> HEAP_START \<le> y \<longrightarrow> y < heap_end t \<longrightarrow>
          mapping t x = mapping t y \<longrightarrow> page_base x = page_base y"
        using t'(2) unfolding heap_backed_def he wt(1) by blast+
      with leaf show ?thesis unfolding heap_on_frames_def by blast
    qed
    show "tables_avoid (bitmap_area s) t" unfolding tables_avoid_def
    proof (intro allI impI notI)
      fix q r
      assume q: "valid_path q" "tab t q = Some r" and a: "r - hhdm_offset t \<in> bitmap_area s"
      have al: "page_aligned r" "r - hhdm_offset t \<notin> free_frames (below_or_bitmap l t)"
        using vmm_inv_aligned [OF invt q(1)] vmm_inv_used [OF invt q(1)] q(2) by (simp_all add: wt(2))
      define f where "f = r - hhdm_offset t"
      have "page_aligned (hhdm_offset t)" using vmm_inv_hhdm [OF invt] by simp
      with al(1) have fa: "page_aligned f" unfolding f_def by (rule page_aligned_diff)
      define i where "i = f div 4096"
      have u: "unat i * 4096 = unat f" using fa by (simp add: i_def page_aligned_def unat_div mod_eq_0_iff_dvd)
      then have "unat (i * 4096) = unat f" using unat_u64 [of f] by (simp add: unat_word_ariths)
      with u have i: "f = i * 4096" "unat i * 4096 = unat f" by (simp_all add: word_unat_eq_iff)
      have "unat f < unat (page_count s) * 4096" using a bm(2) by (simp add: bitmap_area_def f_def)
      then have lt: "i < page_count s" unfolding i(2) [symmetric] by (simp add: word_less_nat_alt)
      from area [OF lt] a have "\<not> unat i < l * 8" by (simp add: f_def [symmetric] i(1) [symmetric])
      moreover have "0 < l"
      proof (rule ccontr)
        assume "\<not> 0 < l"
        then have "{f \<in> free_frames s. unat f < frame_limit l} = {}" by simp
        with free show False by (simp only: card.empty)
      qed
      moreover from this have "0 < i" using \<open>\<not> unat i < l * 8\<close> by (cases "i = 0") (simp_all add: word_gt_0)
      ultimately have "page_free (below_or_bitmap l t) i"
        using lt a by (simp add: page_free_below_or_bitmap pc bt(2) i(1) [symmetric] f_def)
      with al(2) show False by (auto simp: free_frames_def f_def [symmetric] i(1))
    qed
  qed
qed


subsection \<open>Properties\<close>

text \<open>
  C12. \<open>init_heap\<close> puts the heap on the lowest free frames. Let there be four free frames for
  each of its 4096 pages below some limit, the bitmap of the allocator from the limit on, and
  the page tables a tree outside the bitmap and outside the free frames below the limit; from
  the limit on they may lie in frames that are marked free. Then \<open>init_heap\<close> returns, the heap is one free
  block of 16 MiB, every page of it is mapped writable to a used frame of its own below the
  limit, and no page table lies in the bitmap: no store of \<open>init_heap\<close> or to the heap reaches it.
\<close>

theorem init_heap_backs_heap:
  fixes s :: "'a heap_scheme"
  assumes "vmm_inv (below_or_bitmap l s)" and "heap_end s = HEAP_START" and "\<And>v. HEAP_START \<le> v \<Longrightarrow> path_4k s v"
    and "4 * 4096 \<le> card {f \<in> free_frames s. unat f < frame_limit l}" and "frame_limit l \<le> unat (bitmap_phys s)"
    and "unat (bitmap_phys s) + unat (bitmap_pages s) * 4096 \<le> unat (page_count s) * 4096"
  shows "\<exists>s'. init_heap s = Some s' \<and> heap_inv s' \<and> live s' = {} \<and>
    heap_list s' [(unat HEAP_START, 16 * 1024 * 1024 - 24, True)] \<and>
    heap_on_frames {f. unat f < frame_limit l} s' \<and> tables_avoid (bitmap_area s) s'"
  using init_heap_apart [OF assms] by blast

text \<open>
  20000 frames, all but frame 0 free, also those of the top-level table and of the bitmap,
  which are frames 19001 and 19000.
\<close>

definition heap_high :: heap where
  "heap_high = heap_boot\<lparr>pml4 := 0x100000 + 19001 * 4096, bitmap_phys := 19000 * 4096\<rparr>"

lemma heap_high_simps:
  "heap_end heap_high = HEAP_START" "path_4k heap_high v" "bitmap_phys heap_high = 19000 * 4096"
  "bitmap_pages heap_high = 1" "page_count heap_high = 20000" "page_free heap_high i \<longleftrightarrow> 0 < i \<and> i < 20000"
  "tab heap_high q = (if q = [] then Some (0x100000 + 19001 * 4096) else None)" "pmm_wf heap_high"
proof -
  show "tab heap_high q = (if q = [] then Some (0x100000 + 19001 * 4096) else None)" for q
    by (cases q) (simp_all add: tab_def heap_high_def heap_boot_def next_table_def)
  then show "path_4k heap_high v"
    by (simp add: path_4k_def huge_at_def) (simp add: heap_high_def heap_boot_def)
qed (simp_all add: heap_high_def heap_boot_def page_free_def bitmap_test_def pmm_wf_def)

theorem init_heap_backs_heap_witness:
  "\<exists>s' :: heap. init_heap heap_high = Some s' \<and> heap_on_frames {f. unat f < frame_limit 2375} s' \<and>
    19000 * 4096 \<in> free_frames heap_high \<and> 19001 * 4096 \<in> free_frames heap_high"
proof -
  let ?v = "below_or_bitmap 2375 heap_high"
  have "tab ?v q = tab heap_high q" for q by (rule walk_cong) simp_all
  moreover have "19001 * 4096 \<notin> free_frames ?v"
  proof
    assume "19001 * 4096 \<in> free_frames ?v"
    then obtain i where i: "page_free ?v i" "19001 * 4096 = i * 4096" by (auto simp: free_frames_def)
    have "pmm_wf ?v" by (simp add: heap_high_simps)
    from page_free_bound [OF this i(1)] i(2) have "i = 19001" using frame_addr_inj [of 19001 i] by simp
    with i(1) show False by (simp add: page_free_below_or_bitmap bitmap_area_def heap_high_simps)
  qed
  ultimately have inv: "vmm_inv ?v"
    by (auto simp: vmm_inv_def heap_high_simps direct_map_ok_def page_aligned_def split: if_splits)
      (auto simp: heap_high_def heap_boot_def)
  have "{f \<in> free_frames heap_high. unat f < frame_limit 2375} = free_frames (below 2375 heap_high)"
    by (rule free_frames_below [symmetric]) (rule heap_high_simps)
  moreover have "page_free (below 2375 heap_high) i \<longleftrightarrow> 0 < i \<and> i < 19000" for i
    by (auto simp: page_free_below heap_high_simps word_less_nat_alt)
  ultimately have c: "card {f \<in> free_frames heap_high. unat f < frame_limit 2375} = 18999"
    using card_free_frames [of "below 2375 heap_high" 19000] by simp
  moreover have "19000 * 4096 \<in> free_frames heap_high" "19001 * 4096 \<in> free_frames heap_high"
    unfolding free_frames_def
    by (rule image_eqI [of _ _ 19000], simp, simp add: heap_high_simps)
      (rule image_eqI [of _ _ 19001], simp, simp add: heap_high_simps)
  ultimately show ?thesis
    using init_heap_backs_heap [OF inv heap_high_simps(1,2)] by (auto simp: heap_high_simps)
qed

end
