(* ===== verification/Startup.thy ===== *)
theory Startup
  imports Boot HeapStart
begin

text \<open>
  What \<open>_start\<close> achieves: memory, heap, scheduler and interrupt gates are in order after its
  first part, and after its second part the framebuffer is a file in \<open>/dev\<close> that the first
  descriptors refer to. The lemmas compose those of the parts it calls.
\<close>


subsection \<open>Bringing up devices and memory\<close>

definition tables_loaded :: "boot_info \<Rightarrow> 'a kernel_scheme \<Rightarrow> 'a kernel_scheme" where
  "tables_loaded bi s = init_idt (entry_stubs bi) (idt_place bi) (init_gdt (tss_place bi) (stack_place bi) (gdt_place bi) s)"

definition options_fit :: "boot_info \<Rightarrow> bool" where
  "options_fit bi \<longleftrightarrow> (case cmdline_response bi of Some (Some c) \<Rightarrow> length c \<le> 1000 | _ \<Rightarrow> True)"

lemma read_options_result:
  assumes "options_fit bi" "\<not> fb_lock (con s)"
  shows "\<exists>c. read_options bi s = Some (s\<lparr>con := c, cmd := read_boot_cmdline (cmdline_response bi) (cmd s)\<rparr>) \<and> \<not> fb_lock c"
proof -
  have p1: "prints ''Cmdline requests not supported in this Limine version - or incorrectly processed.\<newline>'' []"
    by (rule prints_plain) (simp_all add: str_def)
  have p2: "prints ''Boot options: %s\<newline>'' [AStr c]" if "length c \<le> 1000" for c
    by (rule printsI [where n = "15 + int (length c)"]) (simp add: str_def, use that in linarith)
  show ?thesis
  proof (cases "cmdline_response bi")
    case None
    obtain c where "kprintf ''Cmdline requests not supported in this Limine version - or incorrectly processed.\<newline>'' 0xFF0000 [] s
        = Some (s\<lparr>con := c\<rparr>)" "\<not> fb_lock c"
      by (rule kprintf_prints [OF p1 assms(2)])
    with None show ?thesis by (auto simp: read_options_def)
  next
    case r: (Some r)
    show ?thesis
    proof (cases r)
      case None
      with r assms(2) show ?thesis by (auto simp: read_options_def intro: exI [of _ "con s"])
    next
      case (Some t)
      have "length t \<le> 1000" using assms(1) r Some by (simp add: options_fit_def)
      from p2 [OF this] obtain c where "kprintf ''Boot options: %s\<newline>'' 0xFFFFFF [AStr t] s = Some (s\<lparr>con := c\<rparr>)" "\<not> fb_lock c"
        by (rule kprintf_prints) (use assms(2) in auto)
      with r Some show ?thesis by (auto simp: read_options_def)
    qed
  qed
qed

lemma init_devices_result:
  fixes s :: "'a kernel_scheme"
  assumes "fb_response bi = Some (x # xs)" "options_fit bi" "\<not> fb_lock (con s)"
  shows "\<exists>c l. init_devices bi s = Some ((tables_loaded bi s)\<lparr>con := c, io_log := l,
      cmd := read_boot_cmdline (cmdline_response bi) (cmd s)\<rparr>) \<and> \<not> fb_lock c"
proof -
  obtain a w h p b where x: "x = (a, w, h, p, b)" by (cases x)
  let ?s1 = "remap_pic 32 40 (set_interrupts False s)"
  obtain l1 where s1: "?s1 = s\<lparr>con := (con s)\<lparr>interrupts := False\<rparr>, io_log := l1\<rparr>"
    by (simp add: remap_pic_def Let_def outb_def pic_io_wait_def set_interrupts_def)
  obtain c0 where c0: "init_fb (fb_response bi) ((con s)\<lparr>interrupts := False\<rparr>) = Some c0" "\<not> fb_lock c0"
    using assms(1,3) x by (simp add: init_fb_def)
  have tl: "tables_loaded bi (s\<lparr>con := c, io_log := l\<rparr>) = (tables_loaded bi s)\<lparr>con := c, io_log := l\<rparr>" for c l
    by (simp add: tables_loaded_def init_gdt_def init_idt_def idt_set_gate_def Let_def)
  have same: "con (tables_loaded bi s) = con s" "cmd (tables_loaded bi s) = cmd s"
    by (simp_all add: tables_loaded_def init_gdt_def init_idt_def idt_set_gate_def Let_def)
  let ?t = "(tables_loaded bi s)\<lparr>io_log := l1, con := clear 0 c0\<rparr>"
  have "\<not> fb_lock (con ?t)" using c0(2) by (simp add: clear_def Let_def)
  from read_options_result [OF assms(2) this] obtain c where
    c: "read_options bi ?t = Some (?t\<lparr>con := c, cmd := read_boot_cmdline (cmdline_response bi) (cmd s)\<rparr>)" "\<not> fb_lock c"
    by (auto simp: same)
  have "init_devices bi s = Some ((tables_loaded bi s)\<lparr>con := c, io_log := io_log
      (outb 0x21 0xFC (snd (inb 0x60 (the (pit_init 100 (?t\<lparr>con := c, cmd := read_boot_cmdline (cmdline_response bi) (cmd s)\<rparr>)))))),
      cmd := read_boot_cmdline (cmdline_response bi) (cmd s)\<rparr>)"
    using c0(1) c(1) unfolding init_devices_def Let_def s1
    by (simp add: tables_loaded_def [symmetric] tl pit_init_def outb_def inb_def Let_def)
  with c(2) show ?thesis by blast
qed

lemma printf_interrupts: "printf fmt color args c = Some c' \<Longrightarrow> interrupts c'"
  by (auto simp: printf_def fb_vfs_write_def spin_unlock_def Let_def bind_eq_Some_conv split: if_splits prod.splits)

text \<open>Room among the frames below a limit is room.\<close>

lemma node_room_below: "node_room n (below l s) \<Longrightarrow> node_room n s"
proof -
  assume r: "node_room n (below l s)"
  then have wf: "pmm_wf s" by (simp add: node_room_def)
  have "card (free_frames (below l s)) \<le> card (free_frames s)"
    unfolding free_frames_below [OF wf] by (rule card_mono) (auto simp: free_frames_def)
  then show ?thesis using r heap_cong(2) [of "below l s" s] by (simp add: node_room_def)
qed

lemma init_heap_room:
  fixes v :: "'a heap_scheme"
  assumes "vmm_inv (below_or_bitmap l v)" "heap_end v = HEAP_START" "\<And>x. HEAP_START \<le> x \<Longrightarrow> path_4k v x"
    and "4 * 4096 + 4 * n \<le> card {f \<in> free_frames v. unat f < frame_limit l}" and "n \<le> 200000"
    and "frame_limit l \<le> unat (bitmap_phys v)"
      "unat (bitmap_phys v) + unat (bitmap_pages v) * 4096 \<le> unat (page_count v) * 4096"
  obtains h where "init_heap v = Some h" "heap_on_frames {f. unat f < frame_limit l} h" "tables_avoid (bitmap_area v) h"
    "live h = {}" "node_room n (below l h)" "heap.more h = heap.more v"
    "bitmap_phys h = bitmap_phys v" "bitmap_pages h = bitmap_pages v"
proof -
  from assms(4) have "4 * 4096 \<le> card {f \<in> free_frames v. unat f < frame_limit l}" by simp
  from init_heap_apart [OF assms(1-3) this assms(6,7)] obtain h where
    h: "init_heap v = Some h" "heap_inv h" "live h = {}" "heap_on_frames {f. unat f < frame_limit l} h"
      "tables_avoid (bitmap_area v) h" "bitmap_phys h = bitmap_phys v" "bitmap_pages h = bitmap_pages v"
      "init_heap (below l v) = Some (below l h)" by blast
  have u: "unat HEAP_INITIAL_SIZE = 16777216" by (simp add: HEAP_INITIAL_SIZE_def)
  from h(8) obtain b g where x: "heap_expand HEAP_INITIAL_SIZE (below l v) = Some (b, g)" "below l h = g\<lparr>head := b\<rparr>"
    by (auto simp: init_heap_def bind_eq_Some_conv)
  have wf: "pmm_wf v" using vmm_inv_pmm [OF assms(1)] by simp
  note fr = assms(4) [folded free_frames_below [OF wf]]
  have f: "pmm_wf g" "card (free_frames (below l v)) \<le> card (free_frames g) + 4 * 4096"
    using heap_expand_total [of "below l v" HEAP_INITIAL_SIZE] x(1) fr u wf by auto
  have "heap_end (below l h) = HEAP_START + 16777216"
    using heap_expand_result [OF x(1)] assms(2) u x(2) by simp
  then have "unat (heap_end (below l h)) + 4096 * n + 8192 < 2 ^ 64" using assms(5) by (simp add: HEAP_START_def)
  moreover have "pmm_wf (below l h)" "free_frames (below l h) = free_frames g"
    using f(1) by (simp_all add: x(2) pmm_wf_def free_frames_def page_free_def)
  moreover have "heap_inv (below l h)" using h(2) heap_cong(2) [of "below l h" h] by simp
  ultimately have "node_room n (below l h)" using f(2) fr by (simp add: node_room_def)
  moreover have "heap.more g = heap.more v" using heap_expand_more [OF x(1)] by simp
  moreover have "heap.more (below l h) = heap.more g" by (simp only: x(2)) simp
  then have "heap.more h = heap.more g" by (simp only: below_vmm(7))
  ultimately show thesis using that [OF h(1,4,5,3)] h(6,7) by simp
qed

text \<open>The static control block is in place, and no thread runs yet.\<close>

definition before_threads :: "'a sched_scheme \<Rightarrow> bool" where
  "before_threads s \<longleftrightarrow> main_kernel_thread s \<noteq> 0 \<and> main_kernel_thread s < HEAP_START \<and>
     (\<forall>t. t_state (threads s t) \<noteq> THREAD_STATE_RUNNING)"

lemma init_memory_result:
  fixes s u :: "'a kernel_scheme"
  assumes i: "init_pmm (memmap_response bi) (hhdm_response bi) (kernel_start_addr bi) (kernel_end_addr bi) s = Some t" "init_vmm t = Some v"
    and v: "vmm_inv (below_or_bitmap l v)" "\<And>x. HEAP_START \<le> x \<Longrightarrow> path_4k v x"
      "4 * 4096 + 4 * n \<le> card {f \<in> free_frames v. unat f < frame_limit l}" "n \<le> 200000"
      "frame_limit l \<le> unat (bitmap_phys v)"
      "unat (bitmap_phys v) + unat (bitmap_pages v) * 4096 \<le> unat (page_count v) * 4096"
    and b: "before_threads s" "heap_end s = HEAP_START"
    and u: "sched.truncate u = sched.truncate s" "\<not> fb_lock (con u)"
  obtains w where "init_memory bi u = Some w" "heap_on_frames {f. unat f < frame_limit l} w"
    "tables_avoid (bitmap_area w) w" "bitmap_area w = bitmap_area v" "live w = {}" "node_room n (below l w)" "sched_ok w"
    "queue w [main_kernel_thread s]" "ram w = ram u" "machine.more w = machine.more u" "io_in w = io_in u"
    "\<not> fb_lock (con w)" "interrupts (con w)"
proof -
  have u': "bitmap u = bitmap s" "cr3 u = cr3 s" "ptes u = ptes s" "heap_end u = heap_end s" "threads u = threads s"
    "main_kernel_thread u = main_kernel_thread s"
    using u(1) by (simp_all add: sched.truncate_def)
  from init_pmm_local [OF i(1) u'(1)] obtain t' where
    t': "init_pmm (memmap_response bi) (hhdm_response bi) (kernel_start_addr bi) (kernel_end_addr bi) u = Some t'"
    "pmm.truncate t' = pmm.truncate t" "pmm.more t' = pmm.more u" by blast
  from init_pmm_local [OF i(1) refl] i(1) have ts: "pmm.more t = pmm.more s" by simp
  have p: "hhdm_offset t' = hhdm_offset t" "page_count t' = page_count t" "bitmap t' = bitmap t"
    "bitmap_phys t' = bitmap_phys t" "bitmap_pages t' = bitmap_pages t"
    using t'(2) by (simp_all add: pmm.truncate_def)
  have f: "cr3 t' = cr3 s" "ptes t' = ptes s" "heap.more t' = heap.more u" "heap_end t' = HEAP_START"
    using t'(3) u' b(2) by (cases t', cases u, simp)+
  have ft: "cr3 t = cr3 s" "ptes t = ptes s" using ts by (cases t, cases s, simp)+
  define v' where "v' = t'\<lparr>pml4 := pml4 v\<rparr>"
  have iv: "init_vmm t' = Some v'"
    using i(2) by (auto simp: init_vmm_def Let_def phys_to_virt_def p f ft v'_def split: if_splits)
  have e: "ptes v' = ptes v" "pml4 v' = pml4 v" "hhdm_offset v' = hhdm_offset v" "page_count v' = page_count v" "bitmap v' = bitmap v"
    "bitmap_phys v' = bitmap_phys v" "bitmap_pages v' = bitmap_pages v"
    using i(2) p f ft by (auto simp: init_vmm_def Let_def v'_def split: if_splits)
  have ff: "free_frames v' = free_frames v" by (simp add: free_frames_def page_free_def e)
  have area: "bitmap_area v' = bitmap_area v" by (simp add: bitmap_area_def e)
  have "pmm_wf (below_or_bitmap l v')" using vmm_inv_pmm [OF v(1)] by (simp add: pmm_wf_def e)
  moreover have "free_frames (below_or_bitmap l v') = free_frames (below_or_bitmap l v)"
    by (simp add: free_frames_def page_free_below_or_bitmap e area)
  ultimately have inv: "vmm_inv (below_or_bitmap l v')"
    using vmm_inv_less_free [OF v(1), of "below_or_bitmap l v'"] e(1-4) by simp
  have path: "path_4k v' x = path_4k v x" for x by (rule walk_cong) (simp_all add: e)
  have he: "heap_end v' = HEAP_START" using f(4) by (simp add: v'_def)
  obtain h where
    h: "init_heap v' = Some h" "heap_on_frames {f. unat f < frame_limit l} h" "tables_avoid (bitmap_area v') h"
      "live h = {}" "node_room n (below l h)" "heap.more h = heap.more v'"
      "bitmap_phys h = bitmap_phys v'" "bitmap_pages h = bitmap_pages v'"
    by (rule init_heap_room [OF inv he]) (use v path ff e in auto)
  have hm: "threads h = threads s" "main_kernel_thread h = main_kernel_thread s" "ram h = ram u" "machine.more h = machine.more u"
    "con h = con u" "io_in h = io_in u"
    using h(6) f(3) u' by (cases h, cases u, cases t', simp add: v'_def)+
  have "before_boot h" using b(1) node_room_below [OF h(5)] by (simp add: before_boot_def before_threads_def hm node_room_def)
  note ok = init_scheduler_ok [OF this, unfolded hm(2)]
  let ?k = "set_interrupts True (init_scheduler h)"
  have lock: "\<not> fb_lock (con ?k)" using u(2) hm(5) by (simp add: set_interrupts_def init_scheduler_def Let_def)
  have "prints ''\<newline>'' []" by (rule prints_plain) (simp_all add: str_def)
  then obtain c where c: "kprintf ''\<newline>'' 0 [] ?k = Some (?k\<lparr>con := c\<rparr>)" "\<not> fb_lock c"
    by (rule kprintf_prints [OF _ lock])
  have ic: "interrupts c"
  proof -
    from c(1) obtain d where "printf (str ''\<newline>'') 0 [] (con ?k) = Some d" "?k\<lparr>con := d\<rparr> = ?k\<lparr>con := c\<rparr>"
      by (auto simp: kprintf_def)
    with printf_interrupts show ?thesis by (metis machine.select_convs(1) machine.surjective machine.update_convs(1))
  qed
  define w where "w = (init_scheduler h)\<lparr>con := c\<rparr>"
  have w: "?k\<lparr>con := c\<rparr> = w" by (simp add: w_def set_interrupts_def)
  have wh: "hdrs w = hdrs h" "head w = head h" "heap_end w = heap_end h" "bitmap w = bitmap h" "page_count w = page_count h"
    "bitmap_bytes w = bitmap_bytes h" "ptes w = ptes h" "pml4 w = pml4 h" "hhdm_offset w = hhdm_offset h"
    "bitmap_phys w = bitmap_phys h" "bitmap_pages w = bitmap_pages h"
    by (simp_all add: w_def init_scheduler_def Let_def)
  have q: "queue w = queue (init_scheduler h)" by (intro ext) (simp add: queue_def w_def)
  then have "sched_ok w"
    using ok(1) heap_cong(1,2) [of w "init_scheduler h"] by (simp add: sched_ok_def sched_inv_def) (simp add: w_def)
  moreover note wh(2,3,1)
  moreover have "bitmap_area w = bitmap_area v" using h(7,8) area by (simp add: bitmap_area_def wh(10,11))
  moreover have "heap_on_frames {f. unat f < frame_limit l} w" "tables_avoid (bitmap_area v) w"
    using heap_on_frames_cong [OF wh(7,8,9,5,4,3)] h(2,3) area by simp_all
  moreover have "node_room n (below l w)"
    using node_room_cong [of "below l w" "below l h" n] h(5) wh(1-6) by (simp add: below_def)
  moreover have "live w = {}" using heap_cong(1) [OF wh(1-3)] h(4) by simp
  moreover have "init_memory bi u = Some w" using t'(1) iv h(1) c(1) w by (simp add: init_memory_def)
  moreover have "ram w = ram u" "machine.more w = machine.more u" "io_in w = io_in u" "\<not> fb_lock (con w)" "interrupts (con w)"
    using c(2) ic hm(3,4,6) by (simp_all add: w_def init_scheduler_def Let_def)
  ultimately show thesis using that [of w] ok(2) q by simp
qed

text \<open>
  What the boot loader leaves: a memory map \<open>init_pmm\<close> accepts, static variables as the
  kernel's image has them, and page tables that form a tree and have no large pages where the
  heap will be. \<open>init_pmm\<close> marks the memory of the boot loader, its page tables among it, and
  the bitmap's own pages as free, and \<open>pmm_alloc\<close> hands out the lowest frames: so there has to
  be a limit below which there are free frames enough for the first 4096 pages of the heap and
  \<open>n\<close> more, and from which on the bitmap and the memory of the boot loader lie.
\<close>

definition loader_memory :: "boot_info \<Rightarrow> u64 set" where
  "loader_memory bi = (\<Union>e \<in> {e. memmap_response bi \<noteq> None \<and> e \<in> set (the (memmap_response bi)) \<and>
     mtype e = BOOTLOADER_RECLAIMABLE}. {a. unat (memmap_entry.base e) \<le> unat a \<and> unat a < unat (memmap_entry.base e) + unat (len e)})"

definition memory_ready :: "nat \<Rightarrow> nat \<Rightarrow> boot_info \<Rightarrow> 'a kernel_scheme \<Rightarrow> bool" where
  "memory_ready l n bi s \<longleftrightarrow> before_threads s \<and> heap_end s = HEAP_START \<and>
     (\<exists>t v. init_pmm (memmap_response bi) (hhdm_response bi) (kernel_start_addr bi) (kernel_end_addr bi) s = Some t \<and>
        init_vmm t = Some v \<and> vmm_inv (below_or_bitmap l v) \<and> (\<forall>x. HEAP_START \<le> x \<longrightarrow> path_4k v x) \<and>
        4 * 4096 + 4 * n \<le> card {f \<in> free_frames v. unat f < frame_limit l} \<and>
        frame_limit l \<le> unat (bitmap_phys v) \<and>
        unat (bitmap_phys v) + unat (bitmap_pages v) * 4096 \<le> unat (page_count v) * 4096) \<and>
     (\<forall>a \<in> loader_memory bi. frame_limit l \<le> unat a)"

definition gates :: "stubs \<Rightarrow> (nat \<times> u64) set" where
  "gates st = {(0, isr0 st), (8, isr8 st), (13, isr13 st), (14, isr14 st), (32, irq0 st), (33, irq1 st), (128, isr128 st)}"

lemma early_boot_result:
  fixes s :: "'a kernel_scheme"
  assumes "fb_response bi = Some (x # xs)" "options_fit bi" "\<not> fb_lock (con s)" "gdt s = gdt_initial"
    and "memory_ready l n bi s" "n \<le> 200000"
  obtains w where "early_boot bi s = Some w" "heap_on_frames {f. unat f < frame_limit l} w"
    "tables_avoid (bitmap_area w) w" "\<forall>a \<in> bitmap_area w \<union> loader_memory bi. frame_limit l \<le> unat a"
    "live w = {}" "node_room n (below l w)" "sched_ok w"
    "queue w [main_kernel_thread s]" "interrupts (con w)" "\<not> fb_lock (con w)"
    "\<forall>(v, a) \<in> gates (entry_stubs bi). gate_offset (idt w v) = a \<and> gate_present (idt w v)"
    "cmd w = read_boot_cmdline (cmdline_response bi) (cmd s)" "ram w = ram s" "ramfs_nodes w = ramfs_nodes s" "devices w = devices s"
    "io_in w = io_in s"
proof -
  from init_devices_result [OF assms(1-3)] obtain c log where
    d: "init_devices bi s = Some ((tables_loaded bi s)\<lparr>con := c, io_log := log,
      cmd := read_boot_cmdline (cmdline_response bi) (cmd s)\<rparr>)" "\<not> fb_lock c" by blast
  define u where "u = (tables_loaded bi s)\<lparr>con := c, io_log := log, cmd := read_boot_cmdline (cmdline_response bi) (cmd s)\<rparr>"
  note tl = tables_loaded_def init_gdt_def init_idt_def idt_set_gate_def Let_def
  have u: "sched.truncate u = sched.truncate s" "\<not> fb_lock (con u)" "ram u = ram s" "ramfs_nodes u = ramfs_nodes s"
    "devices u = devices s" "cmd u = read_boot_cmdline (cmdline_response bi) (cmd s)" "idt u = idt (tables_loaded bi s)"
    "io_in u = io_in s"
    using d(2) by (simp_all add: u_def tl sched.truncate_def)
  obtain t v where t: "init_pmm (memmap_response bi) (hhdm_response bi) (kernel_start_addr bi) (kernel_end_addr bi) s = Some t"
    "init_vmm t = Some v" "vmm_inv (below_or_bitmap l v)" "\<And>x. HEAP_START \<le> x \<Longrightarrow> path_4k v x"
    "4 * 4096 + 4 * n \<le> card {f \<in> free_frames v. unat f < frame_limit l}"
    and bm: "frame_limit l \<le> unat (bitmap_phys v)"
      "unat (bitmap_phys v) + unat (bitmap_pages v) * 4096 \<le> unat (page_count v) * 4096"
    and b: "before_threads s" "heap_end s = HEAP_START" and ld: "\<forall>a \<in> loader_memory bi. frame_limit l \<le> unat a"
    using assms(5) unfolding memory_ready_def by blast
  obtain w where w: "init_memory bi u = Some w" "heap_on_frames {f. unat f < frame_limit l} w"
    "tables_avoid (bitmap_area w) w" "bitmap_area w = bitmap_area v" "live w = {}" "node_room n (below l w)" "sched_ok w"
    "queue w [main_kernel_thread s]" "ram w = ram u" "machine.more w = machine.more u" "io_in w = io_in u"
    "\<not> fb_lock (con w)" "interrupts (con w)"
    by (rule init_memory_result [OF t assms(6) bm b u(1,2)])
  have m: "ramfs_nodes w = ramfs_nodes u" "devices w = devices u" "cmd w = cmd u" "idt w = idt u"
    using w(10) by (cases w, cases u, simp)+
  have "\<forall>(v, a) \<in> gates (entry_stubs bi). gate_offset (idt w v) = a \<and> gate_present (idt w v)"
    using table_entries(1) [OF assms(4) refl, of "entry_stubs bi" "idt_place bi" "tss_place bi" "stack_place bi" "gdt_place bi"]
    unfolding m(4) u(7) tables_loaded_def gates_def by simp
  moreover have "early_boot bi s = Some w" using d(1) w(1) by (simp add: early_boot_def u_def)
  moreover have "\<forall>a \<in> bitmap_area w \<union> loader_memory bi. frame_limit l \<le> unat a"
    using ld bm(1) w(4) by (auto simp: bitmap_area_def)
  ultimately show thesis using that w m u by simp
qed


subsection \<open>The console as a file\<close>

abbreviation devfs_dir :: vfs_node where
  "devfs_dir \<equiv> zero_node\<lparr>flags := FS_DIRECTORY, vname := str ''dev'', finddir := DEVFS_FINDDIR\<rparr>"

abbreviation fb_node :: vfs_node where
  "fb_node \<equiv> zero_node\<lparr>flags := FS_CHARDEVICE, vname := str ''fb0'', fwrite := FB_VFS_WRITE\<rparr>"

text \<open>Each creation of a node returns a fresh one, and leaves the other nodes as they are.\<close>

lemma devfs_created:
  fixes s :: "'a devfs_scheme"
  assumes "node_room (Suc n) s" "devices s = []"
  obtains r s1 where "init_devfs s = Some (r, s1)" "r \<noteq> 0" "node_room n s1" "live_at s1 r" "nodes s1 r = devfs_dir"
    "devices s1 = []" "con s1 = con s" "ram s1 = ram s" "devfs.more s1 = devfs.more s" "io_in s1 = io_in s"
proof -
  obtain r s1 where k: "kmalloc sizeof_vfs_node s = Some (r, s1)" "node_room n s1" "r \<noteq> 0"
    "heap.more s1 = heap.more s" "\<exists>m. (r, m) \<in> live s1"
    by (rule node_alloc [OF assms(1)])
  have f: "con s1 = con s" "ram s1 = ram s" "devices s1 = devices s" "devfs.more s1 = devfs.more s"
    "io_in s1 = io_in s"
    using k(4) by (cases s, cases s1, simp)+
  define t where "t = (set_node r devfs_dir s1)\<lparr>devfs_root := r, devices := List.map (\<lambda>_. 0) (devices s1)\<rparr>"
  have "init_devfs s = Some (r, t)" using k(1,3) by (simp add: init_devfs_def t_def)
  moreover have "live_at t r" using k(3,5) heap_cong(1) [of t s1] by (simp add: live_at_def t_def)
  moreover have "node_room n t" using node_room_cong [of t s1 n] k(2) by (simp add: t_def)
  ultimately show thesis using that k(3) f assms(2) by (simp add: t_def)
qed

lemma fb_node_created:
  fixes s :: "'a vnodes_scheme"
  assumes "node_room (Suc n) s"
  obtains p s1 where "fb_create_vfs_node s = Some (p, s1)" "p \<noteq> 0" "\<not> live_at s p" "nodes s1 = (nodes s)(p := fb_node)"
    "fb_lock (con s1) = fb_lock (con s)" "vnodes.more s1 = vnodes.more s" "io_in s1 = io_in s"
proof -
  obtain p s1 where k: "kmalloc sizeof_vfs_node s = Some (p, s1)" "p \<noteq> 0" "heap.more s1 = heap.more s" "\<And>m. (p, m) \<notin> live s"
    by (rule node_alloc [OF assms]) blast
  note f = heap_more_fields [OF k(3)]
  show thesis
    by (rule that [of p "(set_node p fb_node s1)\<lparr>con := (con s1)\<lparr>fb_vfs_node := True\<rparr>\<rparr>"])
      (use k f in \<open>simp_all add: fb_create_vfs_node_def live_at_def\<close>)
qed

text \<open>A lookup in the root of the archive depends on the nodes of the archive only.\<close>

lemma step_into_archive:
  fixes s u :: "'a vfs_scheme"
  assumes "dir_at s d node" "\<forall>q \<in> insert node (set (ramfs_nodes s)). nodes u q = nodes s q"
    and "ramfs_nodes u = ramfs_nodes s" "ramfs_root u = ramfs_root s"
  shows "step_into node c u = step_into node c s"
proof -
  have scan: "\<forall>q \<in> set ps. nodes u q = nodes s q \<Longrightarrow> ramfs_scan (nodes u) ps path = ramfs_scan (nodes s) ps path" for ps path
    by (induction ps) simp_all
  have "ramfs_finddir node c u = ramfs_finddir node c s"
    using assms scan [of "ramfs_nodes s"] by (simp add: ramfs_finddir_def expected_path_def)
  moreover have "FS_DIRECTORY AND FS_MOUNTPOINT = 0" by (simp add: FS_DIRECTORY_def FS_MOUNTPOINT_def)
  ultimately show ?thesis
    using assms(1,2) by (simp add: step_into_def follow_mount_def is_mountpoint_def call_finddir_def dir_at_def)
qed

text \<open>A path leads where it led before when the nodes and the tables of names are the same.\<close>

lemma call_finddir_cong:
  fixes s t :: "'a vfs_scheme"
  assumes "nodes t = nodes s" "ramfs_nodes t = ramfs_nodes s" "ramfs_root t = ramfs_root s" "devices t = devices s"
  shows "call_finddir d c t = call_finddir d c s"
  by (cases "finddir (nodes s d)") (simp_all add: call_finddir_def ramfs_finddir_def expected_path_def devfs_finddir_def assms)

lemma resolve_cong:
  fixes s t :: "'a vfs_scheme"
  assumes "nodes t = nodes s" "ramfs_nodes t = ramfs_nodes s" "ramfs_root t = ramfs_root s" "devices t = devices s"
  shows "resolve xs d t = resolve xs d s"
proof (induction xs arbitrary: d)
  case Nil
  show ?case by (cases "d = 0") (simp_all add: follow_mount_def assms(1))
next
  case (Cons c xs)
  have "follow_mount d t = follow_mount d s" by (simp add: follow_mount_def assms(1))
  then have "step_into d c t = step_into d c s"
    by (simp only: step_into_def Let_def assms(1) call_finddir_cong [OF assms])
  with Cons show ?case by (cases "d = 0") simp_all
qed

lemma dev_paths:
  "components (str ''/dev'') = [str ''dev'']" "components (str ''fb0'') = [str ''fb0'']"
  "cget (str ''/dev'') 0 = SLASH" "str ''/dev/fb0'' = str ''/dev'' @ SLASH # str ''fb0''"
  "length (str ''dev'') < 128" "length (str ''fb0'') < 128" "no_nul (str ''fb0'')"
  by (simp_all add: str_def no_nul_def)

lemma fb0_found:
  fixes u :: "'a vfs_scheme"
  assumes d: "fs_root u \<noteq> 0" "step_into (fs_root u) (str ''dev'') u = Some d" "d \<noteq> 0" "d \<noteq> fs_root u" "follow_mount d u = d"
    and r: "nodes u r = devfs_dir" "r \<noteq> 0" "r \<noteq> d"
    and p: "devices u = [p]" "p \<noteq> 0" "p \<noteq> d" "nodes u p = fb_node"
  shows "vfs_get_node_by_path (Some (str ''/dev'')) u = Some d"
    "vfs_get_node_by_path (Some (str ''/dev/fb0'')) (vfs_mount d r u) = Some p"
proof -
  let ?u = "vfs_mount d r u"
  have loc: "locate (components (str ''/dev'')) (fs_root u) u = Some d" "d \<notin> passed (components (str ''/dev'')) (fs_root u) u"
    using d unfolding dev_paths(1) by simp_all
  have len: "\<forall>c \<in> set (components (str ''/dev'')). length c < 128" "\<forall>c \<in> set (components (str ''fb0'')). length c < 128"
    unfolding dev_paths(1,2) using dev_paths(5,6) by simp_all
  have fl: "FS_DIRECTORY AND FS_MOUNTPOINT = 0" "FS_CHARDEVICE AND FS_MOUNTPOINT = 0" "FS_DIRECTORY AND FS_DIRECTORY \<noteq> 0"
    by (simp_all add: FS_DIRECTORY_def FS_CHARDEVICE_def FS_MOUNTPOINT_def)
  then have fr: "follow_mount r u = r" "follow_mount p u = p" by (simp_all add: follow_mount_def is_mountpoint_def r p)
  show "vfs_get_node_by_path (Some (str ''/dev'')) u = Some d"
    using get_node_resolve [OF dev_paths(3) len(1), of u] d unfolding dev_paths(1) by simp
  note l = vfs_mount_lookup [OF d(3), where t = r and s = u]
  note st = step_into_mount [OF d(3) r(3), where t = r and s = u] step_into_mount(1) [OF d(3) p(3), where t = r and s = u]
  have "devfs_finddir (str ''fb0'') u = Some p"
    using p dev.cmp_zero [OF dev_paths(7,7)] by (simp add: devfs_finddir_def)
  then have "step_into r (str ''fb0'') u = Some p"
    using r fl by (simp add: step_into_def fr call_finddir_def is_dir_def)
  then have "resolve (components (str ''fb0'')) r ?u = Some p"
    unfolding dev_paths(2) using r(2) p(2) by (simp add: st fr)
  with mounted_paths(2) [OF loc(1) d(3) loc(2) r(2) fr(1) r(3) dev_paths(3) len]
  show "vfs_get_node_by_path (Some (str ''/dev/fb0'')) ?u = Some p"
    unfolding dev_paths(4) by simp
qed

lemma archive_dev_dir:
  fixes s :: "'a vfs_scheme"
  assumes h: "holds_archive es s" and root: "dir_at s [] node"
    and ok: "archive_ok es" "e \<in> set es" "\<not> tar_extension (te_type e)" "str ''dev'' \<in> parent_dirs (sanitize_path (te_name e))"
  obtains d where "d \<in> set (ramfs_nodes s)" "d \<noteq> 0" "d \<noteq> ramfs_root s" "step_into node (str ''dev'') s = Some d"
    "flags (nodes s d) = FS_DIRECTORY" "finddir (nodes s d) = RAMFS_FINDDIR"
proof -
  have c: "child [] (str ''dev'') = str ''dev''" by (simp add: child_def)
  have "has_entry s (child [] (str ''dev''))"
    using h ok(2-4) unfolding c holds_archive_def unpacked_def by blast
  then obtain d where d: "d \<in> set (ramfs_nodes s)" "d \<noteq> 0" "d \<noteq> ramfs_root s" "step_into node (str ''dev'') s = Some d"
    "tar_match_name (vname (nodes s d)) (str ''dev'')"
    using dir_step [OF h root, of "str ''dev''"] dev_paths(5) unfolding c by blast
  have "last (str ''dev'') \<noteq> SLASH" by (simp add: str_def)
  moreover have "sourced (ram s) es (nodes s d)" using h d(1) by (simp add: holds_archive_def)
  ultimately show thesis using found_dir [OF ok _ _ d(5)] that d by blast
qed

text \<open>What \<open>mount_filesystems\<close> leaves behind: the node \<open>p\<close> of the framebuffer under its path and in the table.\<close>

definition console_open :: "u64 \<Rightarrow> 'a fds_scheme \<Rightarrow> bool" where
  "console_open p s \<longleftrightarrow> p \<noteq> 0 \<and> \<not> fb_lock (con s) \<and> fwrite (nodes s p) = FB_VFS_WRITE \<and>
     vfs_get_node_by_path (Some (str ''/dev/fb0'')) s = Some p \<and>
     (\<forall>fd. fd_get_node fd s = (if fd = 1 \<or> fd = 2 then p else 0))"

text \<open>The last steps, from a state with an archive, the directory of devices and the framebuffer's node.\<close>

lemma console_mounted:
  fixes u :: "'a fds_scheme"
  assumes d: "fs_root u \<noteq> 0" "step_into (fs_root u) (str ''dev'') u = Some d" "d \<noteq> 0" "d \<noteq> fs_root u" "follow_mount d u = d"
    and r: "nodes u r = devfs_dir" "r \<noteq> 0" "r \<noteq> d"
    and p: "devices u = [p]" "p \<noteq> 0" "p \<noteq> d" "nodes u p = fb_node"
    and lock: "\<not> fb_lock (con u)"
  shows "\<exists>s1 s2. init_fds (vfs_mount d r u) = Some s1 \<and>
    kprintf ''VFS: DevFS mounted to /dev successfully.\<newline>'' 0x00FF00 [] s1 = Some s2 \<and> console_open p s2 \<and>
    io_in s2 = io_in u \<and> fds.more s2 = fds.more u"
proof -
  have lookup: "vfs_get_node_by_path (Some (str ''/dev/fb0'')) (vfs_mount d r (u\<lparr>fd_table := t, con := c\<rparr>)) = Some p" for t c
  proof -
    have call: "call_finddir q (str ''dev'') (u\<lparr>fd_table := t, con := c\<rparr>) = call_finddir q (str ''dev'') u" for q
      by (rule call_finddir_cong) simp_all
    have "step_into (fs_root u) (str ''dev'') (u\<lparr>fd_table := t, con := c\<rparr>) = step_into (fs_root u) (str ''dev'') u"
      by (auto simp: step_into_def follow_mount_def Let_def call)
    moreover have "follow_mount d (u\<lparr>fd_table := t, con := c\<rparr>) = follow_mount d u" by (simp add: follow_mount_def)
    ultimately show ?thesis using d r p by (intro fb0_found(2)) simp_all
  qed
  have swap: "(vfs_mount d r u)\<lparr>fd_table := t, con := c\<rparr> = vfs_mount d r (u\<lparr>fd_table := t, con := c\<rparr>)" for t c
    using d(3) by (simp add: vfs_mount_def)
  define t where "t = (\<lambda>i. if i < MAX_OPEN_FILES then no_file else fd_table (vfs_mount d r u) i)"
  define t' where "t' = t(1 := (t 1)\<lparr>fd_node := p, fd_flags := VFS_FLAG_WRITE\<rparr>, 2 := (t 2)\<lparr>fd_node := p, fd_flags := VFS_FLAG_WRITE\<rparr>)"
  define s1 where "s1 = (vfs_mount d r u)\<lparr>fd_table := t'\<rparr>"
  have "(vfs_mount d r u)\<lparr>fd_table := t\<rparr> = vfs_mount d r (u\<lparr>fd_table := t, con := con u\<rparr>)"
    unfolding swap [symmetric] using d(3) by (simp add: vfs_mount_def)
  with lookup [where t = t and c = "con u"] have "vfs_get_node_by_path (Some (str ''/dev/fb0'')) ((vfs_mount d r u)\<lparr>fd_table := t\<rparr>) = Some p" by simp
  then have i: "init_fds (vfs_mount d r u) = Some s1"
    using p(2) by (simp add: init_fds_def t_def [symmetric] Let_def s1_def t'_def)
  have "\<not> fb_lock (con s1)" using lock d(3) by (simp add: s1_def vfs_mount_def)
  moreover have "prints ''VFS: DevFS mounted to /dev successfully.\<newline>'' []"
    by (rule prints_plain) (simp_all add: str_def)
  ultimately obtain c where c: "kprintf ''VFS: DevFS mounted to /dev successfully.\<newline>'' 0x00FF00 [] s1 = Some (s1\<lparr>con := c\<rparr>)"
    "\<not> fb_lock c"
    using kprintf_prints [of "''VFS: DevFS mounted to /dev successfully.\<newline>''" "[]" s1 "0x00FF00"] by blast
  have s2: "s1\<lparr>con := c\<rparr> = vfs_mount d r (u\<lparr>fd_table := t', con := c\<rparr>)" by (simp add: s1_def swap [symmetric])
  have "nodes (s1\<lparr>con := c\<rparr>) p = fb_node" using p(3,4) d(3) by (simp add: s1_def vfs_mount_def)
  moreover have "fd_get_node fd (s1\<lparr>con := c\<rparr>) = (if fd = 1 \<or> fd = 2 then p else 0)" for fd
    by (auto simp: fd_get_node_def s1_def t'_def t_def no_file_def MAX_OPEN_FILES_def nat_eq_iff)
  ultimately have "console_open p (s1\<lparr>con := c\<rparr>)"
    using lookup [where t = t' and c = c] c(2) p(2) by (simp add: console_open_def s2 [symmetric])
  moreover have "io_in (s1\<lparr>con := c\<rparr>) = io_in u" "fds.more (s1\<lparr>con := c\<rparr>) = fds.more u"
    using d(3) by (simp_all add: s1_def vfs_mount_def)
  ultimately show ?thesis using i c(1) by blast
qed

lemma say_con:
  assumes "prints msg args" "\<not> fb_lock (con s)"
  shows "\<exists>c. say dbg msg color args s = Some (s\<lparr>con := c\<rparr>) \<and> \<not> fb_lock c"
proof (cases dbg)
  case True
  obtain c where "kprintf msg color args s = Some (s\<lparr>con := c\<rparr>)" "\<not> fb_lock c"
    by (rule kprintf_prints [OF assms])
  with True show ?thesis by (auto simp: say_def)
qed (use assms(2) in \<open>auto simp: say_def intro: exI [of _ "con s"]\<close>)

lemma mount_filesystems_opens:
  fixes s :: "'a kernel_scheme"
  assumes at: "tar_at (ram s) a es" and room: "node_room (MAX_RAMFS_NODES + 2) s"
    and empty: "ramfs_nodes s = []" "devices s = []" and fits: "archive_size es < MAX_RAMFS_NODES"
    and ok: "archive_ok es" "e \<in> set es" "\<not> tar_extension (te_type e)" "str ''dev'' \<in> parent_dirs (sanitize_path (te_name e))"
    and bi: "module_response bi = Some (a # ms)" and lock: "\<not> fb_lock (con s)"
  shows "\<exists>p s'. mount_filesystems bi s = Some s' \<and> console_open p s' \<and> io_in s' = io_in s \<and> cmd s' = cmd s"
proof -
  have "node_room (Suc (Suc MAX_RAMFS_NODES)) s" using room by simp
  then obtain r s1 where s1: "init_devfs s = Some (r, s1)" "r \<noteq> 0" "node_room (Suc MAX_RAMFS_NODES) s1" "live_at s1 r"
    "nodes s1 r = devfs_dir" "devices s1 = []" "con s1 = con s" "ram s1 = ram s" "devfs.more s1 = devfs.more s" "io_in s1 = io_in s"
    using devfs_created empty(2) by blast
  have f1: "ramfs_nodes s1 = []" "cmd s1 = cmd s" using s1(9) empty(1) by (cases s, cases s1, simp)+
  have l1: "\<not> fb_lock (con s1)" using lock s1(7) by simp
  have "prints ''VFS: Booting from Initramfs...\<newline>'' []" by (rule prints_plain) (simp_all add: str_def)
  from say_con [OF this l1] obtain c where
    c: "say (debug (cmd s1)) ''VFS: Booting from Initramfs...\<newline>'' 0x00FFCC [] s1 = Some (s1\<lparr>con := c\<rparr>)" "\<not> fb_lock c"
    by blast
  define s2 where "s2 = s1\<lparr>con := c\<rparr>"
  have s2: "tar_at (ram s2) a es" "node_room (Suc MAX_RAMFS_NODES) s2" "ramfs_nodes s2 = []" "live_at s2 r"
    "nodes s2 r = devfs_dir" "devices s2 = []" "\<not> fb_lock (con s2)" "io_in s2 = io_in s" "cmd s2 = cmd s"
    using at s1 f1 c(2) node_room_cong [of s2 s1] heap_cong(1) [of s2 s1] by (simp_all add: s2_def live_at_def)
  from init_initramfs_spec [OF s2(1-3)] obtain root s3 where i: "init_initramfs a s2 = Some (root, s3)" "root \<noteq> 0" "ramfs_root s3 = root"
    and s3: "ramfs_ok s3" "con s3 = con s2" "devices s3 = []" "nodes s3 r = devfs_dir" "live_at s3 r" "io_in s3 = io_in s2"
      "ramfs.more s3 = ramfs.more s2"
    using s2(4-6) by auto
  have full: "\<not> table_full s3"
    using init_initramfs_length [OF s2(1,3) i(1)] fits by (simp add: table_full_def)
  let ?t = "s3\<lparr>fs_root := root\<rparr>"
  note h = init_initramfs_holds [OF s2(1-3) i(1) full]
  have "ramfs_ok ?t" using h(1) by (simp add: holds_archive_def)
  then have "node_room (Suc (MAX_RAMFS_NODES - Suc (length (ramfs_nodes s3)))) ?t"
    and live: "\<forall>q \<in> set (ramfs_nodes ?t). live_at ?t q" "live_at ?t (ramfs_root ?t)" "ramfs_root ?t \<notin> set (ramfs_nodes ?t)"
    using full by (auto simp: ramfs_ok_def table_full_def Suc_diff_Suc)
  then obtain p s4 where s4: "fb_create_vfs_node ?t = Some (p, s4)" "p \<noteq> 0" "\<not> live_at ?t p" "nodes s4 = (nodes ?t)(p := fb_node)"
    "fb_lock (con s4) = fb_lock (con ?t)" "vnodes.more s4 = vnodes.more ?t" "io_in s4 = io_in ?t"
    using fb_node_created by blast
  have "cmd s3 = cmd s2" using s3(7) by (cases s3, cases s2, simp)
  then have f4: "devices s4 = []" "ramfs_nodes s4 = ramfs_nodes s3" "ramfs_root s4 = root" "fs_root s4 = root" "cmd s4 = cmd s"
    using s4(6) s3(3) i(3) s2(9) by (cases s3, cases s4, simp)+
  define u where "u = devfs_register p s4"
  have u: "devices u = [p]" "ramfs_nodes u = ramfs_nodes ?t" "ramfs_root u = ramfs_root ?t" "fs_root u = root"
    "nodes u = (nodes s3)(p := fb_node)" "\<not> fb_lock (con u)"
    "io_in u = io_in s" "cmd u = cmd s"
    using f4 s4(4,5,7) s3(2,6) s2(7,8) i(3) by (simp_all add: u_def devfs_register_def MAX_DEVFS_DEVICES_def)
  from archive_dev_dir [OF h(1,2) ok] obtain d where d: "d \<in> set (ramfs_nodes ?t)" "d \<noteq> 0" "d \<noteq> ramfs_root ?t"
    "step_into root (str ''dev'') ?t = Some d" "flags (nodes ?t d) = FS_DIRECTORY" "finddir (nodes ?t d) = RAMFS_FINDDIR"
    by blast
  have "live_at ?t r" using s3(5) heap_cong(1) [of ?t s3] by (simp add: live_at_def)
  then have ne: "p \<noteq> d" "p \<noteq> root" "p \<noteq> r" "r \<noteq> d" "p \<notin> set (ramfs_nodes ?t)"
    using live d(1,6) s4(3) i(3) s3(4) by (auto simp: zero_node_def)
  have "step_into root (str ''dev'') u = Some d"
    using step_into_archive [OF h(2), of u "str ''dev''"] u(2,3,5) ne(2,5) d(4) by auto
  moreover have "follow_mount d u = d"
    using d(5) u(5) ne(1) by (simp add: follow_mount_def is_mountpoint_def FS_DIRECTORY_def FS_MOUNTPOINT_def)
  ultimately obtain v w where "init_fds (vfs_mount d r u) = Some v"
    "kprintf ''VFS: DevFS mounted to /dev successfully.\<newline>'' 0x00FF00 [] v = Some w"
    and w: "console_open p w" "io_in w = io_in u" "fds.more w = fds.more u"
    and "vfs_get_node_by_path (Some (str ''/dev'')) u = Some d"
    using console_mounted [of u d r p] fb0_found(1) [of u d r p] u s4(2) s1(2) s3(4) d(2,3) i(2,3) ne by auto
  then have "mount_filesystems bi s = Some w"
    using s1(1) c(1) i(1) s4(1) d(2) bi
    by (simp add: mount_filesystems_def s2_def [symmetric] u_def [symmetric])
  moreover have "cmd w = cmd u" using w(3) by (cases w, cases u, simp)
  ultimately show ?thesis using w u(7,8) by auto
qed

lemma console_open_write:
  assumes "console_open p s" "fd = 1 \<or> fd = 2" "validate_user_pointer buf count"
  shows "sys_write fd buf count s = Some (count, s\<lparr>con := (puts (bytes_at (ram s) buf (unat count)) 0xFFFFFFF
    ((con s)\<lparr>default_fg := 0xFFFFFFF\<rparr>))\<lparr>fb_lock := False, interrupts := True\<rparr>\<rparr>)"
proof -
  let ?c = "(con s)\<lparr>default_fg := 0xFFFFFFF\<rparr>" and ?t = "bytes_at (ram s) buf (unat count)"
  have "fd_get_node fd s = p" "p \<noteq> 0" "fwrite (nodes s p) = FB_VFS_WRITE" "\<not> fb_lock ?c"
    using assms(1,2) by (auto simp: console_open_def)
  moreover have "of_nat (length ?t) = count" by (simp add: bytes_at_def)
  ultimately show ?thesis
    using assms(3) fb_write_puts [of ?c ?t] by (simp add: sys_write_def call_write_def)
qed


subsection \<open>Up to the idle loop\<close>

text \<open>What the storage part leaves alone.\<close>

definition same_files :: "'a kernel_scheme \<Rightarrow> 'a kernel_scheme \<Rightarrow> bool" where
  "same_files s t \<longleftrightarrow> nodes t = nodes s \<and> ramfs_nodes t = ramfs_nodes s \<and> ramfs_root t = ramfs_root s \<and>
     devices t = devices s \<and> fs_root t = fs_root s \<and> fd_table t = fd_table s \<and> cmd t = cmd s \<and> io_in t = io_in s"

lemma same_files_trans: "same_files s t \<Longrightarrow> same_files t u \<Longrightarrow> same_files s u"
  by (simp add: same_files_def)

lemma console_open_same:
  assumes o: "console_open p s" and f: "same_files s t" "\<not> fb_lock (con t)"
  shows "console_open p t"
proof -
  have "\<forall>c \<in> set (components (str ''/dev/fb0'')). length c < 128" "cget (str ''/dev/fb0'') 0 = SLASH"
    by (simp_all add: str_def)
  moreover have "resolve xs d t = resolve xs d s" for xs d
    using f(1) by (intro resolve_cong) (simp_all add: same_files_def)
  ultimately have "vfs_get_node_by_path (Some (str ''/dev/fb0'')) t = vfs_get_node_by_path (Some (str ''/dev/fb0'')) s"
    using f(1) by (simp only: get_node_resolve) (simp add: same_files_def)
  moreover have "fd_get_node fd t = fd_get_node fd s" for fd using f(1) by (simp add: fd_get_node_def same_files_def)
  ultimately show ?thesis using o f by (simp add: console_open_def same_files_def)
qed

lemma kprintf_plain:
  assumes "37 \<notin> set (str msg)" "length msg \<le> 1023" "\<not> fb_lock (con s)"
  shows "\<exists>c. kprintf msg color [] s = Some (s\<lparr>con := c\<rparr>) \<and> \<not> fb_lock c"
proof -
  obtain c where "kprintf msg color [] s = Some (s\<lparr>con := c\<rparr>)" "\<not> fb_lock c"
    by (rule kprintf_prints [OF prints_plain [OF assms(1,2)] assms(3)])
  then show ?thesis by blast
qed

lemma init_storage_result:
  fixes s :: "'a kernel_scheme"
  assumes l: "\<not> fb_lock (con s)" and e: "ext2_type_place bi \<noteq> 0"
  obtains t where "init_storage bi s = Some t" "same_files s t" "\<not> fb_lock (con t)"
    "num_block_devices t = 1" "bname (block_devices t 0) = str ''sda''"
    "fs_types_head t = ext2_type_place bi" "fs_name (fs_types t (ext2_type_place bi)) = str ''ext2''"
proof -
  define s0 where "s0 = s\<lparr>num_block_devices := 0, block_devices := (\<lambda>i. if i < MAX_BLOCK_DEVICES
    then (block_devices s i)\<lparr>bname := []\<rparr> else block_devices s i)\<rparr>"
  obtain c1 where c1: "init_block_subsystem s = Some (s0\<lparr>con := c1\<rparr>)" "\<not> fb_lock c1"
    using kprintf_plain [of "''BLOCK: Subsytem initialized.\<newline>''" s0 "0x00FF00"] l
    unfolding init_block_subsystem_def s0_def [symmetric] by (auto simp: s0_def str_def)
  obtain c2 where c2: "kprintf ''ATA: Initializing Primary ATA Controller...\<newline>'' 0x00FF00 [] (s0\<lparr>con := c1\<rparr>) = Some (s0\<lparr>con := c2\<rparr>)" "\<not> fb_lock c2"
    using kprintf_plain [of "''ATA: Initializing Primary ATA Controller...\<newline>''" "s0\<lparr>con := c1\<rparr>" "0x00FF00"] c1(2)
    by (auto simp: str_def)
  let ?sda = "\<lparr>bname = str ''sda'', sector_size = 512, total_sectors = 131072, start_lba = 0,
       bread = ATA_BLOCK_READ, bwrite = NULL_BLOCK_FN, priv_data = 0\<rparr>"
  have "printable ?sda" by (simp add: printable_def str_def no_nul_def)
  from register_add [OF this, of "s0\<lparr>con := c2\<rparr>"] c2(2) obtain r s1 where
    s1: "register_block_device ?sda (s0\<lparr>con := c2\<rparr>) = Some (r, s1)" "upto_con (add_device ?sda (s0\<lparr>con := c2\<rparr>)) s1" "\<not> fb_lock (con s1)"
    by auto
  obtain c3 where "s1 = (add_device ?sda (s0\<lparr>con := c2\<rparr>))\<lparr>con := c3\<rparr>"
    using s1(2) by (auto simp: upto_con_def)
  then have f1: "same_files s s1" "num_block_devices s1 = 1" "block_devices s1 0 = ?sda"
    by (simp_all add: add_device_def s0_def same_files_def MAX_BLOCK_DEVICES_def)
  define s2 where "s2 = vfs_register_filesystem (ext2_type_place bi)
    (s1\<lparr>fs_types := (fs_types s1)(ext2_type_place bi := \<lparr>fs_name = str ''ext2'', fs_mount = EXT2_MOUNT, fs_next = 0\<rparr>)\<rparr>)"
  have s2: "con s2 = con s1" "same_files s1 s2" "num_block_devices s2 = 1" "block_devices s2 0 = ?sda"
    "fs_types_head s2 = ext2_type_place bi" "fs_name (fs_types s2 (ext2_type_place bi)) = str ''ext2''"
    using e f1 by (simp_all add: s2_def vfs_register_filesystem_def same_files_def)
  obtain c4 where c4: "ext2_init (ext2_type_place bi) s1 = Some (s2\<lparr>con := c4\<rparr>)" "\<not> fb_lock c4"
    using kprintf_plain [of "''EXT2: Filesystem initialized.\<newline>''" s2 "0x00FF00"] s1(3) s2(1)
    unfolding ext2_init_def s2_def [symmetric] by (auto simp: str_def)
  have "init_storage bi s = Some (s2\<lparr>con := c4\<rparr>)"
    using c1(1) c2(1) s1(1) c4(1) by (simp add: init_storage_def ata_init_def)
  moreover have "same_files s (s2\<lparr>con := c4\<rparr>)" using f1(1) s2(2) by (simp add: same_files_def)
  ultimately show thesis using that s2(3-6) c4(2) by simp
qed

lemma banner_result:
  assumes "\<not> fb_lock (con s)"
  shows "\<exists>c. banner s = Some (s\<lparr>con := c\<rparr>) \<and> \<not> fb_lock c"
proof -
  obtain c1 where c1: "kprintf ''\<newline>Welcome to Miyabi '' 0xFFFFFF [] s = Some (s\<lparr>con := c1\<rparr>)" "\<not> fb_lock c1"
    using kprintf_plain [of "''\<newline>Welcome to Miyabi ''" s] assms by (auto simp: str_def)
  obtain c2 where c2: "kprintf ''0.1\<newline>'' 0xFFFFFF [] (s\<lparr>con := c1\<rparr>) = Some (s\<lparr>con := c2\<rparr>)" "\<not> fb_lock c2"
    using kprintf_plain [of "''0.1\<newline>''" "s\<lparr>con := c1\<rparr>"] c1(2) by (auto simp: str_def)
  obtain c3 where c3: "kprintf ''Copyright (c) 2026 Luna Delanuit and contributers, '' 0xCC00DD [] (s\<lparr>con := c2\<rparr>) = Some (s\<lparr>con := c3\<rparr>)" "\<not> fb_lock c3"
    using kprintf_plain [of "''Copyright (c) 2026 Luna Delanuit and contributers, ''" "s\<lparr>con := c2\<rparr>"] c2(2) by (auto simp: str_def)
  obtain c4 where c4: "kprintf ''GNU General Public License v3.0-or-later.\<newline>\<newline>'' 0xFF2200 [] (s\<lparr>con := c3\<rparr>) = Some (s\<lparr>con := c4\<rparr>)" "\<not> fb_lock c4"
    using kprintf_plain [of "''GNU General Public License v3.0-or-later.\<newline>\<newline>''" "s\<lparr>con := c3\<rparr>"] c3(2) by (auto simp: str_def)
  have "banner s = Some (s\<lparr>con := c4\<rparr>)" using c1(1) c2(1) c3(1) c4(1) by (simp add: banner_def)
  with c4(2) show ?thesis by blast
qed

text \<open>Without a drive there is nothing to mount.\<close>

definition no_drive :: "(io_event list \<Rightarrow> io_event \<Rightarrow> u32) \<Rightarrow> bool" where
  "no_drive io \<longleftrightarrow> (\<forall>l. (ucast (io l (Inb ATA_PRIMARY_COMMAND_STAT)) :: u8) = 0)"

lemma mount_disks_none:
  assumes "no_drive (io_in s)" "sector_buf bi \<noteq> 0" "num_block_devices s = 1" "bname (block_devices s 0) = str ''sda''"
    and "fs_types_head s \<noteq> 0" "fs_name (fs_types s (fs_types_head s)) = str ''ext2''"
  shows "\<exists>l. mount_disks bi s = Some (s\<lparr>io_log := l\<rparr>)"
proof -
  have r: "ata_read_sector28 0 (sector_buf bi) s = Some (False, s\<lparr>io_log := Inb ATA_PRIMARY_COMMAND_STAT # io_log s\<rparr>)"
    using assms(1,2) by (intro ata_no_drive) (simp_all add: no_drive_def)
  have "find_fs (fs_types s) (fs_types_head s) (str ''ext2'') = Some (fs_types_head s)"
    using assms(5,6) str.cmp_zero [of "str ''ext2''" "str ''ext2''"] by (subst find_fs.simps) (simp add: str_def no_nul_def)
  moreover have "get_block_device (str ''sda1'') (s\<lparr>io_log := l\<rparr>) = None" for l
    using assms(3,4) by (simp add: get_block_device_def str_def)
  ultimately have "mount_disks bi s = Some (s\<lparr>io_log := Inb ATA_PRIMARY_COMMAND_STAT # io_log s\<rparr>)"
    using assms(5) by (simp add: mount_disks_def r vfs_find_filesystem_def)
  then show ?thesis by blast
qed

lemma after_mount_idles:
  fixes s :: "'a kernel_scheme"
  assumes o: "console_open p s" and e: "ext2_type_place bi \<noteq> 0" "sector_buf bi \<noteq> 0"
    and io: "no_drive (io_in s)" and m: "boot_modules_count (cmd s) = 0"
  obtains s1 s2 s3 t where "init_storage bi s = Some s1" "banner s1 = Some s2" "load_boot_modules bi run 0 s2 = Some s2"
    "mount_disks bi s2 = Some s3" "say (debug (cmd s3)) ''Reached end of kernel.\<newline>'' 0xFF00FF [] s3 = Some t" "console_open p t"
proof -
  have "\<not> fb_lock (con s)" using o by (simp add: console_open_def)
  then obtain s1 where s1: "init_storage bi s = Some s1" "same_files s s1" "\<not> fb_lock (con s1)"
    "num_block_devices s1 = 1" "bname (block_devices s1 0) = str ''sda''"
    "fs_types_head s1 = ext2_type_place bi" "fs_name (fs_types s1 (ext2_type_place bi)) = str ''ext2''"
    using init_storage_result [OF _ e(1)] by blast
  obtain c where c: "banner s1 = Some (s1\<lparr>con := c\<rparr>)" "\<not> fb_lock c" using banner_result [OF s1(3)] by blast
  let ?s2 = "s1\<lparr>con := c\<rparr>"
  have f: "cmd s1 = cmd s" "io_in s1 = io_in s" using s1(2) by (simp_all add: same_files_def)
  have l: "load_boot_modules bi run 0 ?s2 = Some ?s2" using m by (subst load_boot_modules.simps) (simp add: f)
  have io2: "no_drive (io_in ?s2)" using io f by simp
  obtain log where d: "mount_disks bi ?s2 = Some (?s2\<lparr>io_log := log\<rparr>)"
    using mount_disks_none [OF io2 e(2)] s1(4-7) e(1) by auto
  let ?s3 = "?s2\<lparr>io_log := log\<rparr>"
  have "prints ''Reached end of kernel.\<newline>'' []" by (rule prints_plain) (simp_all add: str_def)
  from say_con [OF this, of ?s3 "debug (cmd ?s3)" "0xFF00FF"] c(2) obtain k where
    k: "say (debug (cmd ?s3)) ''Reached end of kernel.\<newline>'' 0xFF00FF [] ?s3 = Some (?s3\<lparr>con := k\<rparr>)" "\<not> fb_lock k" by auto
  have "same_files s (?s3\<lparr>con := k\<rparr>)" using s1(2) by (simp add: same_files_def)
  from console_open_same [OF o this] k(2) have "console_open p (?s3\<lparr>con := k\<rparr>)" by simp
  then show thesis by (rule that [OF s1(1) c(1) l d k(1)])
qed


subsection \<open>Properties\<close>

text \<open>
  C38. On a machine whose boot loader leaves enough free frames below its own memory and the
  bitmap, the first part of \<open>_start\<close> comes back: the heap is empty, its 16 MiB are mapped to
  used frames of their own below the limit, no page table lies in the bitmap, and there is
  room for \<open>n\<close> more allocations of nodes on frames below the limit, while the bitmap and the
  boot loader's memory lie above it; the queue holds the main thread alone, which is running;
  every gate that is set leads to its handler, interrupts are enabled, and the options on the
  command line are in force.
\<close>

theorem early_boot_ready:
  fixes s :: "'a kernel_scheme"
  assumes "fb_response bi = Some (x # xs)" and "options_fit bi" and "\<not> fb_lock (con s)" and "gdt s = gdt_initial"
    and "memory_ready l n bi s" and "n \<le> 200000"
  shows "\<exists>w. early_boot bi s = Some w \<and> heap_on_frames {f. unat f < frame_limit l} w \<and>
    tables_avoid (bitmap_area w) w \<and> (\<forall>a \<in> bitmap_area w \<union> loader_memory bi. frame_limit l \<le> unat a) \<and>
    live w = {} \<and> node_room n (below l w) \<and>
    sched_ok w \<and> queue w [main_kernel_thread s] \<and> interrupts (con w) \<and>
    (\<forall>(v, a) \<in> gates (entry_stubs bi). gate_offset (idt w v) = a \<and> gate_present (idt w v)) \<and>
    cmd w = read_boot_cmdline (cmdline_response bi) (cmd s)"
  by (rule early_boot_result [OF assms]) blast

text \<open>
  C39. From the boot loader to the first system call: with an archive that has a directory
  \<open>dev\<close> and fits the table, both first parts of \<open>_start\<close> come back; then the framebuffer's
  node is found under \<open>/dev/fb0\<close> across the mount, descriptors 1 and 2 are that node and all
  others are closed, and \<open>sys_write\<close> on them prints exactly the bytes of a user buffer and
  answers their number.
\<close>

theorem start_reaches_console:
  fixes s :: "'a kernel_scheme"
  assumes "fb_response bi = Some (x # xs)" and "options_fit bi" and "\<not> fb_lock (con s)" and "gdt s = gdt_initial"
    and "memory_ready l (MAX_RAMFS_NODES + 2) bi s"
    and "tar_at (ram s) a es" and "ramfs_nodes s = []" and "devices s = []"
    and "archive_size es < MAX_RAMFS_NODES" and "archive_ok es"
    and "e \<in> set es" and "\<not> tar_extension (te_type e)" and "str ''dev'' \<in> parent_dirs (sanitize_path (te_name e))"
    and "module_response bi = Some (a # ms)"
  shows "\<exists>s1 s2 p. early_boot bi s = Some s1 \<and> mount_filesystems bi s1 = Some s2 \<and> p \<noteq> 0 \<and>
    vfs_get_node_by_path (Some (str ''/dev/fb0'')) s2 = Some p \<and>
    (\<forall>fd. fd_get_node fd s2 = (if fd = 1 \<or> fd = 2 then p else 0)) \<and>
    (\<forall>fd buf count. (fd = 1 \<or> fd = 2) \<and> validate_user_pointer buf count \<longrightarrow>
      sys_write fd buf count s2 = Some (count, s2\<lparr>con := (puts (bytes_at (ram s2) buf (unat count)) 0xFFFFFFF
        ((con s2)\<lparr>default_fg := 0xFFFFFFF\<rparr>))\<lparr>fb_lock := False, interrupts := True\<rparr>\<rparr>))"
proof -
  have "MAX_RAMFS_NODES + 2 \<le> 200000" by (simp add: MAX_RAMFS_NODES_def)
  then obtain w where
    w: "early_boot bi s = Some w" "node_room (MAX_RAMFS_NODES + 2) (below l w)" "\<not> fb_lock (con w)"
      "ram w = ram s" "ramfs_nodes w = ramfs_nodes s" "devices w = devices s"
    by (rule early_boot_result [OF assms(1-5)])
  have at: "tar_at (ram w) a es" and empty: "ramfs_nodes w = []" "devices w = []"
    using w(4-6) assms(6-8) by simp_all
  obtain p s2 where m: "mount_filesystems bi w = Some s2" and o: "console_open p s2"
    using mount_filesystems_opens [OF at node_room_below [OF w(2)] empty assms(9-14) w(3)] by blast
  have "p \<noteq> 0 \<and> vfs_get_node_by_path (Some (str ''/dev/fb0'')) s2 = Some p \<and>
      (\<forall>fd. fd_get_node fd s2 = (if fd = 1 \<or> fd = 2 then p else 0))"
    using o by (simp add: console_open_def)
  with w(1) m console_open_write [OF o] show ?thesis by blast
qed

text \<open>
  C40. The whole start: on such a machine without a drive, and with no modules asked for on
  the command line, \<open>_start\<close> runs to its idle loop, and the console is still open then.
\<close>

theorem start_kernel_idles:
  fixes s :: "'a kernel_scheme"
  assumes "fb_response bi = Some (x # xs)" and "options_fit bi" and "\<not> fb_lock (con s)" and "gdt s = gdt_initial"
    and "memory_ready l (MAX_RAMFS_NODES + 2) bi s"
    and "tar_at (ram s) a es" and "ramfs_nodes s = []" and "devices s = []"
    and "archive_size es < MAX_RAMFS_NODES" and "archive_ok es"
    and "e \<in> set es" and "\<not> tar_extension (te_type e)" and "str ''dev'' \<in> parent_dirs (sanitize_path (te_name e))"
    and "module_response bi = Some (a # ms)"
    and "ext2_type_place bi \<noteq> 0" and "sector_buf bi \<noteq> 0" and "no_drive (io_in s)"
    and "boot_modules_count (read_boot_cmdline (cmdline_response bi) (cmd s)) = 0"
  shows "\<exists>t p. start_kernel bi run s = Some t \<and> console_open p t"
proof -
  have "MAX_RAMFS_NODES + 2 \<le> 200000" by (simp add: MAX_RAMFS_NODES_def)
  then obtain w where
    w: "early_boot bi s = Some w" "node_room (MAX_RAMFS_NODES + 2) (below l w)" "\<not> fb_lock (con w)"
      "cmd w = read_boot_cmdline (cmdline_response bi) (cmd s)" "ram w = ram s" "ramfs_nodes w = ramfs_nodes s"
      "devices w = devices s" "io_in w = io_in s"
    by (rule early_boot_result [OF assms(1-5)])
  then obtain p s2 where m: "mount_filesystems bi w = Some s2" and o: "console_open p s2" and f: "io_in s2 = io_in w" "cmd s2 = cmd w"
    using mount_filesystems_opens [of w a es e bi ms] node_room_below [OF w(2)] assms(6-14) by auto
  have "no_drive (io_in s2)" "boot_modules_count (cmd s2) = 0" using assms(17,18) w f by simp_all
  then obtain s3 s4 s5 t where r: "init_storage bi s2 = Some s3" "banner s3 = Some s4" "load_boot_modules bi run 0 s4 = Some s4"
    "mount_disks bi s4 = Some s5" "say (debug (cmd s5)) ''Reached end of kernel.\<newline>'' 0xFF00FF [] s5 = Some t" "console_open p t"
    by (rule after_mount_idles [OF o assms(15,16)])
  have "start_kernel bi run s = Some t" using w(1) m r(1-5) by (simp add: start_kernel_def)
  with r(6) show ?thesis by blast
qed

text \<open>An archive that holds the directory \<open>dev/\<close> only, on an idle machine.\<close>

definition dev_ram :: memory where
  "dev_ram = (\<lambda>_. 0)(0xFFFF800005000000 := 0x64, 0xFFFF800005000001 := 0x65, 0xFFFF800005000002 := 0x76,
     0xFFFF800005000003 := 0x2F, 0xFFFF80000500009C := 0x35)"

definition dev_entry :: tar_entry where
  "dev_entry = \<lparr>te_name = str ''dev/'', te_type = 0x35, te_data = []\<rparr>"

definition kernel_zero :: kernel where
  "kernel_zero = arch.extend arch_zero (kernel.fields cmdline_zero)\<lparr>ram := dev_ram, cr3 := 0x4E31000\<rparr>"

definition sample_boot :: boot_info where
  "sample_boot = \<lparr>fb_response = None, cmdline_response = None, memmap_response = None, hhdm_response = None,
     module_response = Some [0xFFFF800005000000], kernel_start_addr = 0, kernel_end_addr = 0, entry_stubs = sample_stubs,
     idt_place = 0, tss_place = 0, stack_place = 0, gdt_place = 0, ext2_type_place = 0x9000, sector_buf = 0x8000,
     gpt_buf = 0, ext2_buf = 0, ksymtab = []\<rparr>"

lemma dev_tar: "tar_at dev_ram 0xFFFF800005000000 [dev_entry]"
proof -
  have u: "[0..<11] = [0, 1, 2, 3, 4, 5, 6, 7, 8, 9, 10]" by (simp add: upt_rec)
  have sz: "tar_size dev_ram 0xFFFF800005000000 = 0"
    by (simp add: tar_size_def bytes_at_def u oct2bin_def dev_ram_def)
  then have nx: "tar_next dev_ram 0xFFFF800005000000 = 0xFFFF800005000200" by (simp add: tar_next_def)
  show ?thesis
    by (simp add: sz nx dev_entry_def str_def tar_typeflag_def) (simp add: dev_ram_def)
qed

lemma kernel_zero_simps:
  "ram kernel_zero = dev_ram" "ramfs_nodes kernel_zero = []" "devices kernel_zero = []" "con kernel_zero = small_console"
  "hdrs kernel_zero = hdrs heap_boot" "head kernel_zero = head heap_boot"
  "heap_end kernel_zero = heap_end heap_boot" "page_count kernel_zero = page_count heap_boot"
  "bitmap kernel_zero = bitmap heap_boot" "bitmap_bytes kernel_zero = bitmap_bytes heap_boot"
  by (simp_all add: kernel_zero_def arch.defs kernel.defs arch_zero_def fds.defs fds_zero_def vfs.defs vfs_zero_simps)
    (simp add: vfs_zero_def blocks_zero_def ramfs_zero_def devfs_zero_def vnodes.defs devfs.defs ramfs.defs blocks.defs ext2.defs vfs.defs)

text \<open>
  80 MB of memory: the bitmap is put into the one usable region, and the boot loader's memory
  with the top-level page table lies behind it; the module is at the end.
\<close>

definition boot_map :: "memmap_entry list" where
  "boot_map = [\<lparr>memmap_entry.base = 0x1000, len = 0x4E20000, mtype = ACPI_RECLAIMABLE\<rparr>,
     \<lparr>memmap_entry.base = 0x4E21000, len = 0x10000, mtype = USABLE\<rparr>,
     \<lparr>memmap_entry.base = 0x4E31000, len = 0x100000, mtype = BOOTLOADER_RECLAIMABLE\<rparr>,
     \<lparr>memmap_entry.base = 0x5000000, len = 0x1000, mtype = OTHER_TYPE 6\<rparr>]"

definition full_boot :: boot_info where
  "full_boot = sample_boot\<lparr>fb_response := Some [(0xFD000000, 640, 400, 2560, 32)], cmdline_response := Some (Some (str ''--debug'')),
     memmap_response := Some boot_map, hhdm_response := Some 0xFFFF800000000000,
     kernel_start_addr := 0xFFFFFFFF80000000, kernel_end_addr := 0xFFFFFFFF80100000\<rparr>"

lemma boot_map_simps: "highest_end boot_map 0 = 0x5001000"
  "List.map (\<lambda>e. (entry_start e, entry_end e, mtype e)) boot_map = [(0x1000, 0x4E21000, ACPI_RECLAIMABLE),
     (0x4E21000, 0x4E31000, USABLE), (0x4E31000, 0x4F31000, BOOTLOADER_RECLAIMABLE), (0x5000000, 0x5001000, OTHER_TYPE 6)]"
  by (simp_all add: boot_map_def entry_start_def entry_end_def align_up_4k_def align_down_4k_def page_base_code)

lemma kernel_zero_boot:
  "cr3 kernel_zero = 0x4E31000" "ptes kernel_zero = (\<lambda>_. 0)" "heap_end kernel_zero = HEAP_START" "before_threads kernel_zero"
  "gdt kernel_zero = gdt_initial" "io_in kernel_zero = (\<lambda>_ _. 0)"
  by (simp_all add: kernel_zero_def arch.defs kernel.defs arch_zero_def fds.defs fds_zero_def vfs.defs vfs_zero_def blocks_zero_def
      ramfs_zero_def devfs_zero_def vnodes.defs devfs.defs ramfs.defs blocks.defs ext2.defs vnodes_zero_def machine.defs
      machine_zero_def sched_zero_def sched.defs heap.defs heap_boot_def before_threads_def)
    (simp add: HEAP_START_def)

lemma pmm_more_vmm:
  fixes s t :: "'a vmm_scheme"
  shows "pmm.more t = pmm.more s \<Longrightarrow> cr3 t = cr3 s" "pmm.more t = pmm.more s \<Longrightarrow> ptes t = ptes s"
  by (cases s, cases t, simp)+

lemma boot_map_loader: "a \<in> loader_memory full_boot \<longleftrightarrow> 0x4E31000 \<le> unat a \<and> unat a < 0x4F31000"
proof -
  have "{e. memmap_response full_boot \<noteq> None \<and> e \<in> set (the (memmap_response full_boot)) \<and> mtype e = BOOTLOADER_RECLAIMABLE} =
      {\<lparr>memmap_entry.base = 0x4E31000, len = 0x100000, mtype = BOOTLOADER_RECLAIMABLE\<rparr>}"
    by (auto simp: full_boot_def boot_map_def)
  then show ?thesis by (simp add: loader_memory_def)
qed

lemma boot_map_regions: "(\<exists>e \<in> set boot_map. P (entry_start e) (entry_end e) (mtype e)) \<longleftrightarrow>
    P 0x1000 0x4E21000 ACPI_RECLAIMABLE \<or> P 0x4E21000 0x4E31000 USABLE \<or>
    P 0x4E31000 0x4F31000 BOOTLOADER_RECLAIMABLE \<or> P 0x5000000 0x5001000 (OTHER_TYPE 6)"
proof -
  have "(\<exists>e \<in> set boot_map. P (entry_start e) (entry_end e) (mtype e)) \<longleftrightarrow>
      (\<exists>(a, b, c) \<in> set (List.map (\<lambda>e. (entry_start e, entry_end e, mtype e)) boot_map). P a b c)" by auto
  also have "\<dots> \<longleftrightarrow> P 0x1000 0x4E21000 ACPI_RECLAIMABLE \<or> P 0x4E21000 0x4E31000 USABLE \<or>
    P 0x4E31000 0x4F31000 BOOTLOADER_RECLAIMABLE \<or> P 0x5000000 0x5001000 (OTHER_TYPE 6)"
    unfolding boot_map_simps(2) by simp
  finally show ?thesis .
qed

lemma full_boot_memory: "memory_ready 2500 (MAX_RAMFS_NODES + 2) full_boot kernel_zero"
proof -
  let ?off = "0xFFFF800000000000" and ?ks = "0xFFFFFFFF80000000" and ?ke = "0xFFFFFFFF80100000"
  have n: "20481 = align_up_4k (highest_end boot_map 0) div (4096 :: u64)"
    by (simp add: boot_map_simps(1) align_up_4k_def page_base_code)
  have "choose_region (kernel_zero\<lparr>hhdm_offset := ?off, kernel_start := ?ks, kernel_end := ?ke, page_count := 20481,
      bitmap_bytes := (20481 + 7) div 8, bitmap_pages := align_up_4k ((20481 + 7) div 8) div 4096\<rparr>) boot_map = Some 0x4E21000"
    by (simp add: boot_map_def entry_start_def entry_end_def align_up_4k_def align_down_4k_def page_base_code
        region_overlaps_kernel_def)
  from init_pmm_total [OF n this] obtain t where
    t: "init_pmm (Some boot_map) (Some ?off) ?ks ?ke kernel_zero = Some t" by blast
  note r = init_pmm_result [OF t]
  have big: "unat (highest_end boot_map 0) + 4095 < 2 ^ 64" by (simp add: boot_map_simps(1))
  have r4: "page_count t = 20481" "bitmap_pages t = 1"
    using r(4-6) unfolding n [symmetric] by (simp_all add: align_up_4k_def page_base_code)
  have r7: "bitmap_phys t = 0x4E21000"
    using r(7) r4 by (simp add: boot_map_def entry_start_def entry_end_def align_up_4k_def align_down_4k_def page_base_code
        region_overlaps_kernel_def r(2,3))
  have cov: "covered reclaimable t boot_map i \<longleftrightarrow> 1 \<le> unat i \<and> unat i < 20273" for i
  proof -
    have "covered reclaimable t boot_map i \<longleftrightarrow> (4096 \<le> unat i * 4096 \<and> unat i * 4096 < 81924096) \<or>
        (81924096 \<le> unat i * 4096 \<and> unat i * 4096 < 81989632) \<or> (81989632 \<le> unat i * 4096 \<and> unat i * 4096 < 83038208)"
      unfolding covered_def boot_map_regions [where P = "\<lambda>a b c. reclaimable c \<and> \<not> region_overlaps_kernel t a b \<and>
        unat a \<le> unat i * 4096 \<and> unat i * 4096 < unat b"]
      by (simp add: reclaimable_def region_overlaps_kernel_def r(2,3))
    then show ?thesis by linarith
  qed
  have free: "page_free t i \<longleftrightarrow> 0 < i \<and> i < 20273" for i
    unfolding init_pmm_pages(1) [OF t big] cov by (auto simp: word_less_nat_alt)
  have more: "pmm.more t = pmm.more kernel_zero" using init_pmm_local [OF t refl] t by simp
  note pmm_more_vmm [OF more]
  note f = this [unfolded kernel_zero_boot] r(1) r4 r7
  define v where "v = t\<lparr>pml4 := ?off + 0x4E31000\<rparr>"
  have v: "init_vmm t = Some v" by (simp add: init_vmm_def v_def f phys_to_virt_def page_base_code)
  have e: "ptes v = (\<lambda>_. 0)" "pml4 v = ?off + 0x4E31000" "hhdm_offset v = ?off" "page_count v = 20481" "bitmap_phys v = 0x4E21000"
    "bitmap_pages v = 1" "page_free v i \<longleftrightarrow> 0 < i \<and> i < 20273" for i
    using free by (simp_all add: v_def f page_free_def)
  have tb: "tab v q = (if q = [] then Some (?off + 0x4E31000) else None)" for q
    by (cases q) (simp_all add: tab_def next_table_def e)
  let ?w = "below_or_bitmap 2500 v"
  have tw: "tab ?w q = tab v q" for q by (rule walk_cong) simp_all
  have wf: "pmm_wf v" using init_pmm_pages(2) [OF t big] by (simp add: pmm_wf_def v_def)
  have "0x4E31000 \<notin> free_frames ?w"
  proof
    assume "0x4E31000 \<in> free_frames ?w"
    then obtain i where i: "page_free ?w i" "0x4E31000 = i * 4096" by (auto simp: free_frames_def)
    have "pmm_wf ?w" using wf by simp
    from page_free_bound [OF this i(1)] i(2) have "i = 0x4E31" using frame_addr_inj [of "0x4E31" i] by simp
    with i(1) show False by (simp add: page_free_below_or_bitmap bitmap_area_def e)
  qed
  then have "vmm_inv ?w" using wf
    by (auto simp: vmm_inv_def tw tb direct_map_ok_def page_aligned_def e split: if_splits)
  moreover have "path_4k v x" for x by (simp add: path_4k_def huge_at_def tb e)
  moreover have "card {f \<in> free_frames v. unat f < frame_limit 2500} = 19999"
  proof -
    have "page_free (below 2500 v) i \<longleftrightarrow> 0 < i \<and> i < 20000" for i
      by (auto simp: page_free_below e word_less_nat_alt)
    from card_free_frames [OF this] show ?thesis by (simp add: free_frames_below [OF wf])
  qed
  moreover have "\<forall>a \<in> loader_memory full_boot. frame_limit 2500 \<le> unat a" by (simp add: boot_map_loader)
  ultimately show ?thesis
    using t v kernel_zero_boot(3,4) unfolding memory_ready_def
    by (simp add: full_boot_def MAX_RAMFS_NODES_def e)
qed

lemma full_boot_simps:
  "fb_response full_boot = Some [(0xFD000000, 640, 400, 2560, 32)]" "module_response full_boot = Some [0xFFFF800005000000]"
  "options_fit full_boot" "\<not> fb_lock (con kernel_zero)" "entry_stubs full_boot = sample_stubs"
  by (simp_all add: full_boot_def sample_boot_def options_fit_def str_def kernel_zero_simps small_console_def)

lemma early_boot_ready_witness:
  "0x4E31000 \<in> loader_memory full_boot \<and> (\<exists>w. early_boot full_boot kernel_zero = Some w \<and> sched_ok w \<and>
    heap_on_frames {f. unat f < frame_limit 2500} w \<and> node_room 130 (below 2500 w) \<and> interrupts (con w))"
  using early_boot_ready [OF full_boot_simps(1,3,4) kernel_zero_boot(5) full_boot_memory]
  by (simp add: MAX_RAMFS_NODES_def boot_map_loader) blast

lemma dev_archive:
  "archive_size [dev_entry] < MAX_RAMFS_NODES" "archive_ok [dev_entry]" "\<not> tar_extension (te_type dev_entry)"
  "str ''dev'' \<in> parent_dirs (sanitize_path (te_name dev_entry))"
proof -
  have n: "sanitize_path (te_name dev_entry) = str ''dev/''" by (simp add: dev_entry_def str_def)
  have "parent_dirs (str ''dev/'') = {str ''dev''}"
    by (auto simp: parent_dirs_def str_def Cons_eq_append_conv)
  then show "str ''dev'' \<in> parent_dirs (sanitize_path (te_name dev_entry))" unfolding n by simp
  show "\<not> tar_extension (te_type dev_entry)" by (simp add: tar_extension_def dev_entry_def)
  show "archive_ok [dev_entry]" by (simp add: archive_ok_def regular_def dev_entry_def)
  show "archive_size [dev_entry] < MAX_RAMFS_NODES"
    by (simp add: archive_size_def dev_entry_def str_def MAX_RAMFS_NODES_def)
qed

lemma start_reaches_console_witness:
  "\<exists>s1 s2 p. early_boot full_boot kernel_zero = Some s1 \<and> mount_filesystems full_boot s1 = Some s2 \<and>
    p \<noteq> 0 \<and> fd_get_node 1 s2 = p"
proof -
  have e: "dev_entry \<in> set [dev_entry]" by simp
  have at: "tar_at (ram kernel_zero) 0xFFFF800005000000 [dev_entry]" using dev_tar by (simp add: kernel_zero_simps)
  from start_reaches_console [OF full_boot_simps(1,3,4) kernel_zero_boot(5) full_boot_memory at kernel_zero_simps(2,3)
      dev_archive(1,2) e dev_archive(3,4) full_boot_simps(2)]
  show ?thesis by auto
qed

lemma start_kernel_idles_witness:
  "\<exists>t p. start_kernel full_boot (\<lambda>_ s. Some s) kernel_zero = Some t \<and> console_open p t"
proof -
  have e: "dev_entry \<in> set [dev_entry]" by simp
  have at: "tar_at (ram kernel_zero) 0xFFFF800005000000 [dev_entry]" using dev_tar by (simp add: kernel_zero_simps)
  have b: "ext2_type_place full_boot \<noteq> 0" "sector_buf full_boot \<noteq> 0"
    "cmdline_response full_boot = Some (Some (str ''--debug''))" "cmd kernel_zero = cmdline_zero"
    by (simp_all add: full_boot_def sample_boot_def kernel_zero_def arch.defs kernel.defs)
  have io: "no_drive (io_in kernel_zero)" by (simp add: no_drive_def kernel_zero_boot(6))
  have "boot_modules_count (read_boot_cmdline (Some (Some (str ''--debug''))) cmdline_zero) = 0" by code_simp
  then have m: "boot_modules_count (read_boot_cmdline (cmdline_response full_boot) (cmd kernel_zero)) = 0" by (simp add: b)
  show ?thesis
    by (rule start_kernel_idles [OF full_boot_simps(1,3,4) kernel_zero_boot(5) full_boot_memory at kernel_zero_simps(2,3)
      dev_archive(1,2) e dev_archive(3,4) full_boot_simps(2) b(1,2) io m])
qed

end
