(* ===== verification/Stubs.thy ===== *)
theory Stubs
  imports Interrupts
begin

text \<open>
  The entry stubs of \<open>arch/x86_64/isr.asm\<close>: what the processor and a stub push onto the kernel
  stack is the frame the C handler gets a pointer to, and what is popped when the handler comes
  back is where the interrupted code goes on. The timer's stub is left out: there the handler
  switches stacks, see \<open>Scheduler\<close>.
\<close>


subsection \<open>Registers and the stack\<close>

text \<open>The general registers in the order of the members of the frame: rax, rbx, and so on to r15.\<close>

record core =
  gprs :: "u64 list"
  c_rip :: u64
  c_cs :: u64
  c_rflags :: u64
  c_rsp :: u64
  c_ss :: u64

text \<open>The interrupt, up to the first instruction of the stub; some exceptions come with an error code.\<close>

definition cpu_enter :: "u64 option \<Rightarrow> core \<Rightarrow> u64 \<times> (u64 \<Rightarrow> u64) \<Rightarrow> u64 \<times> (u64 \<Rightarrow> u64)" where
  "cpu_enter err c st =
     (let st1 = store_below (c_rip c) (store_below (c_cs c) (store_below (c_rflags c)
        (store_below (c_rsp c) (store_below (c_ss c) st))))
      in case err of None \<Rightarrow> st1 | Some e \<Rightarrow> store_below e st1)"

definition PUSH_REGS :: "core \<Rightarrow> u64 \<times> (u64 \<Rightarrow> u64) \<Rightarrow> u64 \<times> (u64 \<Rightarrow> u64)" where
  "PUSH_REGS c = fold store_below (rev (gprs c))"

text \<open>\<open>ISR_NOERR\<close>, \<open>irq1\<close> and \<open>isr128\<close> push a 0 in place of the error code.\<close>

definition stub_enter :: "u64 \<Rightarrow> u64 option \<Rightarrow> core \<Rightarrow> u64 \<times> (u64 \<Rightarrow> u64) \<Rightarrow> u64 \<times> (u64 \<Rightarrow> u64)" where
  "stub_enter vec err c st =
     (let st1 = cpu_enter err c st; st2 = (if err = None then store_below 0 st1 else st1)
      in PUSH_REGS c (store_below vec st2))"

text \<open>The frame at an address, as the handler reads it, and as it leaves it.\<close>

definition word_at :: "(u64 \<Rightarrow> u64) \<Rightarrow> u64 \<Rightarrow> nat \<Rightarrow> u64" where
  "word_at m p i = m (p + 8 * of_nat i)"

definition frame_at :: "(u64 \<Rightarrow> u64) \<Rightarrow> u64 \<Rightarrow> interrupt_frame" where
  "frame_at m p =
     \<lparr>rax = word_at m p 0, rbx = word_at m p 1, rcx = word_at m p 2, rdx = word_at m p 3,
      rsi = word_at m p 4, rdi = word_at m p 5, rbp = word_at m p 6, r8 = word_at m p 7,
      r9 = word_at m p 8, r10 = word_at m p 9, r11 = word_at m p 10, r12 = word_at m p 11,
      r13 = word_at m p 12, r14 = word_at m p 13, r15 = word_at m p 14,
      vector = word_at m p 15, error_code = word_at m p 16, rip = word_at m p 17, cs = word_at m p 18,
      rflags = word_at m p 19, rsp = word_at m p 20, ss = word_at m p 21\<rparr>"

definition frame_words :: "interrupt_frame \<Rightarrow> u64 list" where
  "frame_words f =
     [rax f, rbx f, rcx f, rdx f, rsi f, rdi f, rbp f, r8 f, r9 f, r10 f, r11 f, r12 f, r13 f, r14 f, r15 f,
      vector f, error_code f, interrupt_frame.rip f, cs f, rflags f, interrupt_frame.rsp f, ss f]"

definition put_frame :: "u64 \<Rightarrow> interrupt_frame \<Rightarrow> (u64 \<Rightarrow> u64) \<Rightarrow> (u64 \<Rightarrow> u64)" where
  "put_frame p f m = fold (\<lambda>i m. m(p + 8 * of_nat i := frame_words f ! i)) [0..<22] m"

text \<open>\<open>POP_REGS\<close>, \<open>add rsp, 16\<close> and \<open>iretq\<close>.\<close>

definition stub_leave :: "u64 \<times> (u64 \<Rightarrow> u64) \<Rightarrow> core" where
  "stub_leave st =
     (case st of (p, m) \<Rightarrow>
        let q = p + 8 * 15 + 16 in
        \<lparr>gprs = map (word_at m p) [0..<15], c_rip = word_at m q 0, c_cs = word_at m q 1,
         c_rflags = word_at m q 2, c_rsp = word_at m q 3, c_ss = word_at m q 4\<rparr>)"

definition run_stub ::
  "u64 \<Rightarrow> u64 option \<Rightarrow> (interrupt_frame \<Rightarrow> 's \<Rightarrow> (interrupt_frame \<times> 's) option) \<Rightarrow>
   core \<Rightarrow> u64 \<times> (u64 \<Rightarrow> u64) \<Rightarrow> 's \<Rightarrow> (core \<times> 's) option" where
  "run_stub vec err handler c st s =
     (let (p, m) = stub_enter vec err c st in do {
        (f, s1) \<leftarrow> handler (frame_at m p) s;
        Some (stub_leave (p, put_frame p f m), s1) })"

text \<open>The stubs; a handler without a result leaves the frame as it is.\<close>

definition keep_frame :: "(interrupt_frame \<Rightarrow> 's \<Rightarrow> 's option) \<Rightarrow> interrupt_frame \<Rightarrow> 's \<Rightarrow> (interrupt_frame \<times> 's) option" where
  "keep_frame handler f s = map_option (Pair f) (handler f s)"

definition isr_noerr :: "u64 \<Rightarrow> u64 \<Rightarrow> core \<Rightarrow> u64 \<times> (u64 \<Rightarrow> u64) \<Rightarrow> 'a arch_scheme \<Rightarrow> (core \<times> 'a arch_scheme) option" where
  "isr_noerr cr2 vec = run_stub vec None (keep_frame (exception_handler cr2))"

definition isr_err :: "u64 \<Rightarrow> u64 \<Rightarrow> u64 \<Rightarrow> core \<Rightarrow> u64 \<times> (u64 \<Rightarrow> u64) \<Rightarrow> 'a arch_scheme \<Rightarrow> (core \<times> 'a arch_scheme) option" where
  "isr_err cr2 vec err = run_stub vec (Some err) (keep_frame (exception_handler cr2))"

definition irq1_stub :: "core \<Rightarrow> u64 \<times> (u64 \<Rightarrow> u64) \<Rightarrow> 'a arch_scheme \<Rightarrow> (core \<times> 'a arch_scheme) option" where
  "irq1_stub = run_stub 33 None (keep_frame irq_handler)"

definition isr128_stub :: "bool \<Rightarrow> core \<Rightarrow> u64 \<times> (u64 \<Rightarrow> u64) \<Rightarrow> 'a fds_scheme \<Rightarrow> (core \<times> 'a fds_scheme) option" where
  "isr128_stub debug = run_stub 128 None (syscall_handler debug)"


subsection \<open>Through the stack and back\<close>

text \<open>What the handler sees of the registers, and what it makes of them.\<close>

definition frame_of :: "u64 \<Rightarrow> u64 option \<Rightarrow> core \<Rightarrow> interrupt_frame" where
  "frame_of vec err c = (let g = gprs c in
     \<lparr>rax = g ! 0, rbx = g ! 1, rcx = g ! 2, rdx = g ! 3, rsi = g ! 4, rdi = g ! 5, rbp = g ! 6, r8 = g ! 7,
      r9 = g ! 8, r10 = g ! 9, r11 = g ! 10, r12 = g ! 11, r13 = g ! 12, r14 = g ! 13, r15 = g ! 14,
      vector = vec, error_code = (case err of None \<Rightarrow> 0 | Some e \<Rightarrow> e), rip = c_rip c, cs = c_cs c,
      rflags = c_rflags c, rsp = c_rsp c, ss = c_ss c\<rparr>)"

definition core_of :: "interrupt_frame \<Rightarrow> core" where
  "core_of f = \<lparr>gprs = take 15 (frame_words f), c_rip = interrupt_frame.rip f, c_cs = cs f, c_rflags = rflags f,
     c_rsp = interrupt_frame.rsp f, c_ss = ss f\<rparr>"

definition holds :: "(u64 \<Rightarrow> u64) \<Rightarrow> u64 \<Rightarrow> u64 list \<Rightarrow> bool" where
  "holds m p ws \<longleftrightarrow> length ws < 2 ^ 32 \<and> (\<forall>i < length ws. word_at m p i = ws ! i)"

lemma offset_eq:
  assumes "i < 2 ^ 32" "j < 2 ^ 32"
  shows "p + 8 * of_nat i = p + 8 * (of_nat j :: u64) \<longleftrightarrow> i = j"
proof -
  have "unat (8 * of_nat k :: u64) = 8 * k" if "k < 2 ^ 32" for k
    using that by (simp add: unat_word_ariths unat_of_nat)
  then show ?thesis using assms by (metis add_left_cancel nat_mult_eq_cancel1 zero_less_numeral)
qed

lemma holds_push:
  assumes "holds m p ws" "Suc (length ws) < 2 ^ 32"
  shows "holds (m(p - 8 := w)) (p - 8) (w # ws)"
proof -
  have "word_at (m(p - 8 := w)) (p - 8) i = (w # ws) ! i" if i: "i < Suc (length ws)" for i
  proof (cases i)
    case (Suc j)
    have "p - 8 + 8 * of_nat i \<noteq> p - 8 + 8 * (of_nat 0 :: u64)"
      using offset_eq [of i 0 "p - 8"] i assms(2) Suc by simp
    then have "word_at (m(p - 8 := w)) (p - 8) i = m (p - 8 + 8 * of_nat i)" by (simp add: word_at_def)
    also have "\<dots> = word_at m p j" by (simp add: word_at_def Suc algebra_simps)
    finally show ?thesis using assms(1) i Suc by (simp add: holds_def)
  qed (simp add: word_at_def)
  with assms(2) show ?thesis by (simp add: holds_def)
qed

lemma holds_push_list:
  "holds m p ws \<Longrightarrow> length vs + length ws < 2 ^ 32 \<Longrightarrow> fold store_below vs (p, m) = (q, m') \<Longrightarrow> holds m' q (rev vs @ ws)"
proof (induction vs arbitrary: p m ws)
  case (Cons v vs)
  have h: "holds (m(p - 8 := v)) (p - 8) (v # ws)" using Cons.prems by (intro holds_push) simp_all
  have "store_below v (p, m) = (p - 8, m(p - 8 := v))" by (simp add: store_below_def)
  then have "fold store_below vs (p - 8, m(p - 8 := v)) = (q, m')" using Cons.prems(3) by simp
  from Cons.IH [OF h _ this] Cons.prems(2) show ?case by simp
qed simp

lemma stub_enter_holds:
  assumes "length (gprs c) = 15" "stub_enter vec err c (p, m) = (q, m')"
  shows "holds m' q (frame_words (frame_of vec err c))"
proof -
  define vs where "vs = [c_ss c, c_rsp c, c_rflags c, c_cs c, c_rip c, (case err of None \<Rightarrow> 0 | Some e \<Rightarrow> e), vec] @ rev (gprs c)"
  have "fold store_below vs (p, m) = (q, m')"
    using assms(2) by (cases err) (simp_all add: vs_def stub_enter_def cpu_enter_def PUSH_REGS_def)
  then have "holds m' q (rev vs @ [])"
    using assms(1) by (intro holds_push_list [of m p]) (simp_all add: vs_def holds_def)
  moreover have "[0..<15] = [0, 1, 2, 3, 4, 5, 6, 7, 8, 9, 10, 11, 12, 13, 14]" by (simp add: upt_rec)
  then have "gprs c = map ((!) (gprs c)) [0, 1, 2, 3, 4, 5, 6, 7, 8, 9, 10, 11, 12, 13, 14]"
    using assms(1) map_nth [of "gprs c"] by metis
  then have "rev vs = frame_words (frame_of vec err c)"
    by (simp add: vs_def frame_words_def frame_of_def Let_def)
  ultimately show ?thesis by simp
qed

lemma frame_at_holds: "holds m p (frame_words f) \<Longrightarrow> frame_at m p = f"
proof -
  assume h: "holds m p (frame_words f)"
  have "word_at m p i = frame_words f ! i" if "i < 22" for i
    using h that by (simp add: holds_def frame_words_def)
  then show ?thesis by (simp add: frame_at_def frame_words_def)
qed

lemma put_frame_holds: "holds (put_frame p f m) p (frame_words f)"
proof -
  let ?g = "\<lambda>i m. m(p + 8 * of_nat i := frame_words f ! i)"
  have l: "length (frame_words f) = 22" by (simp add: frame_words_def)
  have "n \<le> 22 \<Longrightarrow> i < n \<Longrightarrow> word_at (fold ?g [0..<n] m) p i = frame_words f ! i" for n i
  proof (induction n)
    case (Suc n)
    show ?case
    proof (cases "i = n")
      case False
      then have "p + 8 * of_nat i \<noteq> p + 8 * (of_nat n :: u64)" using Suc.prems by (subst offset_eq) auto
      then show ?thesis using Suc False by (simp add: word_at_def)
    qed (simp add: word_at_def)
  qed simp
  then show ?thesis by (simp add: holds_def put_frame_def l)
qed

lemma stub_leave_holds:
  assumes "holds m p (frame_words f)"
  shows "stub_leave (p, m) = core_of f"
proof -
  have w: "word_at m p i = frame_words f ! i" if "i < 22" for i
    using assms that by (simp add: holds_def frame_words_def)
  have q: "word_at m (p + 8 * 15 + 16) i = word_at m p (17 + i)" for i
    by (simp add: word_at_def algebra_simps)
  have "map (word_at m p) [0..<15] = map ((!) (frame_words f)) [0..<15]" by (rule map_cong) (simp_all add: w)
  also have "\<dots> = take 15 (frame_words f)" by (simp add: frame_words_def upt_rec)
  finally show ?thesis
    unfolding stub_leave_def core_of_def prod.case Let_def q by (simp add: w) (simp add: frame_words_def)
qed

lemma run_stub_frame:
  assumes "length (gprs c) = 15"
  shows "run_stub vec err handler c st s =
    map_option (\<lambda>(f, s1). (core_of f, s1)) (handler (frame_of vec err c) s)"
proof -
  obtain p m q m' where e: "st = (p, m)" "stub_enter vec err c (p, m) = (q, m')"
    by (cases st, cases "stub_enter vec err c st") auto
  have "frame_at m' q = frame_of vec err c" by (rule frame_at_holds [OF stub_enter_holds [OF assms e(2)]])
  moreover have "stub_leave (q, put_frame q f m') = core_of f" for f by (rule stub_leave_holds [OF put_frame_holds])
  ultimately show ?thesis
    by (simp add: run_stub_def e map_option_case split: option.split)
qed


subsection \<open>System calls\<close>

lemma syscall_frame:
  "syscall_handler debug f s = Some (f', s') \<Longrightarrow> f' = f\<lparr>rax := rax f'\<rparr>"
  by (auto simp: syscall_handler_def sys_exit_def bind_eq_Some_conv split: if_splits)

lemma core_of_frame_of:
  "length (gprs c) = 15 \<Longrightarrow> core_of ((frame_of vec err c)\<lparr>rax := x\<rparr>) = c\<lparr>gprs := (gprs c)[0 := x]\<rparr>"
proof -
  assume l: "length (gprs c) = 15"
  have "[0..<15] = [0, 1, 2, 3, 4, 5, 6, 7, 8, 9, 10, 11, 12, 13, 14]" by (simp add: upt_rec)
  then have g: "gprs c = map ((!) (gprs c)) [0, 1, 2, 3, 4, 5, 6, 7, 8, 9, 10, 11, 12, 13, 14]"
    using l map_nth [of "gprs c"] by metis
  have "take 15 (frame_words ((frame_of vec err c)\<lparr>rax := x\<rparr>)) = (gprs c)[0 := x]"
    using arg_cong [OF g, of "\<lambda>l. l[0 := x]"] by (simp add: frame_words_def frame_of_def Let_def)
  then show ?thesis by (simp add: core_of_def frame_of_def Let_def)
qed

lemma isr128_returns:
  assumes "length (gprs c) = 15"
  shows "isr128_stub debug c st s =
    map_option (\<lambda>(f, s1). (c\<lparr>gprs := (gprs c)[0 := rax f]\<rparr>, s1)) (syscall_handler debug (frame_of 128 None c) s)"
proof (cases "syscall_handler debug (frame_of 128 None c) s")
  case (Some r)
  obtain f s1 where r: "r = (f, s1)" by (cases r)
  have "f = (frame_of 128 None c)\<lparr>rax := rax f\<rparr>" using syscall_frame Some r by blast
  then have "core_of f = c\<lparr>gprs := (gprs c)[0 := rax f]\<rparr>" using core_of_frame_of [OF assms, where x = "rax f" and vec = 128 and err = None] by simp
  with Some r show ?thesis by (simp add: isr128_stub_def run_stub_frame [OF assms])
qed (simp add: isr128_stub_def run_stub_frame [OF assms])


subsection \<open>Properties\<close>

text \<open>
  C37. A system call and a key press are transparent to the interrupted program: whatever the
  stack holds, going through the stub is the same as handing the handler the registers as a
  record, and the program goes on where it was with all its registers as they were, except for
  the result of a system call in rax.
\<close>

theorem stubs_restore:
  fixes s :: "'a arch_scheme"
  assumes "length (gprs c) = 15"
  shows "isr128_stub debug c st s =
      map_option (\<lambda>(f, s1). (c\<lparr>gprs := (gprs c)[0 := rax f]\<rparr>, s1)) (syscall_handler debug (frame_of 128 None c) s) \<and>
    irq1_stub c st s = map_option (\<lambda>s1. (c, s1)) (irq_handler (frame_of 33 None c) s)"
proof
  have "(frame_of 33 None c)\<lparr>rax := gprs c ! 0\<rparr> = frame_of 33 None c" by (simp add: frame_of_def Let_def)
  then have "core_of (frame_of 33 None c) = c"
    using core_of_frame_of [OF assms, where x = "gprs c ! 0" and vec = 33 and err = None] by simp
  then show "irq1_stub c st s = map_option (\<lambda>s1. (c, s1)) (irq_handler (frame_of 33 None c) s)"
    by (simp add: irq1_stub_def run_stub_frame [OF assms] keep_frame_def option.map_comp comp_def)
qed (rule isr128_returns [OF assms])

definition sample_core :: core where
  "sample_core = \<lparr>gprs = 1 # replicate 14 7, c_rip = 0x400000, c_cs = 0x23, c_rflags = 0x202, c_rsp = 0x7FFFFFFF0000, c_ss = 0x1B\<rparr>"

lemma stubs_restore_witness:
  "isr128_stub False sample_core (0x9000, \<lambda>_. 0) arch_zero = Some (sample_core\<lparr>gprs := 0 # replicate 14 7\<rparr>, arch_zero)"
proof -
  have "rax (frame_of 128 None sample_core) = 1" by (simp add: frame_of_def sample_core_def Let_def)
  from syscall_cases(2) [OF this, of False arch_zero] show ?thesis
    using stubs_restore [of sample_core False "(0x9000, \<lambda>_. 0)" arch_zero] by (simp add: sample_core_def)
qed

end
