(* ===== verification/FileTypes.thy ===== *)
theory FileTypes
  imports Boot
begin

text \<open>
  The members of nodes that hold functions are called through pointers: \<open>fs/vfs.c\<close> and
  \<open>drivers/fb.c\<close> test them for NULL only. Here every operation on files is shown to store
  nothing but functions of the member's type in the nodes it hands out, and to follow no other
  pointers to nodes than those handed out, so that no call through a node goes wrong. What lies
  at all other addresses, and what fresh memory from the heap holds, is arbitrary.
\<close>


subsection \<open>Typed nodes\<close>

text \<open>Each member holds NULL or a function of its type, and the name fits its 128 characters.\<close>

definition typed_node :: "vfs_node \<Rightarrow> bool" where
  "typed_node v \<longleftrightarrow> fread v \<in> {NULL_FN, RAMFS_READ} \<and> fwrite v \<in> {NULL_FN, FB_VFS_WRITE} \<and>
     finddir v \<in> {NULL_FN, RAMFS_FINDDIR, DEVFS_FINDDIR} \<and>
     fopen v = NULL_FN \<and> fclose v = NULL_FN \<and> readdir v = NULL_FN \<and> length (vname v) < 128"

text \<open>A mount point leads to NULL or to one of the nodes \<open>K\<close>.\<close>

definition good_node :: "u64 set \<Rightarrow> vfs_node \<Rightarrow> bool" where
  "good_node K v \<longleftrightarrow> typed_node v \<and> (is_mountpoint v \<longrightarrow> ptr v \<in> insert 0 K)"

text \<open>
  \<open>K\<close> are the nodes handed out so far. They are typed, and every pointer the kernel keeps in
  its tables, the file descriptors and its mount points is one of them or NULL. The tables of
  devices and of the initial file system hold no NULL.
\<close>

definition files_typed :: "u64 set \<Rightarrow> 'a fds_scheme \<Rightarrow> bool" where
  "files_typed K s \<longleftrightarrow> 0 \<notin> K \<and> (\<forall>p \<in> K. good_node K (nodes s p)) \<and>
     set (devices s) \<subseteq> K \<and> set (ramfs_nodes s) \<subseteq> K \<and> fs_root s \<in> insert 0 K \<and>
     (\<forall>i < MAX_OPEN_FILES. fd_node (fd_table s i) \<in> insert 0 K)"

text \<open>The parts of the state it depends on.\<close>

definition tables :: "'a fds_scheme \<Rightarrow> (u64 \<Rightarrow> vfs_node) \<times> u64 list \<times> u64 list \<times> u64 \<times> u64 \<times> (nat \<Rightarrow> file_descriptor)" where
  "tables s = (nodes s, devices s, ramfs_nodes s, ramfs_root s, fs_root s, fd_table s)"

lemma files_typed_same: "files_typed K s \<Longrightarrow> tables t = tables s \<Longrightarrow> files_typed K t"
  by (simp add: files_typed_def tables_def)

lemma tables_update [simp]:
  "tables (s\<lparr>con := c\<rparr>) = tables s" "tables (s\<lparr>ram := m\<rparr>) = tables s"
  "tables (s\<lparr>block_devices := b\<rparr>) = tables s" "tables (s\<lparr>num_block_devices := n\<rparr>) = tables s"
  "tables (s\<lparr>ext2_fs_at := e\<rparr>) = tables s" "tables (s\<lparr>fs_types := f\<rparr>) = tables s"
  "tables (s\<lparr>fs_types_head := p\<rparr>) = tables s"
  by (simp_all add: tables_def)

lemma heap_more_tables: "heap.more t = heap.more s \<Longrightarrow> tables t = tables s" for s t :: "'a fds_scheme"
  by (cases s; cases t) (simp add: tables_def)

lemma machine_more_tables: "machine.more t = machine.more s \<Longrightarrow> tables t = tables s" for s t :: "'a fds_scheme"
  by (cases s; cases t) (simp add: tables_def)

lemma kmalloc_tables: "kmalloc n s = Some (p, t) \<Longrightarrow> tables t = tables (s :: 'a fds_scheme)"
  by (rule heap_more_tables [OF kmalloc_more])

lemma kfree_tables: "kfree p s = Some t \<Longrightarrow> tables t = tables (s :: 'a fds_scheme)"
  by (rule heap_more_tables [OF kfree_more])

lemma not_mountpoint: "\<not> is_mountpoint (v\<lparr>flags := FS_DIRECTORY\<rparr>)" "\<not> is_mountpoint (v\<lparr>flags := FS_CHARDEVICE\<rparr>)"
  "\<not> is_mountpoint (v\<lparr>flags := FS_FILE\<rparr>)"
  by (simp_all add: is_mountpoint_def FS_MOUNTPOINT_def FS_DIRECTORY_def FS_CHARDEVICE_def FS_FILE_def)

lemma good_new:
  "length n < 128 \<Longrightarrow> good_node K (zero_node\<lparr>flags := FS_DIRECTORY, vname := n, finddir := DEVFS_FINDDIR\<rparr>)"
  "length n < 128 \<Longrightarrow> good_node K (zero_node\<lparr>flags := FS_DIRECTORY, vname := n, finddir := RAMFS_FINDDIR\<rparr>)"
  "length n < 128 \<Longrightarrow> good_node K (zero_node\<lparr>vname := n, flags := FS_DIRECTORY, finddir := RAMFS_FINDDIR\<rparr>)"
  "length n < 128 \<Longrightarrow> good_node K (zero_node\<lparr>flags := FS_CHARDEVICE, vname := n, fwrite := FB_VFS_WRITE\<rparr>)"
  "good_node K (tar_node name flag size0 header)"
  by (simp_all add: good_node_def typed_node_def zero_node_def tar_node_def Let_def is_mountpoint_def
      FS_MOUNTPOINT_def FS_DIRECTORY_def FS_CHARDEVICE_def FS_FILE_def)

lemma good_node_mono: "good_node K v \<Longrightarrow> K \<subseteq> L \<Longrightarrow> good_node L v"
  by (auto simp: good_node_def)

text \<open>A node is stored and handed out; the table of the initial file system may take it.\<close>

lemma files_typed_new:
  assumes "files_typed K s" "good_node K v" "p \<noteq> 0"
    and "nodes t = (nodes s)(p := v)" "devices t = devices s" "fs_root t = fs_root s" "fd_table t = fd_table s"
    and "set (ramfs_nodes t) \<subseteq> insert p (set (ramfs_nodes s))"
  shows "files_typed (insert p K) t"
  using assms good_node_mono [of K _ "insert p K"] unfolding files_typed_def by auto

subsection \<open>The operations that store nodes\<close>

lemma init_devfs_typed:
  assumes "init_devfs s = Some (r, t)" "devices s = []" "files_typed K s"
  shows "files_typed (insert r K) t"
proof -
  obtain s1 where k: "kmalloc sizeof_vfs_node s = Some (r, s1)" "r \<noteq> 0"
    "t = (set_node r (zero_node\<lparr>flags := FS_DIRECTORY, vname := str ''dev'', finddir := DEVFS_FINDDIR\<rparr>) s1)
      \<lparr>devfs_root := r, devices := List.map (\<lambda>_. 0) (devices s1)\<rparr>"
    using assms(1) by (auto simp: init_devfs_def bind_eq_Some_conv Let_def split: if_splits)
  have s1: "files_typed K s1" "devices s1 = []"
    using files_typed_same [OF assms(3) kmalloc_tables [OF k(1)]] kmalloc_devices [OF k(1)] assms(2) by simp_all
  have "length (str ''dev'') < 128" by (simp add: str_def)
  from files_typed_new [OF s1(1) good_new(1) [OF this] k(2), of t] show ?thesis by (simp add: k(3) s1(2) subset_insertI)
qed

lemma fb_create_typed:
  assumes "fb_create_vfs_node s = Some (r, t)" "files_typed K s"
  shows "files_typed (insert r K) t"
proof -
  obtain s1 where k: "kmalloc sizeof_vfs_node s = Some (r, s1)" "r \<noteq> 0" "fd_table t = fd_table s1"
    "devices t = devices s1" "fs_root t = fs_root s1" "ramfs_nodes t = ramfs_nodes s1"
    "nodes t = (nodes s1)(r := zero_node\<lparr>flags := FS_CHARDEVICE, vname := str ''fb0'', fwrite := FB_VFS_WRITE\<rparr>)"
    using assms(1) by (auto simp: fb_create_vfs_node_def bind_eq_Some_conv Let_def split: if_splits)
  have s1: "files_typed K s1" by (rule files_typed_same [OF assms(2) kmalloc_tables [OF k(1)]])
  have "length (str ''fb0'') < 128" by (simp add: str_def)
  from files_typed_new [OF s1 good_new(4) [OF this] k(2), of t] k show ?thesis by auto
qed

text \<open>The nodes of the initial file system that were created since are those of its table.\<close>

definition unpacked_typed :: "u64 set \<Rightarrow> 'a fds_scheme \<Rightarrow> 'a fds_scheme \<Rightarrow> bool" where
  "unpacked_typed K s t \<longleftrightarrow> set (ramfs_nodes s) \<subseteq> set (ramfs_nodes t) \<and> ramfs_root t = ramfs_root s \<and>
     files_typed (K \<union> set (ramfs_nodes t)) t"

lemma unpacked_none:
  assumes "files_typed K s" "tables t = tables s"
  shows "unpacked_typed K s t"
proof -
  have "ramfs_nodes t = ramfs_nodes s" "ramfs_root t = ramfs_root s" using assms(2) by (simp_all add: tables_def)
  moreover have "K \<union> set (ramfs_nodes s) = K" using assms(1) by (auto simp: files_typed_def)
  ultimately show ?thesis using files_typed_same [OF assms] by (simp add: unpacked_typed_def)
qed

lemma unpacked_trans:
  assumes "unpacked_typed (K \<union> set (ramfs_nodes s)) s t" "set (ramfs_nodes r) \<subseteq> set (ramfs_nodes s)"
    "ramfs_root s = ramfs_root r"
  shows "unpacked_typed K r t"
proof -
  have "K \<union> set (ramfs_nodes s) \<union> set (ramfs_nodes t) = K \<union> set (ramfs_nodes t)"
    using assms(1) by (auto simp: unpacked_typed_def)
  then show ?thesis using assms by (auto simp: unpacked_typed_def)
qed

lemma add_node_typed:
  assumes "files_typed K s" "kmalloc n s = Some (p, s1)" "p \<noteq> 0" "good_node K v"
  shows "files_typed (K \<union> set (ramfs_nodes ((set_node p v s1)\<lparr>ramfs_nodes := ramfs_nodes s1 @ [p]\<rparr>)))
      ((set_node p v s1)\<lparr>ramfs_nodes := ramfs_nodes s1 @ [p]\<rparr>)"
    "ramfs_nodes s1 = ramfs_nodes s" "ramfs_root s1 = ramfs_root s"
proof -
  have s1: "files_typed K s1" by (rule files_typed_same [OF assms(1) kmalloc_tables [OF assms(2)]])
  show "ramfs_nodes s1 = ramfs_nodes s" "ramfs_root s1 = ramfs_root s"
    using kmalloc_tables [OF assms(2)] by (simp_all add: tables_def)
  have "K \<union> set (ramfs_nodes s1 @ [p]) = insert p K" using s1 by (auto simp: files_typed_def)
  with files_typed_new [OF s1 assms(4,3), of "(set_node p v s1)\<lparr>ramfs_nodes := ramfs_nodes s1 @ [p]\<rparr>"]
  show "files_typed (K \<union> set (ramfs_nodes ((set_node p v s1)\<lparr>ramfs_nodes := ramfs_nodes s1 @ [p]\<rparr>)))
      ((set_node p v s1)\<lparr>ramfs_nodes := ramfs_nodes s1 @ [p]\<rparr>)" by simp
qed

lemma ensure_dirs_typed:
  fixes s :: "'a fds_scheme"
  shows "ensure_dirs path d s = Some t \<Longrightarrow> files_typed K s \<Longrightarrow> unpacked_typed K s t"
proof (induction path d s arbitrary: K rule: ensure_dirs.induct)
  case (1 d s)
  then show ?case by (simp add: unpacked_none)
next
  case (2 c path d s)
  let ?new = "c = SLASH \<and> d \<noteq> [] \<and> \<not> list_ex (\<lambda>p. p \<noteq> 0 \<and> tar_match_name (vname (nodes s p)) d) (ramfs_nodes s)"
  show ?case
  proof (cases "?new \<and> length (ramfs_nodes s) < MAX_RAMFS_NODES")
    case True
    with 2(3) obtain p s1 where k: "kmalloc sizeof_vfs_node s = Some (p, s1)" and len: "length d < 256"
      by (auto simp: bind_eq_Some_conv split: if_splits)
    let ?v = "zero_node\<lparr>vname := d, flags := FS_DIRECTORY, finddir := RAMFS_FINDDIR\<rparr>"
    let ?s2 = "(set_node p ?v s1)\<lparr>ramfs_nodes := ramfs_nodes s1 @ [p]\<rparr>"
    have "t = s1 \<or> p \<noteq> 0 \<and> length d < 128 \<and> ensure_dirs path (d @ [c]) ?s2 = Some t"
      using 2(3) True k len by (auto simp: Let_def split: if_splits)
    then show ?thesis
    proof
      assume "p \<noteq> 0 \<and> length d < 128 \<and> ensure_dirs path (d @ [c]) ?s2 = Some t"
      then have p: "p \<noteq> 0" "length d < 128" "ensure_dirs path (d @ [c]) ?s2 = Some t" by simp_all
      note n = add_node_typed [OF 2(4) k p(1) good_new(3) [OF p(2)]]
      from 2(1) [of "(p, s1)" p s1 _ "K \<union> set (ramfs_nodes ?s2)"] True k p len n(1)
      have "unpacked_typed (K \<union> set (ramfs_nodes ?s2)) ?s2 t" by (auto simp: Let_def not_le)
      then show ?thesis by (rule unpacked_trans) (use n(2,3) in auto)
    qed (use unpacked_none [OF 2(4) kmalloc_tables [OF k]] in simp)
  next
    case False
    then show ?thesis using 2(2,3,4) unpacked_none [OF 2(4) refl] by (auto split: if_splits)
  qed
qed
lemma tar_loop_typed:
  fixes s :: "'a fds_scheme"
  assumes "tar_loop a s = Some t"
  shows "\<forall>K. files_typed K s \<longrightarrow> unpacked_typed K s t"
proof (rule tar_loop.raw_induct [where P = "\<lambda>a s t. \<forall>K. files_typed K s \<longrightarrow> unpacked_typed K s t", OF _ assms])
  fix rec :: "u64 \<Rightarrow> 'a fds_scheme \<Rightarrow> 'a fds_scheme option" and a s t
  assume 1: "\<And>b u v. rec b u = Some v \<Longrightarrow> \<forall>K. files_typed K u \<longrightarrow> unpacked_typed K u v" "(if ram s a = 0 then Some s
      else do {
        filename \<leftarrow> cstr_at (ram s) a;
        let clean_filename = sanitize_path filename;
        let size0 = tar_size (ram s) a;
        if tar_extension (tar_typeflag (ram s) a) then rec (tar_next (ram s) a) s
        else do {
          s1 \<leftarrow> ensure_parent_dirs_exist clean_filename s;
          if length (ramfs_nodes s1) \<ge> MAX_RAMFS_NODES then Some s1
          else do {
            (node, s2) \<leftarrow> kmalloc sizeof_vfs_node s1;
            if node = 0 then Some s2
            else
              let s3 = set_node node (tar_node clean_filename (tar_typeflag (ram s) a) size0 a) s2
              in rec (tar_next (ram s) a) (s3\<lparr>ramfs_nodes := ramfs_nodes s3 @ [node]\<rparr>) } } }) = Some t"
  show "\<forall>K. files_typed K s \<longrightarrow> unpacked_typed K s t"
  proof (intro allI impI)
    fix K
    assume ts: "files_typed K s"
    have step: "unpacked_typed L u t" if "rec b u = Some t" "files_typed L u" for b u L using 1(1) that by blast
    show "unpacked_typed K s t"
    proof (cases "ram s a = 0 \<or> tar_extension (tar_typeflag (ram s) a)")
      case True
      then show ?thesis using 1(2) ts step unpacked_none [OF ts refl] by (auto simp: bind_eq_Some_conv Let_def split: if_splits)
    next
      case False
      with 1(2) obtain name s1 where s1: "ensure_parent_dirs_exist (sanitize_path name) s = Some s1"
        and r: "(if length (ramfs_nodes s1) \<ge> MAX_RAMFS_NODES then Some s1
          else do {
            (node, s2) \<leftarrow> kmalloc sizeof_vfs_node s1;
            if node = 0 then Some s2
            else
              let s3 = set_node node (tar_node (sanitize_path name) (tar_typeflag (ram s) a) (tar_size (ram s) a) a) s2
              in rec (tar_next (ram s) a) (s3\<lparr>ramfs_nodes := ramfs_nodes s3 @ [node]\<rparr>) }) = Some t"
        by (auto simp: bind_eq_Some_conv Let_def)
      let ?L = "K \<union> set (ramfs_nodes s1)"
      have t1: "files_typed ?L s1" "set (ramfs_nodes s) \<subseteq> set (ramfs_nodes s1)"
        "ramfs_root s1 = ramfs_root s"
        using s1 ensure_dirs_typed [OF _ ts] by (auto simp: ensure_parent_dirs_exist_def unpacked_typed_def)
      have "unpacked_typed ?L s1 t"
      proof (cases "length (ramfs_nodes s1) \<ge> MAX_RAMFS_NODES")
        case False
        with r obtain p s2 where k: "kmalloc sizeof_vfs_node s1 = Some (p, s2)" by (auto simp: bind_eq_Some_conv)
        let ?v = "tar_node (sanitize_path name) (tar_typeflag (ram s) a) (tar_size (ram s) a) a"
        let ?s3 = "(set_node p ?v s2)\<lparr>ramfs_nodes := ramfs_nodes s2 @ [p]\<rparr>"
        have "t = s2 \<or> p \<noteq> 0 \<and> rec (tar_next (ram s) a) ?s3 = Some t"
          using False r k by (auto simp: Let_def split: if_splits)
        then show ?thesis
        proof
          assume p: "p \<noteq> 0 \<and> rec (tar_next (ram s) a) ?s3 = Some t"
          note n = add_node_typed [OF t1(1) k conjunct1 [OF p] good_new(5)]
          show ?thesis by (rule unpacked_trans [OF step [OF conjunct2 [OF p] n(1)]]) (use n(2,3) in auto)
        qed (use unpacked_none [OF t1(1) kmalloc_tables [OF k]] in simp)
      qed (use r unpacked_none [OF t1(1) refl] in simp)
      then show ?thesis by (rule unpacked_trans [OF _ t1(2,3)])
    qed
  qed
qed

lemma init_initramfs_typed:
  assumes "init_initramfs a s = Some (r, t)" "files_typed K s"
  shows "files_typed (K \<union> ({r} - {0}) \<union> set (ramfs_nodes t)) t" "r \<in> insert 0 (K \<union> ({r} - {0}))"
proof -
  obtain p s1 where k: "kmalloc sizeof_vfs_node s = Some (p, s1)"
    using assms(1) by (auto simp: init_initramfs_def bind_eq_Some_conv)
  have t1: "files_typed K s1" by (rule files_typed_same [OF assms(2) kmalloc_tables [OF k]])
  show "r \<in> insert 0 (K \<union> ({r} - {0}))" by auto
  let ?v = "zero_node\<lparr>flags := FS_DIRECTORY, vname := [SLASH], finddir := RAMFS_FINDDIR\<rparr>"
  let ?s2 = "set_node p ?v (s1\<lparr>ramfs_root := p\<rparr>)"
  consider "r = 0" "t = s1\<lparr>ramfs_root := 0\<rparr>" | "p \<noteq> 0" "r = ramfs_root t" "tar_loop a ?s2 = Some t"
    using assms(1) k by (auto simp: init_initramfs_def bind_eq_Some_conv Let_def split: if_splits)
  then show "files_typed (K \<union> ({r} - {0}) \<union> set (ramfs_nodes t)) t"
  proof cases
    case 1
    then have "files_typed K t" using t1 by (simp add: files_typed_def)
    moreover have "K \<union> ({r} - {0}) \<union> set (ramfs_nodes t) = K" using 1 t1 by (auto simp: files_typed_def)
    ultimately show ?thesis by simp
  next
    case 2
    have "length [SLASH] < 128" by simp
    from files_typed_new [OF t1 good_new(2) [OF this] 2(1), of ?s2] have "files_typed (insert p K) ?s2" by auto
    with tar_loop_typed [OF 2(3)] have u: "unpacked_typed (insert p K) ?s2 t" by blast
    then have "r = p" using 2(2) by (simp add: unpacked_typed_def)
    then have "K \<union> ({r} - {0}) \<union> set (ramfs_nodes t) = insert p K \<union> set (ramfs_nodes t)" using 2(1) by auto
    with u show ?thesis by (simp add: unpacked_typed_def)
  qed
qed

subsection \<open>Lookups\<close>

lemma files_typed_nodes: "files_typed K s \<Longrightarrow> p \<in> K \<Longrightarrow> good_node K (nodes s p) \<and> p \<noteq> 0"
  by (auto simp: files_typed_def)

lemma follow_mount_in: "files_typed K s \<Longrightarrow> p \<in> K \<Longrightarrow> follow_mount p s \<in> insert 0 K"
  using files_typed_nodes [of K s p] by (auto simp: follow_mount_def good_node_def)

lemma ramfs_scan_in: "ramfs_scan ns ps path \<in> insert 0 (set ps)"
  by (induction ps) auto

lemma devfs_scan_in: "0 \<notin> set ds \<Longrightarrow> \<exists>q \<in> insert 0 (set ds). devfs_scan ns ds name = Some q"
  by (induction ds) auto

lemma finddir_in:
  assumes "files_typed K s" "p \<in> K" "finddir (nodes s p) \<noteq> NULL_FN"
  shows "\<exists>q \<in> insert 0 K. call_finddir p name s = Some q"
proof -
  have d: "0 \<notin> set (devices s)" "set (devices s) \<subseteq> K" "set (ramfs_nodes s) \<subseteq> K"
    using assms(1) by (auto simp: files_typed_def)
  have "finddir (nodes s p) = RAMFS_FINDDIR \<or> finddir (nodes s p) = DEVFS_FINDDIR"
    using files_typed_nodes [OF assms(1,2)] assms(3) by (simp add: good_node_def typed_node_def)
  with devfs_scan_in [OF d(1), of "nodes s" name]
    ramfs_scan_in [of "nodes s" "ramfs_nodes s" "expected_path p name s"] d(2,3)
  show ?thesis by (auto simp: call_finddir_def devfs_finddir_def ramfs_finddir_def)
qed

lemma resolve_in: "files_typed K s \<Longrightarrow> node \<in> insert 0 K \<Longrightarrow> \<exists>q \<in> insert 0 K. resolve names node s = Some q"
proof (induction names arbitrary: node)
  case Nil
  then show ?case using follow_mount_in [of K s node] by (subst resolve.simps) auto
next
  case (Cons name rest)
  show ?case
  proof (cases "node = 0")
    case False
    then have n: "follow_mount node s \<in> insert 0 K" using Cons.prems follow_mount_in by blast
    have "\<exists>d \<in> insert 0 K. step_into node name s = Some d"
      using n finddir_in [OF Cons.prems(1)] by (auto simp: step_into_def Let_def)
    then obtain d where d: "d \<in> insert 0 K" "step_into node name s = Some d" by blast
    with Cons.IH [OF Cons.prems(1) d(1)] False show ?thesis by simp
  qed (subst resolve.simps; simp)
qed

definition path_fits :: "cstring \<Rightarrow> bool" where
  "path_fits path \<longleftrightarrow> (\<forall>c \<in> set (components path). length c < 128)"

lemma lookup_in:
  assumes "files_typed K s" "path_fits path"
  shows "\<exists>q \<in> insert 0 K. vfs_get_node_by_path (Some path) s = Some q"
proof -
  have "fs_root s \<in> insert 0 K" using assms(1) by (simp add: files_typed_def)
  from resolve_in [OF assms(1) this, of "components path"] show ?thesis
    by (simp add: vfs_get_node_by_path_def path_walk_resolve [OF assms(2) [unfolded path_fits_def]])
qed

lemma vfs_mount_typed:
  assumes "files_typed K s" "mp \<in> insert 0 K" "target \<in> insert 0 K"
  shows "files_typed K (vfs_mount mp target s)"
proof (cases "mp = 0")
  case False
  let ?v = "(nodes s mp)\<lparr>flags := flags (nodes s mp) OR FS_MOUNTPOINT, ptr := target\<rparr>"
  have "good_node K ?v"
    using files_typed_nodes [OF assms(1), of mp] assms(2,3) False by (auto simp: good_node_def typed_node_def)
  with assms(1) False show ?thesis by (simp add: files_typed_def vfs_mount_def)
qed (use assms(1) in \<open>simp add: vfs_mount_def\<close>)

lemma init_fds_typed:
  assumes "init_fds s = Some t" "files_typed K s"
  shows "files_typed K t"
proof -
  have f: "path_fits (str ''/dev/fb0'')" by (simp add: path_fits_def str_def)
  let ?s1 = "s\<lparr>fd_table := (\<lambda>i. if i < MAX_OPEN_FILES then no_file else fd_table s i)\<rparr>"
  have t1: "files_typed K ?s1" using assms(2) by (simp add: files_typed_def no_file_def)
  from lookup_in [OF this f] obtain q where q: "q \<in> insert 0 K" "vfs_get_node_by_path (Some (str ''/dev/fb0'')) ?s1 = Some q"
    by blast
  then show ?thesis using assms(1) t1 by (auto simp: init_fds_def Let_def files_typed_def split: if_splits)
qed


subsection \<open>Reading from disks leaves the tables alone\<close>

lemma kprintf_more: "kprintf fmt color args s = Some t \<Longrightarrow> machine.more t = machine.more s"
  by (auto simp: kprintf_def)

lemma ata_read_frame:
  assumes "ata_read_sector28 lba buffer s = Some (ok, t)"
  shows "machine.more t = machine.more s"
proof -
  obtain r l1 where r: "ata_wait_ready s = (r, s\<lparr>io_log := l1\<rparr>)"
    using ready_loop_any [of ATA_POLL_LIMIT s] by (auto simp: ata_wait_ready_def poll_result_def)
  obtain l2 where l2: "ata_command lba (s\<lparr>io_log := l1\<rparr>) = s\<lparr>io_log := l2\<rparr>"
    by (simp add: ata_command_def outb_def ata_io_wait_def inb_def Let_def)
  obtain q l3 where q: "ata_wait_drq (s\<lparr>io_log := l2\<rparr>) = (q, s\<lparr>io_log := l3\<rparr>)"
    using drq_loop_any [of ATA_POLL_LIMIT "s\<lparr>io_log := l2\<rparr>"] by (auto simp: ata_wait_drq_def poll_result_def)
  have w: "machine.more (for_up 0 256 (read_word buffer) (s\<lparr>io_log := l3\<rparr>)) = machine.more s"
    using read_words_any [of buffer "s\<lparr>io_log := l3\<rparr>"] by auto
  consider "buffer = 0" | "buffer \<noteq> 0" "\<not> r" | "buffer \<noteq> 0" "r" "\<not> q" | "buffer \<noteq> 0" "r" "q" by blast
  then show ?thesis
  proof cases
    case 3
    with assms r l2 q obtain c where "kprintf ''ATA: Error reading sector %d\<newline>'' 0xFF0000 [AInt lba] (s\<lparr>io_log := l3\<rparr>) = Some c" "t = c"
      by (simp add: ata_read_sector28_def bind_eq_Some_conv)
    with kprintf_more show ?thesis by fastforce
  next
    case 4
    with assms r l2 q have "t = for_up 0 256 (read_word buffer) (s\<lparr>io_log := l3\<rparr>)"
      by (simp add: ata_read_sector28_def)
    with w show ?thesis by (simp only:)
  qed (use assms r in \<open>auto simp: ata_read_sector28_def\<close>)
qed

lemma sectors_loop_frame: "sectors_loop n lba i p s = Some (ok, t) \<Longrightarrow> machine.more t = machine.more s"
proof (induction n arbitrary: i s)
  case (Suc n)
  from Suc.prems obtain r s1 where r: "ata_read_sector28 (ucast (lba + ucast i)) (p + ucast (i * 512)) s = Some (r, s1)"
    "(if r then sectors_loop n lba (i + 1) p s1 else Some (False, s1)) = Some (ok, t)"
    by (auto simp: bind_eq_Some_conv)
  have m: "machine.more s1 = machine.more s" by (rule ata_read_frame [OF r(1)])
  show ?case
  proof (cases r)
    case True
    with r(2) Suc.IH [of "i + 1" s1] m show ?thesis by simp
  qed (use r(2) m in simp)
qed simp

lemma block_read_frame:
  "block_read dev lba count buf s = Some (ok, t) \<Longrightarrow> machine.more t = machine.more s"
  by (auto simp: block_read_def ata_block_read_def Let_def sectors_loop_frame split: option.splits block_fn.splits)

lemma kprintf_tables: "kprintf fmt color args s = Some t \<Longrightarrow> tables t = tables (s :: 'a fds_scheme)"
  by (rule machine_more_tables [OF kprintf_more])

lemma register_block_device_tables: "register_block_device dev s = Some (r, t) \<Longrightarrow> tables t = tables s"
  by (auto simp: register_block_device_def bind_eq_Some_conv Let_def dest!: kprintf_tables split: if_splits)

lemma say_tables: "Machine.say ms s = Some t \<Longrightarrow> tables t = tables (s :: 'a fds_scheme)"
  by (induction ms s rule: Machine.say.induct) (auto simp: bind_eq_Some_conv kprintf_tables)

lemma ext2_mount_tables:
  assumes "ext2_mount buf dev s = Some (r, t)"
  shows "tables t = tables s"
proof (cases dev)
  case (Some d)
  with assms obtain ok s1 where "block_read (Some d) 2 2 buf s = Some (ok, s1)"
    by (auto simp: ext2_mount_def bind_eq_Some_conv)
  then have "tables s1 = tables s" by (intro machine_more_tables block_read_frame)
  with assms Some \<open>block_read (Some d) 2 2 buf s = Some (ok, s1)\<close> show ?thesis
    by (auto simp: ext2_mount_def bind_eq_Some_conv dest!: kprintf_tables kmalloc_tables say_tables split: if_splits)
qed (use assms in \<open>simp add: ext2_mount_def\<close>)


lemma vfs_mount_by_name_tables: "vfs_mount_by_name buf dev path fs s = Some (r, t) \<Longrightarrow> tables t = tables s"
  by (auto simp: vfs_mount_by_name_def bind_eq_Some_conv ext2_mount_tables dest: ext2_mount_null
      split: option.splits if_splits mount_fn.splits)

lemma ata_init_tables: "ata_init s = Some t \<Longrightarrow> tables t = tables s"
  by (auto simp: ata_init_def bind_eq_Some_conv Let_def kprintf_tables register_block_device_tables)

lemma sys_write_tables:
  assumes "sys_write fd buf count s = Some (r, t)"
  shows "tables t = tables s"
  using assms by (auto simp: sys_write_def call_write_def bind_eq_Some_conv Let_def split: if_splits node_fn.splits)
lemma file_step_quiet:
  "vfs_open path flgs s = Some (r, t) \<Longrightarrow> tables t = tables s"
  "vfs_read node buf n off s = Some (r, t) \<Longrightarrow> tables t = tables s"
  "vfs_close node s = Some t \<Longrightarrow> tables t = tables s"
  "tables (vfs_register_filesystem f s) = tables s"
  by (auto simp: vfs_open_def vfs_read_def vfs_close_def vfs_register_filesystem_def
      call_open_def call_close_def call_read_def ramfs_read_def Let_def bind_eq_Some_conv
      split: if_splits node_fn.splits)

lemma syscall_tables: "syscall_handler dbg frame s = Some (frame', t) \<Longrightarrow> tables t = tables s"
  by (auto simp: syscall_handler_def sys_exit_def bind_eq_Some_conv sys_write_tables split: if_splits)

lemma fd_alloc_typed: "files_typed K s \<Longrightarrow> node \<in> insert 0 K \<Longrightarrow> files_typed K (snd (fd_alloc node s))"
  by (cases rule: fd_alloc_cases [of s node]) (auto simp: files_typed_def)

lemma fd_close_typed: "files_typed K s \<Longrightarrow> files_typed K (fd_close fd s)"
  by (auto simp: files_typed_def fd_close_def no_file_def)

lemma devfs_register_typed: "files_typed K s \<Longrightarrow> d \<in> K \<Longrightarrow> files_typed K (devfs_register d s)"
  by (auto simp: files_typed_def devfs_register_def)


subsection \<open>Sequences of operations\<close>

text \<open>
  The operations on files, devices, disks and the heap, each as a step, together with the set
  of the nodes handed out. A caller passes on nodes it was handed, or NULL where that is tested
  for, and does not free them; all other arguments are arbitrary. \<open>init_devfs\<close> is called before
  devices are registered, as it leaves NULL for those there are (\<open>devfs_cleared_faults\<close>).
\<close>

inductive file_step :: "u64 set \<times> 'a fds_scheme \<Rightarrow> u64 set \<times> 'a fds_scheme \<Rightarrow> bool" where
  devfs: "init_devfs s = Some (r, t) \<Longrightarrow> devices s = [] \<Longrightarrow> file_step (K, s) (insert r K, t)"
| initramfs: "init_initramfs a s = Some (r, t) \<Longrightarrow>
    file_step (K, s) (K \<union> ({r} - {0}) \<union> set (ramfs_nodes t), t)"
| fb_node: "fb_create_vfs_node s = Some (r, t) \<Longrightarrow> file_step (K, s) (insert r K, t)"
| mount: "mp \<in> insert 0 K \<Longrightarrow> target \<in> insert 0 K \<Longrightarrow> file_step (K, s) (K, vfs_mount mp target s)"
| mount_by_name: "vfs_mount_by_name buf dev path fs s = Some (i, t) \<Longrightarrow> file_step (K, s) (K, t)"
| device: "d \<in> K \<Longrightarrow> file_step (K, s) (K, devfs_register d s)"
| fs_root: "r \<in> insert 0 K \<Longrightarrow> file_step (K, s) (K, s\<lparr>fs_root := r\<rparr>)"
| fs_type: "file_step (K, s) (K, vfs_register_filesystem f s)"
| "open": "vfs_open path flgs s = Some (r, t) \<Longrightarrow> file_step (K, s) (K, t)"
| read: "vfs_read node buf n off s = Some (r, t) \<Longrightarrow> node \<in> insert 0 K \<Longrightarrow> file_step (K, s) (K, t)"
| close: "vfs_close node s = Some t \<Longrightarrow> node \<in> insert 0 K \<Longrightarrow> file_step (K, s) (K, t)"
| descriptors: "init_fds s = Some t \<Longrightarrow> file_step (K, s) (K, t)"
| alloc: "fd_alloc node s = (fd, t) \<Longrightarrow> node \<in> insert 0 K \<Longrightarrow> file_step (K, s) (K, t)"
| release: "file_step (K, s) (K, fd_close fd s)"
| syscall: "syscall_handler dbg frame s = Some (frame', t) \<Longrightarrow> file_step (K, s) (K, t)"
| disks: "ata_init s = Some t \<Longrightarrow> file_step (K, s) (K, t)"
| block: "block_read dev lba count buf s = Some (ok, t) \<Longrightarrow> file_step (K, s) (K, t)"
| kmalloc: "kmalloc n s = Some (p, t) \<Longrightarrow> file_step (K, s) (K, t)"
| kfree: "kfree p s = Some t \<Longrightarrow> p \<notin> K \<Longrightarrow> file_step (K, s) (K, t)"
| print: "kprintf fmt color args s = Some t \<Longrightarrow> file_step (K, s) (K, t)"

lemma file_step_typed: "file_step x y \<Longrightarrow> files_typed (fst x) (snd x) \<Longrightarrow> files_typed (fst y) (snd y)"
proof (induction rule: file_step.induct)
  case (initramfs a s r t K)
  then show ?case using init_initramfs_typed(1) by simp
next
  case (fs_root r K s)
  then show ?case by (simp add: files_typed_def)
next
  case (alloc node s fd t K)
  then show ?case using fd_alloc_typed [of K s node] by simp
next
  case (mount mp K target s)
  then show ?case using vfs_mount_typed [of K s mp target] by simp
qed (simp_all only: fst_conv snd_conv, (blast intro: init_devfs_typed fb_create_typed init_fds_typed fd_close_typed
    devfs_register_typed files_typed_same vfs_mount_by_name_tables file_step_quiet syscall_tables ata_init_tables
    machine_more_tables block_read_frame kmalloc_tables kfree_tables kprintf_tables)+)

lemma file_steps_typed: "rtranclp file_step x y \<Longrightarrow> files_typed (fst x) (snd x) \<Longrightarrow> files_typed (fst y) (snd y)"
  by (induction rule: rtranclp_induct) (auto intro: file_step_typed)

text \<open>At the start no node was handed out, and the tables are clear; the heap may hold anything.\<close>

definition no_files :: "'a fds_scheme \<Rightarrow> bool" where
  "no_files s \<longleftrightarrow> devices s = [] \<and> ramfs_nodes s = [] \<and> fs_root s = 0 \<and>
     (\<forall>i < MAX_OPEN_FILES. fd_node (fd_table s i) = 0)"

lemma start_typed: "no_files s \<Longrightarrow> files_typed {} s"
  by (simp add: files_typed_def no_files_def)

text \<open>The boot of the file systems is such a sequence.\<close>

lemma mount_filesystems_steps:
  assumes "mount_filesystems bi s = Some t" "files_typed K s" "devices s = []"
  shows "\<exists>L. rtranclp file_step (K, s) (L, t)"
proof -
  obtain a ms where bi: "module_response bi = Some (a # ms)"
    using assms(1) by (cases "module_response bi"; cases "the (module_response bi)") (auto simp: mount_filesystems_def bind_eq_Some_conv)
  with assms(1) obtain root s1 where 1: "init_devfs s = Some (root, s1)"
    by (auto simp: mount_filesystems_def bind_eq_Some_conv)
  with assms(1) bi obtain s2 ramfs s3 fb s4 mp where
    2: "ModLoader.say (debug (cmd s1)) ''VFS: Booting from Initramfs...\<newline>'' 0x00FFCC [] s1 = Some s2"
    "init_initramfs a s2 = Some (ramfs, s3)" "fb_create_vfs_node (s3\<lparr>fs_root := ramfs\<rparr>) = Some (fb, s4)"
    and m: "vfs_get_node_by_path (Some (str ''/dev'')) (devfs_register fb s4) = Some mp"
    and r: "(if mp \<noteq> 0 then do {
           s6 \<leftarrow> init_fds (vfs_mount mp root (devfs_register fb s4));
           kprintf ''VFS: DevFS mounted to /dev successfully.\<newline>'' 0x00FF00 [] s6 }
         else kprintf ''VFS: Could not find /dev in Initramfs!\<newline>'' 0xFF0000 [] (devfs_register fb s4)) = Some t"
    by (auto simp: mount_filesystems_def bind_eq_Some_conv Let_def)
  let ?K1 = "insert root K"
  let ?K2 = "?K1 \<union> ({ramfs} - {0}) \<union> set (ramfs_nodes s3)"
  let ?L = "insert fb ?K2" and ?s5 = "devfs_register fb s4"
  have "file_step (K, s) (?K1, s1)" by (rule file_step.devfs [OF 1 assms(3)])
  moreover have "rtranclp file_step (?K1, s1) (?K1, s2)"
    using 2(1) by (auto simp: ModLoader.say_def intro: file_step.print split: if_splits)
  moreover have "file_step (?K1, s2) (?K2, s3)" by (rule file_step.initramfs [OF 2(2)])
  moreover have "file_step (?K2, s3) (?K2, s3\<lparr>fs_root := ramfs\<rparr>)" by (rule file_step.fs_root) auto
  moreover have "file_step (?K2, s3\<lparr>fs_root := ramfs\<rparr>) (?L, s4)" by (rule file_step.fb_node [OF 2(3)])
  moreover have "file_step (?L, s4) (?L, ?s5)" by (rule file_step.device) simp
  ultimately have 5: "rtranclp file_step (K, s) (?L, ?s5)" by (meson converse_rtranclp_into_rtranclp rtranclp_trans rtranclp.rtrancl_refl)
  have t5: "files_typed ?L ?s5" using file_steps_typed [OF 5] assms(2) by simp
  have "path_fits (str ''/dev'')" by (simp add: path_fits_def str_def)
  from lookup_in [OF t5 this] m have mp: "mp \<in> insert 0 ?L" by auto
  have "rtranclp file_step (?L, ?s5) (?L, t)"
  proof (cases "mp = 0")
    case True
    with r show ?thesis by (auto intro: file_step.print)
  next
    case False
    with r obtain s6 where "init_fds (vfs_mount mp root ?s5) = Some s6"
      "kprintf ''VFS: DevFS mounted to /dev successfully.\<newline>'' 0x00FF00 [] s6 = Some t"
      by (auto simp: bind_eq_Some_conv)
    then have "file_step (?L, vfs_mount mp root ?s5) (?L, s6)" "file_step (?L, s6) (?L, t)"
      by (auto intro: file_step.descriptors file_step.print)
    with file_step.mount [OF mp, of root ?s5]
    show ?thesis by (meson converse_rtranclp_into_rtranclp rtranclp.rtrancl_refl insertCI UnCI)
  qed
  with 5 show ?thesis by (meson rtranclp_trans)
qed


subsection \<open>Calls through nodes\<close>

lemma typed_calls:
  assumes "files_typed K s"
  shows "path_fits path \<Longrightarrow> \<exists>n \<in> insert 0 K. vfs_open (Some path) flgs s = Some (n, s)"
    "node \<in> insert 0 K \<Longrightarrow> vfs_close node s = Some s"
    "node \<in> insert 0 K \<Longrightarrow> \<exists>r t. vfs_read node buf n off s = Some (r, t)"
    "\<not> fb_lock (con s) \<Longrightarrow> \<exists>r t. sys_write fd buf n s = Some (r, t)"
proof -
  have ty: "typed_node (nodes s p)" if "p \<in> K" for p using files_typed_nodes [OF assms that] by (simp add: good_node_def)
  show "\<exists>n \<in> insert 0 K. vfs_open (Some path) flgs s = Some (n, s)" if fit: "path_fits path"
  proof -
    obtain q where "q \<in> insert 0 K" "vfs_get_node_by_path (Some path) s = Some q" using lookup_in [OF assms fit] by blast
    then show ?thesis using ty [of q] by (auto simp: vfs_open_def typed_node_def)
  qed
  show "vfs_close node s = Some s" if "node \<in> insert 0 K" using ty [of node] that by (auto simp: vfs_close_def typed_node_def)
  show "\<exists>r t. vfs_read node buf n off s = Some (r, t)" if "node \<in> insert 0 K"
    using ty [of node] that by (auto simp: vfs_read_def call_read_def typed_node_def intro: prod.exhaust)
  have "nat fd < MAX_OPEN_FILES" if "0 \<le> fd" "fd < int MAX_OPEN_FILES" using that by linarith
  then have "fd_get_node fd s \<in> insert 0 K" using assms by (auto simp: fd_get_node_def files_typed_def)
  then show "\<exists>r t. sys_write fd buf n s = Some (r, t)" if "\<not> fb_lock (con s)"
    using ty [of "fd_get_node fd s"] that
    by (auto simp: sys_write_def call_write_def fb_vfs_write_def spin_lock_def typed_node_def Let_def)
qed

text \<open>
  C31. The functions in nodes have the types of their members. However the operations on files,
  devices, descriptors, disks and the heap follow each other from a start with empty tables, no
  member of a node that was handed out ever holds a function of another type and every name
  fits its array, whatever memory held before. So a path whose components fit the buffer for
  them is opened, with the result NULL or a node handed out, all of those are read and closed,
  and \<open>sys_write\<close> comes back for every descriptor when the console is not locked.
\<close>

theorem file_calls_typed:
  fixes s :: "'a fds_scheme"
  assumes "no_files s" and "rtranclp file_step ({}, s) (K, t)"
  shows "(\<forall>p \<in> K. typed_node (nodes t p)) \<and>
    (\<forall>path flgs. path_fits path \<longrightarrow> (\<exists>n \<in> insert 0 K. vfs_open (Some path) flgs t = Some (n, t))) \<and>
    (\<forall>node \<in> insert 0 K. vfs_close node t = Some t \<and> (\<forall>buf n off. \<exists>r u. vfs_read node buf n off t = Some (r, u))) \<and>
    (\<not> fb_lock (con t) \<longrightarrow> (\<forall>fd buf n. \<exists>r u. sys_write fd buf n t = Some (r, u)))"
proof -
  have t: "files_typed K t" using file_steps_typed [OF assms(2)] start_typed [OF assms(1)] by simp
  then have "\<forall>p \<in> K. typed_node (nodes t p)" using files_typed_nodes by (auto simp: good_node_def)
  then show ?thesis using typed_calls [OF t] by (intro conjI ballI allI impI) simp_all
qed

lemma fds_zero_room: "n \<le> 4000 \<Longrightarrow> node_room n fds_zero"
  using heap_boot_node_room [of n] node_room_cong [of fds_zero heap_boot n]
  by (simp add: fds_zero_def vfs.defs fds.defs vfs_zero_simps)

text \<open>The node of the framebuffer in memory full of nodes of wrong types, and a descriptor for it.\<close>

definition stale :: vfs_node where
  "stale = zero_node\<lparr>flags := FS_MOUNTPOINT, fclose := FB_VFS_WRITE, finddir := RAMFS_READ, ptr := 0xBAD\<rparr>"

abbreviation fds_stale :: fds where "fds_stale \<equiv> fds_zero\<lparr>nodes := \<lambda>_. stale\<rparr>"

lemma fds_stale_start: "no_files fds_stale" "node_room 1 fds_stale" "vfs_close 0x1000 fds_stale = None"
proof -
  show "no_files fds_stale"
    by (simp add: no_files_def fds_zero_def vfs_zero_def blocks_zero_def ramfs_zero_def devfs_zero_def no_file_def
      devfs.defs ramfs.defs blocks.defs ext2.defs vfs.defs fds.defs vnodes.defs)
  show "node_room 1 fds_stale" using fds_zero_room [of 1] node_room_cong [of fds_stale fds_zero 1] by simp
  show "vfs_close 0x1000 fds_stale = None" by (simp add: vfs_close_def call_close_def stale_def)
qed

lemma file_calls_typed_witness:
  "\<exists>p t. fb_create_vfs_node fds_stale = Some (p, t) \<and> typed_node (nodes (snd (fd_alloc p t)) p) \<and>
     vfs_close p (snd (fd_alloc p t)) = Some (snd (fd_alloc p t)) \<and> vfs_close 0x1000 fds_stale = None"
proof -
  obtain p u where "kmalloc sizeof_vfs_node fds_stale = Some (p, u)" "p \<noteq> 0"
    using node_alloc [of 0 fds_stale] fds_stale_start(2) by (metis One_nat_def)
  then obtain t where t: "fb_create_vfs_node fds_stale = Some (p, t)"
    by (simp add: fb_create_vfs_node_def)
  have "file_step ({p}, t) ({p}, snd (fd_alloc p t))" using file_step.alloc [of p t] by (metis insertCI prod.collapse)
  with file_step.fb_node [OF t, of "{}"] have "rtranclp file_step ({}, fds_stale) ({p}, snd (fd_alloc p t))"
    by (meson r_into_rtranclp rtranclp.rtrancl_into_rtrancl)
  with t file_calls_typed [OF fds_stale_start(1)] fds_stale_start(3) show ?thesis by blast
qed

end
