(* ===== verification/Pci.thy ===== *)
theory Pci
  imports Machine
begin

text \<open>
  The PCI configuration space and the search for an AHCI controller,
  \<open>drivers/pci/pci.c\<close>.
\<close>

definition PCI_CONFIG_ADDRESS :: u16 where "PCI_CONFIG_ADDRESS = 0xCF8"
definition PCI_CONFIG_DATA :: u16 where "PCI_CONFIG_DATA = 0xCFC"
definition PCI_REG_VENDOR_ID :: u8 where "PCI_REG_VENDOR_ID = 0x00"
definition PCI_REG_COMMAND :: u8 where "PCI_REG_COMMAND = 0x04"
definition PCI_REG_BAR5 :: u8 where "PCI_REG_BAR5 = 0x24"

record pci_device =
  pci_bus :: u8
  pci_dev :: u8
  pci_func :: u8
  vendor_id :: u16
  device_id :: u16
  class_code :: u8
  dev_subclass :: u8
  prog_if :: u8
  bar5 :: u64

definition pci_address :: "u8 \<Rightarrow> u8 \<Rightarrow> u8 \<Rightarrow> u8 \<Rightarrow> u32" where
  "pci_address bus device func offset =
     push_bit 16 (ucast bus) OR push_bit 11 (ucast device) OR push_bit 8 (ucast func) OR
       (ucast offset AND 0xFC) OR 0x80000000"

definition pci_read32 :: "u8 \<Rightarrow> u8 \<Rightarrow> u8 \<Rightarrow> u8 \<Rightarrow> 'a machine_scheme \<Rightarrow> u32 \<times> 'a machine_scheme" where
  "pci_read32 bus device func offset s =
     inl PCI_CONFIG_DATA (outl PCI_CONFIG_ADDRESS (pci_address bus device func offset) s)"

definition pci_write32 :: "u8 \<Rightarrow> u8 \<Rightarrow> u8 \<Rightarrow> u8 \<Rightarrow> u32 \<Rightarrow> 'a machine_scheme \<Rightarrow> 'a machine_scheme" where
  "pci_write32 bus device func offset val s =
     outl PCI_CONFIG_DATA val (outl PCI_CONFIG_ADDRESS (pci_address bus device func offset) s)"

text \<open>The body of the three loops, for one function of a device.\<close>

definition pci_probe :: "u8 \<Rightarrow> u8 \<Rightarrow> u8 \<Rightarrow> 'a machine_scheme \<Rightarrow> pci_device option \<times> 'a machine_scheme" where
  "pci_probe bus dev func s =
     (let (vendor_device, s1) = pci_read32 bus dev func PCI_REG_VENDOR_ID s;
          vendor = ucast (vendor_device AND 0xFFFF) :: u16
      in if vendor = 0xFFFF then (None, s1)
      else
        let (class_info, s2) = pci_read32 bus dev func 0x08 s1;
            cc = ucast (drop_bit 24 class_info AND 0xFF);
            sc = ucast (drop_bit 16 class_info AND 0xFF);
            pif = ucast (drop_bit 8 class_info AND 0xFF)
        in if cc = 0x01 \<and> sc = 0x06 \<and> pif = 0x01 then
          let (bar5_low, s3) = pci_read32 bus dev func PCI_REG_BAR5 s2;
              out_dev = \<lparr>pci_bus = bus, pci_dev = dev, pci_func = func, vendor_id = vendor,
                device_id = ucast (drop_bit 16 vendor_device AND 0xFFFF), class_code = cc, dev_subclass = sc,
                prog_if = pif, bar5 = ucast (bar5_low AND 0xFFFFFFF0)\<rparr>;
              (cmd, s4) = pci_read32 bus dev func PCI_REG_BAR5 s3
          in (Some out_dev, pci_write32 bus dev func PCI_REG_COMMAND (cmd OR 0x06) s4)
        else (None, s2))"

fun pci_search :: "(u8 \<times> u8 \<times> u8) list \<Rightarrow> 'a machine_scheme \<Rightarrow> pci_device option \<times> 'a machine_scheme" where
  "pci_search [] s = (None, s)"
| "pci_search ((bus, dev, func) # fs) s =
     (case pci_probe bus dev func s of
        (Some d, s1) \<Rightarrow> (Some d, s1)
      | (None, s1) \<Rightarrow> pci_search fs s1)"

definition pci_functions :: "(u8 \<times> u8 \<times> u8) list" where
  "pci_functions = [(of_nat b, of_nat d, of_nat f). b \<leftarrow> [0..<256], d \<leftarrow> [0..<32], f \<leftarrow> [0..<8]]"

definition pci_find_ahci :: "'a machine_scheme \<Rightarrow> pci_device option \<times> 'a machine_scheme" where
  "pci_find_ahci s = pci_search pci_functions s"


subsection \<open>Configuration space\<close>

text \<open>
  A bus whose functions have the given registers: the data port answers with the register the
  address port was last set to.
\<close>

fun config_address :: "io_event list \<Rightarrow> u32" where
  "config_address [] = 0"
| "config_address (e # l) = (case e of Outl p v \<Rightarrow> if p = PCI_CONFIG_ADDRESS then v else config_address l | _ \<Rightarrow> config_address l)"

definition pci_bus_with :: "(u32 \<Rightarrow> u32) \<Rightarrow> (io_event list \<Rightarrow> io_event \<Rightarrow> u32) \<Rightarrow> bool" where
  "pci_bus_with reg io \<longleftrightarrow> (\<forall>l. io l (Inl PCI_CONFIG_DATA) = reg (config_address l))"

lemma pci_read_reg:
  assumes "pci_bus_with reg (io_in s)"
  shows "pci_read32 b d f off s = (reg (pci_address b d f off),
    s\<lparr>io_log := Inl PCI_CONFIG_DATA # Outl PCI_CONFIG_ADDRESS (pci_address b d f off) # io_log s\<rparr>)"
  using assms by (simp add: pci_read32_def inl_def outl_def pci_bus_with_def)

definition is_ahci :: "(u32 \<Rightarrow> u32) \<Rightarrow> u8 \<Rightarrow> u8 \<Rightarrow> u8 \<Rightarrow> bool" where
  "is_ahci reg b d f \<longleftrightarrow> (ucast (reg (pci_address b d f 0) AND 0xFFFF) :: u16) \<noteq> 0xFFFF \<and>
     (ucast (drop_bit 24 (reg (pci_address b d f 8)) AND 0xFF) :: u8) = 0x01 \<and>
     (ucast (drop_bit 16 (reg (pci_address b d f 8)) AND 0xFF) :: u8) = 0x06 \<and>
     (ucast (drop_bit 8 (reg (pci_address b d f 8)) AND 0xFF) :: u8) = 0x01"

text \<open>
  The function found is told to decode memory and to master the bus, but the value written to
  its command register is that of its fifth base address register with the two bits set.
\<close>

lemma pci_probe_ahci:
  assumes "pci_bus_with reg (io_in s)"
  shows "if is_ahci reg b d f
    then \<exists>v t. pci_probe b d f s = (Some v, t) \<and> (pci_bus v, pci_dev v, pci_func v) = (b, d, f) \<and>
      bar5 v = ucast (reg (pci_address b d f 0x24) AND 0xFFFFFFF0) \<and>
      take 2 (io_log t) = [Outl PCI_CONFIG_DATA (reg (pci_address b d f 0x24) OR 0x06), Outl PCI_CONFIG_ADDRESS (pci_address b d f 4)]
    else \<exists>l. pci_probe b d f s = (None, s\<lparr>io_log := l\<rparr>)"
proof -
  note r = pci_read_reg [of reg]
  note defs = pci_probe_def PCI_REG_VENDOR_ID_def PCI_REG_BAR5_def PCI_REG_COMMAND_def pci_write32_def outl_def
  show ?thesis
  proof (cases "is_ahci reg b d f")
    case True
    then show ?thesis using assms by (simp add: r defs is_ahci_def Let_def)
  next
    case False
    then show ?thesis using assms by (auto simp: r defs is_ahci_def Let_def)
  qed
qed

text \<open>The first AHCI controller in the order of bus, device and function is found.\<close>

lemma pci_search_first:
  assumes "pci_bus_with reg (io_in s)"
  shows "map_option (\<lambda>v. (pci_bus v, pci_dev v, pci_func v)) (fst (pci_search fs s)) = List.find (\<lambda>(b, d, f). is_ahci reg b d f) fs"
  using assms
proof (induction fs arbitrary: s)
  case (Cons x fs)
  obtain b d f where x: "x = (b, d, f)" by (cases x)
  show ?case
  proof (cases "is_ahci reg b d f")
    case True
    with pci_probe_ahci [OF Cons.prems, of b d f] obtain v t where
      v: "pci_probe b d f s = (Some v, t)" "(pci_bus v, pci_dev v, pci_func v) = (b, d, f)"
      unfolding if_P [OF True] by blast
    with True show ?thesis by (simp add: x)
  next
    case False
    with pci_probe_ahci [OF Cons.prems, of b d f] obtain l where "pci_probe b d f s = (None, s\<lparr>io_log := l\<rparr>)" by auto
    with False Cons.IH [of "s\<lparr>io_log := l\<rparr>"] Cons.prems show ?thesis by (simp add: x)
  qed
qed simp

lemma pci_find_ahci_first:
  "pci_bus_with reg (io_in s) \<Longrightarrow>
     map_option (\<lambda>v. (pci_bus v, pci_dev v, pci_func v)) (fst (pci_find_ahci s)) =
       List.find (\<lambda>(b, d, f). is_ahci reg b d f) pci_functions"
  unfolding pci_find_ahci_def by (rule pci_search_first)

end
