(* ===== verification/Spec2Isabelle.thy ===== *)
theory Spec2Isabelle
  imports Startup Stubs FileTypes Pci
begin

text \<open>
  A verification development for the Miyabi kernel (\<open>src/src\<close>, \<open>src/include\<close>): an
  x86-64 kernel in C, started by the Limine boot loader.

  \<^bold>\<open>The parts and their theories.\<close> The theories follow the order in which the parts build on
  each other; the names of C functions, structures and constants are kept.

  \<^item> \<open>Prelude\<close>: the C integer types as words, the counted \<open>for\<close> loops (\<open>for_up\<close>, and \<open>for_opt\<close>
    for bodies that may not come back), page arithmetic, C strings. \<open>Bytes\<close>: little-endian
    loads and stores in byte-addressed memory and the frame rules for them.
  \<^item> \<open>Interfaces\<close>: the contracts as locales. \<open>frame_allocator\<close> is interpreted in \<open>Pmm\<close> on
    \<open>pmm_alloc\<close>; \<open>kernel_heap\<close> in \<open>KHeap\<close> on \<open>kmalloc\<close> and \<open>kfree\<close>; \<open>name_compare\<close> (declared in
    \<open>CString\<close>) in \<open>CString\<close>, \<open>Ksym\<close> and \<open>Devfs\<close> on the three string comparisons of the code.
  \<^item> Memory: \<open>Pmm\<close> (\<open>mm/pmm.c\<close>, the bitmap of frames), \<open>Vmm\<close> (\<open>mm/vmm.c\<close>, four levels of page
    tables), \<open>KHeap\<close> (\<open>mm/heap.c\<close>, a first-fit list of blocks), \<open>HeapStart\<close> (\<open>init_heap\<close> on the
    frames that \<open>init_pmm\<close> leaves).
  \<^item> Library and options: \<open>CString\<close> (\<open>lib/string.c\<close>), \<open>Cmdline\<close> (\<open>cmdline.c\<close>), \<open>Ksym\<close>
    (\<open>modules/ksym.c\<close>).
  \<^item> Threads: \<open>Scheduler\<close> (\<open>arch/x86_64/thread.c\<close>, \<open>switch.asm\<close>).
  \<^item> Devices: \<open>Console\<close> (\<open>drivers/fb.c\<close>, \<open>spinlock.h\<close>), \<open>Machine\<close> (ports, interrupt flag, the
    bytes of memory, printing from a state), \<open>Ata\<close> and \<open>Block\<close> (\<open>drivers/storage\<close>), \<open>Pci\<close>
    (\<open>drivers/pci/pci.c\<close>).
  \<^item> Files: \<open>Vnode\<close> (\<open>fs/vfs.h\<close>), \<open>Devfs\<close>, \<open>Initramfs\<close>, \<open>Ext2\<close>, \<open>Partition\<close> (\<open>fs/part\<close>), \<open>Vfs\<close>
    (\<open>fs/vfs.c\<close>), \<open>Fd\<close> (\<open>fs/fd.c\<close> and the system calls of \<open>syscalls/\<close>); \<open>FileTypes\<close>: the types of
    the functions stored in nodes, along every sequence of their operations (\<open>file_step\<close>) and
    whatever memory held before.
  \<^item> Processor: \<open>Interrupts\<close> (descriptor tables, interrupt controller, timer, keyboard and the
    handlers of \<open>arch/x86_64\<close>), \<open>Stubs\<close> (\<open>isr.asm\<close>, the way from an interrupt to a handler and back).
  \<^item> Programs: \<open>Elf\<close> (\<open>elf/elf.h\<close>, \<open>elf/loader.c\<close>), \<open>ModLoader\<close> (\<open>modules/loader.c\<close>).
  \<^item> \<open>Boot\<close> (\<open>main.c\<close>, \<open>user.asm\<close>): how \<open>_start\<close> composes all of them; \<open>Startup\<close>: what it achieves.

  \<^bold>\<open>State.\<close> The static variables of every C file are a record that extends the record of the
  parts below it: \<open>pmm\<close>, \<open>vmm\<close>, \<open>heap\<close>, \<open>sched\<close>, \<open>machine\<close>, \<open>vnodes\<close>, \<open>devfs\<close>, \<open>ramfs\<close>,
  \<open>blocks\<close>, \<open>ext2\<close>, \<open>vfs\<close>, \<open>fds\<close>, \<open>arch\<close>, \<open>kernel\<close>. An operation works on every extension
  of its own record (\<open>'a pmm_scheme\<close> and so on) and returns the new state, so that a caller
  of a higher part passes its state down as it is. Facts about the state being the same up to
  the fields of one part are stated by the \<open>same_\<dots>\<close> and frame lemmas of the parts.

  Memory has a type where the code gives it one: block headers, page table entries, threads
  and nodes are maps from addresses to records (\<open>hdrs\<close>, \<open>ptes\<close>, \<open>threads\<close>, \<open>nodes\<close>), the
  contents of files, buffers, disk sectors, ELF images and the framebuffer are bytes (\<open>ram\<close>,
  the console's pixels). Structures that the code lays over bytes (superblock, partition
  entries, tar headers, ELF headers) are read by their offsets from those bytes. Function pointers in
  structures are datatypes with one constructor per function that is ever stored
  (\<open>node_fn\<close>, \<open>block_fn\<close>, \<open>mount_fn\<close>) and a \<open>call_\<dots>\<close> function that dispatches.

  \<^bold>\<open>Results.\<close> An operation that may not come back, because of \<open>for (;;) hlt\<close>, a loop
  without an end or an access the C language does not define, returns an \<open>option\<close>; \<open>None\<close> is
  that case. NULL, -1 and the error codes of the code are values. Loops whose end depends on the
  data are \<open>partial_function (option)\<close>: there the theorems state that a result exists. Other
  loops are total functions with a measure as the termination proof: the distance of the
  counter to its bound, which is at most \<open>2 ^ 64\<close>, so no fuel is used anywhere.

  \<^bold>\<open>Parameters.\<close> What a device answers to a port access is the field \<open>io_in\<close>, a function of all
  accesses so far; the code of loaded modules is the argument \<open>run\<close>; the font, the answers
  of the boot loader, the addresses from the linker and of local arrays are arguments or fields (\<open>boot_info\<close>).
  Nothing is assumed about them except as named hypotheses of single theorems. A drive is such
  a hypothesis (\<open>ata_drive\<close>): it follows the protocol of the ATA standard for reading a sector,
  in phases that the accesses of the host move it through, and delivers data in the phase
  that \<open>DRQ\<close> announced only; outside the protocol nothing is assumed of its answers.

  \<^bold>\<open>What is shown.\<close>

  \<^item> Memory: the allocator hands out the lowest free frame, and what \<open>init_pmm\<close> leaves free is
    determined exactly; mapping and unmapping change one page each, and translation reads back what was
    mapped; \<open>kmalloc\<close> and \<open>kfree\<close> refine a first-fit allocator on a list of block sizes, live
    regions stay disjoint and backed by frames of their own, and no two free blocks stay
    adjacent.
  \<^item> Threads: the queue invariant holds in every reachable state (rule induction over
    \<open>sched_step\<close>); scheduling is round robin, fair, and switching away and back restores the
    registers.
  \<^item> Console: \<open>printf\<close> prints what a rendering of the format says and keeps the cursor on the screen;
    numbers printed read back as themselves.
  \<^item> Files: the archive is unpacked into one node per entry and its directories, lookup by
    path finds them and reading gives their bytes; a mounted root replaces the mount point;
    descriptors are allocated and released; every system call has one of the listed results;
    no call through a member of a node meets a function of another type.
  \<^item> Disks: an ATA read returns after boundedly many polls, with the sectors the device
    delivered at the addresses asked for; partitions become block devices whose reads are shifted and stay
    relative to the partition.
  \<^item> Programs: a loaded ELF image is visible at its virtual addresses and changes no
    other page; relocation of a module writes nothing outside the module's block.
  \<^item> Start: from what the boot loader leaves, \<open>_start\<close> brings up heap, scheduler, interrupt gates
    and console, makes the console the file behind descriptors 1 and 2,
    and without a drive reaches its idle loop. This is shown for machines where the bitmap and the memory
    of the boot loader, its page tables among it, lie above the frames that are handed out
    (\<open>memory_ready\<close>): \<open>init_pmm\<close> leaves all of them free, and where the bitmap lies in the lowest
    free frame the first page of the heap is mapped to it (\<open>first_heap_page_is_bitmap\<close>).

  \<^bold>\<open>Not modelled.\<close> \<open>agdt.asm\<close> (it loads the segment registers, which are not part of the state), the
  stub of the timer (its handler switches stacks, see \<open>Scheduler\<close>), the arrival of interrupts in the middle of an
  operation (handlers are operations of their own), more than one processor, \<open>process.h\<close> and \<open>miyabi.h\<close> (declarations without code),
  \<open>whatthefuck.c\<close> (a preprocessed copy of \<open>main.c\<close>), build files, fonts and the contents of the
  archive. The messages of \<open>pmm.c\<close>, \<open>vmm.c\<close> and \<open>heap.c\<close> are left out; those of the parts above the
  console are printed through it. The maps that hold page tables, block headers, threads,
  nodes, the allocator's bitmap and bytes are kept apart. That frames and heap regions in use
  are disjoint is shown by the theorems on memory. The exception are the frames that \<open>init_pmm\<close>
  frees although they are in use, those of the bitmap and of the boot loader: a store to such a
  frame does not change the bitmap or the tables of the model, so the model is the program only as long as
  they are not handed out. \<open>HeapStart\<close> and \<open>Startup\<close> state this as a hypothesis and show that no
  page of the new heap and no page table lies in the bitmap. The \<open>cli\<close> of \<open>kthread_exit\<close> is added in \<open>Boot\<close>
  (\<open>kthread_exit_cli\<close>), where the interrupt flag is a part of the state.
\<close>

end
